(* ===== verification/Prelude.thy ===== *)
theory Prelude
  imports Main "HOL-Library.Word"
begin

text \<open>
  Shared vocabulary of the development: the machine integer types of
  src/types.h, the outcome of a kernel routine (a value, or the message of a
  panic()), the sequencing of such outcomes, and the generic lemmas on lists
  and words the component theories use.
\<close>

section \<open>Machine integers\<close>

type_synonym u8 = "8 word"
type_synonym u16 = "16 word"
type_synonym u32 = "32 word"
type_synonym u64 = "64 word"

section \<open>Outcomes\<close>

text \<open>
  A routine of the kernel returns a value (\<open>Ok\<close>), calls panic()
  (\<open>Panic msg\<close>: panic() never returns, src/console.c), or calls sleep() on a
  channel that nothing in the current run wakes (\<open>Blocks chan\<close>: the process
  waits for another one).
\<close>

datatype 'a result = Ok 'a | Panic string | Blocks string

primrec bind_r :: "'a result \<Rightarrow> ('a \<Rightarrow> 'b result) \<Rightarrow> 'b result" where
  "bind_r (Ok x) f = f x"
| "bind_r (Panic m) f = Panic m"
| "bind_r (Blocks c) f = Blocks c"

primrec is_ok :: "'a result \<Rightarrow> bool" where
  "is_ok (Ok x) = True"
| "is_ok (Panic m) = False"
| "is_ok (Blocks c) = False"

text \<open>Running a routine over the elements of a list, threading the state.\<close>

fun fold_r :: "('a \<Rightarrow> 's \<Rightarrow> 's result) \<Rightarrow> 'a list \<Rightarrow> 's \<Rightarrow> 's result" where
  "fold_r f [] s = Ok s"
| "fold_r f (x # xs) s = bind_r (f x s) (fold_r f xs)"

lemma bind_r_Ok_iff [simp]: "bind_r m f = Ok y \<longleftrightarrow> (\<exists>x. m = Ok x \<and> f x = Ok y)"
  by (cases m) auto

lemma bind_r_Panic_iff: "bind_r m f = Panic e \<longleftrightarrow> m = Panic e \<or> (\<exists>x. m = Ok x \<and> f x = Panic e)"
  by (cases m) auto

lemma bind_r_assoc: "bind_r (bind_r m f) g = bind_r m (\<lambda>x. bind_r (f x) g)"
  by (cases m) auto

lemma is_ok_iff: "is_ok m \<longleftrightarrow> (\<exists>x. m = Ok x)"
  by (cases m) auto

lemma bind_r_cong [fundef_cong]:
  "m = m' \<Longrightarrow> (\<And>x. m' = Ok x \<Longrightarrow> f x = f' x) \<Longrightarrow> bind_r m f = bind_r m' f'"
  by (cases m') auto

lemma fold_r_append: "fold_r f (xs @ ys) s = bind_r (fold_r f xs s) (fold_r f ys)"
proof (induction xs arbitrary: s)
  case (Cons x xs)
  then have "fold_r f (xs @ ys) = (\<lambda>s. bind_r (fold_r f xs s) (fold_r f ys))" by (rule ext)
  then show ?case by (simp add: bind_r_assoc)
qed simp

section \<open>Slots of a byte block\<close>

text \<open>
  Slot \<open>i\<close> of width \<open>w\<close> of a byte block, and replacing it: what a pointer
  cast such as \<open>(struct dinode*)bp->data + i\<close> reads and writes.
\<close>

definition slot :: "nat \<Rightarrow> nat \<Rightarrow> u8 list \<Rightarrow> u8 list" where
  "slot w i blk = take w (drop (w * i) blk)"

definition set_slot :: "nat \<Rightarrow> nat \<Rightarrow> u8 list \<Rightarrow> u8 list \<Rightarrow> u8 list" where
  "set_slot w i bs blk = take (w * i) blk @ bs @ drop (w * i + w) blk"

text \<open>Replacing \<open>length bs\<close> bytes from offset \<open>off\<close>: \<open>memmove(blk + off, bs, length bs)\<close>.\<close>

definition splice :: "nat \<Rightarrow> u8 list \<Rightarrow> u8 list \<Rightarrow> u8 list" where
  "splice off bs blk = take off blk @ bs @ drop (off + length bs) blk"

lemma length_slot: "w * Suc i \<le> length blk \<Longrightarrow> length (slot w i blk) = w"
  by (simp add: slot_def)

lemma length_set_slot [simp]:
  "length bs = w \<Longrightarrow> w * Suc i \<le> length blk \<Longrightarrow> length (set_slot w i bs blk) = length blk"
  by (simp add: set_slot_def)

lemma length_splice [simp]:
  "off + length bs \<le> length blk \<Longrightarrow> length (splice off bs blk) = length blk"
  by (simp add: splice_def)

lemma nth_set_slot:
  assumes "length bs = w" "w * Suc i \<le> length blk" "k < length blk"
  shows "set_slot w i bs blk ! k =
    (if w * i \<le> k \<and> k < w * i + w then bs ! (k - w * i) else blk ! k)"
  using assms by (auto simp: set_slot_def nth_append min_def)

lemma nth_splice:
  assumes "off + length bs \<le> length blk" "k < length blk"
  shows "splice off bs blk ! k =
    (if off \<le> k \<and> k < off + length bs then bs ! (k - off) else blk ! k)"
  using assms by (auto simp: splice_def nth_append min_def)

lemma slot_set_slot_same:
  assumes "length bs = w" "w * Suc i \<le> length blk"
  shows "slot w i (set_slot w i bs blk) = bs"
  using assms by (simp add: slot_def set_slot_def min_def)

lemma slot_set_slot_other:
  assumes "length bs = w" "w * Suc i \<le> length blk" "w * Suc j \<le> length blk" "i \<noteq> j"
  shows "slot w j (set_slot w i bs blk) = slot w j blk"
proof (rule nth_equalityI)
  show "length (slot w j (set_slot w i bs blk)) = length (slot w j blk)"
    using assms by (simp add: slot_def)
  fix k
  assume "k < length (slot w j (set_slot w i bs blk))"
  then have k: "k < w" using assms by (simp add: slot_def)
  have "w * Suc i \<le> w * j \<or> w * Suc j \<le> w * i"
    using assms(4) by (metis Suc_leI linorder_neqE_nat mult_le_mono2)
  moreover have "w * j + k < length blk"
    using assms(3) k by simp
  ultimately show "slot w j (set_slot w i bs blk) ! k = slot w j blk ! k"
    using assms k by (auto simp: slot_def nth_set_slot)
qed

section \<open>Fixed-width encodings\<close>

text \<open>
  The contract of an on-disk structure: \<open>enc\<close> writes a well-formed value as
  \<open>width\<close> bytes and \<open>dec\<close> reads it back.  Clients get that a slot of a
  block holds what was last stored in it and that storing one slot leaves the
  others alone.
\<close>

locale fixed_codec =
  fixes enc :: "'a \<Rightarrow> u8 list" and dec :: "u8 list \<Rightarrow> 'a" and width :: nat and wf :: "'a \<Rightarrow> bool"
  assumes enc_width: "wf x \<Longrightarrow> length (enc x) = width"
    and dec_enc: "wf x \<Longrightarrow> dec (enc x) = x"
    and dec_wf: "length bs = width \<Longrightarrow> wf (dec bs)"
    and enc_dec: "length bs = width \<Longrightarrow> enc (dec bs) = bs"
begin

lemma stored_slot:
  assumes "wf x" "width * Suc i \<le> length blk"
  shows "dec (slot width i (set_slot width i (enc x) blk)) = x"
  using assms by (simp add: slot_set_slot_same enc_width dec_enc)

lemma other_slot:
  assumes "wf x" "width * Suc i \<le> length blk" "width * Suc j \<le> length blk" "i \<noteq> j"
  shows "dec (slot width j (set_slot width i (enc x) blk)) = dec (slot width j blk)"
  using assms by (simp add: slot_set_slot_other enc_width)

lemma length_stored:
  assumes "wf x" "width * Suc i \<le> length blk"
  shows "length (set_slot width i (enc x) blk) = length blk"
  using assms by (simp add: enc_width)

lemma slot_wf: "width * Suc i \<le> length blk \<Longrightarrow> wf (dec (slot width i blk))"
  by (rule dec_wf) (rule length_slot)

lemma enc_inj: "wf x \<Longrightarrow> wf y \<Longrightarrow> enc x = enc y \<Longrightarrow> x = y"
  by (metis dec_enc)

end

end
