(* ===== verification/Locks.thy ===== *)
theory Locks
  imports Prelude
begin

text \<open>
  src/spinlock.c and src/sleeplock.c.

  The spin lock is modelled on a machine of CPUs that share one lock: each CPU
  runs pushcli, the atomic \<open>xchg\<close>, the recording of the holder, the two stores
  of release() and popcli as separate steps, interleaved with the steps of the
  other CPUs in any order.  The interrupt flag and the pushcli depth are part of
  the CPU state.

  The sleep lock is the sequential view a kernel thread has of it: its fields
  are only touched under the spin lock \<open>lk->lk\<close>, so each operation is one step.
\<close>

section \<open>CPUs: pushcli and popcli\<close>

record cpu =
  intr_on :: bool   \<comment> \<open>FL_IF of the eflags register\<close>
  ncli :: int
  intena :: bool

definition pushcli :: "cpu \<Rightarrow> cpu" where
  "pushcli c =
     (let eflags = intr_on c;
          c = c\<lparr>intr_on := False\<rparr>;
          c = (if ncli c = 0 then c\<lparr>intena := eflags\<rparr> else c)
      in c\<lparr>ncli := ncli c + 1\<rparr>)"

definition popcli :: "cpu \<Rightarrow> cpu result" where
  "popcli c =
     (if intr_on c then Panic ''popcli - interruptible''
      else let c = c\<lparr>ncli := ncli c - 1\<rparr> in
        if ncli c < 0 then Panic ''popcli''
        else Ok (if ncli c = 0 \<and> intena c then c\<lparr>intr_on := True\<rparr> else c))"

fun popcli_n :: "nat \<Rightarrow> cpu \<Rightarrow> cpu result" where
  "popcli_n 0 c = Ok c"
| "popcli_n (Suc n) c = bind_r (popcli c) (popcli_n n)"

section \<open>Spin locks\<close>

record spinlock =
  locked :: u32
  holder :: "nat option"   \<comment> \<open>\<open>lk->cpu\<close>\<close>

definition initlock :: spinlock where
  "initlock = \<lparr>locked = 0, holder = None\<rparr>"

text \<open>holding(): is the lock held, and by this CPU?\<close>

definition holding :: "spinlock \<Rightarrow> nat \<Rightarrow> bool" where
  "holding lk me \<longleftrightarrow> locked lk \<noteq> 0 \<and> holder lk = Some me"

text \<open>The atomic exchange of src/x86.h on \<open>lk->locked\<close>: the old value and the new lock.\<close>

definition xchg_locked :: "spinlock \<Rightarrow> u32 \<Rightarrow> u32 \<times> spinlock" where
  "xchg_locked lk v = (locked lk, lk\<lparr>locked := v\<rparr>)"

text \<open>
  Where a CPU is in acquire() and release(): outside, in the \<open>xchg\<close> loop, past
  it but with \<open>lk->cpu\<close> not yet recorded, in the critical section, or in
  release() between \<open>lk->cpu = 0\<close> and \<open>lk->locked = 0\<close>.
\<close>

datatype spin_pc = Outside | Spinning | Taken | Critical | Clearing

record machine =
  cpus :: "nat \<Rightarrow> cpu"
  pcs :: "nat \<Rightarrow> spin_pc"
  lk :: spinlock

definition set_cpu :: "nat \<Rightarrow> cpu \<Rightarrow> spin_pc \<Rightarrow> machine \<Rightarrow> machine" where
  "set_cpu i c p m = m\<lparr>cpus := (cpus m)(i := c), pcs := (pcs m)(i := p)\<rparr>"

inductive spin_step :: "machine \<Rightarrow> machine \<Rightarrow> bool" where
  acquire_enter:
    "pcs m i = Outside \<Longrightarrow> c = pushcli (cpus m i) \<Longrightarrow> \<not> holding (lk m) i \<Longrightarrow>
     spin_step m (set_cpu i c Spinning m)"
| acquire_xchg:
    "pcs m i = Spinning \<Longrightarrow> xchg_locked (lk m) 1 = (old, l) \<Longrightarrow>
     spin_step m (set_cpu i (cpus m i) (if old \<noteq> 0 then Spinning else Taken) (m\<lparr>lk := l\<rparr>))"
| acquire_record:
    "pcs m i = Taken \<Longrightarrow>
     spin_step m (set_cpu i (cpus m i) Critical (m\<lparr>lk := (lk m)\<lparr>holder := Some i\<rparr>\<rparr>))"
| release_clear:
    "pcs m i = Critical \<Longrightarrow> holding (lk m) i \<Longrightarrow>
     spin_step m (set_cpu i (cpus m i) Clearing (m\<lparr>lk := (lk m)\<lparr>holder := None\<rparr>\<rparr>))"
| release_unlock:
    "pcs m i = Clearing \<Longrightarrow> popcli (cpus m i) = Ok c \<Longrightarrow>
     spin_step m (set_cpu i c Outside (m\<lparr>lk := (lk m)\<lparr>locked := 0\<rparr>\<rparr>))"
| nested_push:
    "pcs m i = Critical \<Longrightarrow> spin_step m (set_cpu i (pushcli (cpus m i)) Critical m)"
| nested_pop:
    "pcs m i = Critical \<Longrightarrow> 1 < ncli (cpus m i) \<Longrightarrow> popcli (cpus m i) = Ok c \<Longrightarrow>
     spin_step m (set_cpu i c Critical m)"

definition spin_init :: "machine \<Rightarrow> bool" where
  "spin_init m \<longleftrightarrow> lk m = initlock \<and> (\<forall>i. pcs m i = Outside \<and> 0 \<le> ncli (cpus m i) \<and>
     (0 < ncli (cpus m i) \<longrightarrow> \<not> intr_on (cpus m i)))"

inductive spin_reach :: "machine \<Rightarrow> bool" where
  start: "spin_init m \<Longrightarrow> spin_reach m"
| step: "spin_reach m \<Longrightarrow> spin_step m m' \<Longrightarrow> spin_reach m'"

inductive_cases spin_stepE: "spin_step m m'"

section \<open>Sleep locks\<close>

record sleeplock =
  sl_locked :: bool
  sl_pid :: int

definition initsleeplock :: sleeplock where
  "initsleeplock = \<lparr>sl_locked = False, sl_pid = 0\<rparr>"

text \<open>acquiresleep sleeps on the lock while another thread holds it.\<close>

definition acquiresleep :: "int \<Rightarrow> sleeplock \<Rightarrow> sleeplock result" where
  "acquiresleep pid l =
     (if sl_locked l then Blocks ''sleeplock'' else Ok (l\<lparr>sl_locked := True, sl_pid := pid\<rparr>))"

definition releasesleep :: "sleeplock \<Rightarrow> sleeplock" where
  "releasesleep l = l\<lparr>sl_locked := False, sl_pid := 0\<rparr>"

definition holdingsleep :: "sleeplock \<Rightarrow> bool" where
  "holdingsleep l = sl_locked l"

section \<open>Lemmas\<close>

text \<open>
  The lock word is set exactly while one CPU is between its successful
  \<open>xchg\<close> and its release, and \<open>lk->cpu\<close> names a CPU exactly while that CPU
  is in the critical section.  A CPU anywhere in acquire() or release() has a
  positive pushcli depth and interrupts off.
\<close>

definition owns :: "spin_pc \<Rightarrow> bool" where
  "owns p \<longleftrightarrow> p = Taken \<or> p = Critical \<or> p = Clearing"

definition lock_inv :: "nat option \<Rightarrow> machine \<Rightarrow> bool" where
  "lock_inv ow m \<longleftrightarrow> (\<forall>i. owns (pcs m i) \<longleftrightarrow> ow = Some i) \<and>
     (locked (lk m) \<noteq> 0 \<longleftrightarrow> ow \<noteq> None) \<and>
     (\<forall>i. holder (lk m) = Some i \<longleftrightarrow> pcs m i = Critical)"

definition cpu_inv :: "machine \<Rightarrow> bool" where
  "cpu_inv m \<longleftrightarrow> (\<forall>i. 0 \<le> ncli (cpus m i) \<and>
     (0 < ncli (cpus m i) \<longrightarrow> \<not> intr_on (cpus m i)) \<and>
     (pcs m i \<noteq> Outside \<longrightarrow> 0 < ncli (cpus m i)))"

lemma pushcli_simps [simp]:
  "intr_on (pushcli c) = False" "ncli (pushcli c) = ncli c + 1"
  "intena (pushcli c) = (if ncli c = 0 then intr_on c else intena c)"
  by (auto simp: pushcli_def Let_def)

lemma popcli_OkD:
  assumes "popcli c = Ok c'"
  shows "ncli c' = ncli c - 1" "0 \<le> ncli c'" "intr_on c' \<longleftrightarrow> ncli c' = 0 \<and> intena c"
    "intena c' = intena c"
  using assms by (auto simp: popcli_def Let_def split: if_splits)

lemma popcli_Ok_iff: "is_ok (popcli c) \<longleftrightarrow> \<not> intr_on c \<and> 0 < ncli c"
  by (auto simp: popcli_def Let_def)

lemma ncli_pushcli_n: "ncli ((pushcli ^^ n) c) = ncli c + int n"
  by (induction n) auto

lemma popcli_n_pushcli_n:
  assumes "0 \<le> ncli c" and "0 < ncli c \<Longrightarrow> \<not> intr_on c"
  shows "\<exists>c'. popcli_n n ((pushcli ^^ n) c) = Ok c' \<and> ncli c' = ncli c \<and> intr_on c' = intr_on c"
proof (induction n)
  case (Suc n)
  let ?c = "(pushcli ^^ n) c"
  obtain d where d: "popcli (pushcli ?c) = Ok d"
    using popcli_Ok_iff[of "pushcli ?c"] assms(1) by (auto simp: ncli_pushcli_n is_ok_iff)
  show ?case
  proof (cases n)
    case 0
    then have "ncli d = ncli c" "intr_on d = intr_on c"
      using popcli_OkD[OF d] assms by auto
    then show ?thesis using d 0 by simp
  next
    case (Suc k)
    then have "ncli d = ncli ?c" "intr_on d = intr_on ?c" "intena d = intena ?c"
      using popcli_OkD[OF d] assms(1) by (auto simp: ncli_pushcli_n)
    then have "d = ?c" by simp
    then show ?thesis using d Suc.IH by simp
  qed
qed (simp)

lemma set_cpu_simps [simp]:
  "cpus (set_cpu i c p m) = (cpus m)(i := c)" "pcs (set_cpu i c p m) = (pcs m)(i := p)"
  "lk (set_cpu i c p m) = lk m"
  by (auto simp: set_cpu_def)

lemma owns_simps [simp]:
  "owns Taken" "owns Critical" "owns Clearing" "\<not> owns Outside" "\<not> owns Spinning"
  by (auto simp: owns_def)

lemma lock_inv_at:
  "lock_inv ow m \<Longrightarrow> (owns (pcs m i) \<longleftrightarrow> ow = Some i) \<and> (holder (lk m) = Some i \<longleftrightarrow> pcs m i = Critical)"
  by (simp add: lock_inv_def)

lemma lock_inv_step:
  assumes step: "spin_step m m'" and inv: "lock_inv ow m"
  shows "\<exists>ow'. lock_inv ow' m'"
  using step
proof (cases rule: spin_step.cases)
  case (acquire_enter i c)
  have "lock_inv ow m'"
    using inv lock_inv_at[OF inv, of i] acquire_enter by (simp add: lock_inv_def)
  then show ?thesis ..
next
  case (acquire_xchg i old l)
  have "lock_inv (if old = 0 then Some i else ow) m'"
    using inv lock_inv_at[OF inv, of i] acquire_xchg by (auto simp: lock_inv_def xchg_locked_def)
  then show ?thesis ..
next
  case (acquire_record i)
  have "lock_inv ow m'"
    using inv lock_inv_at[OF inv, of i] acquire_record by (auto simp: lock_inv_def)
  then show ?thesis ..
next
  case (release_clear i)
  have "lock_inv ow m'"
    using inv lock_inv_at[OF inv, of i] release_clear by (auto simp: lock_inv_def)
  then show ?thesis ..
next
  case (release_unlock i c)
  have "lock_inv None m'"
    using inv lock_inv_at[OF inv, of i] release_unlock by (auto simp: lock_inv_def)
  then show ?thesis ..
next
  case (nested_push i)
  have "lock_inv ow m'"
    using inv lock_inv_at[OF inv, of i] nested_push by (auto simp: lock_inv_def)
  then show ?thesis ..
next
  case (nested_pop i c)
  have "lock_inv ow m'"
    using inv lock_inv_at[OF inv, of i] nested_pop by (auto simp: lock_inv_def)
  then show ?thesis ..
qed

lemma cpu_inv_step: "spin_step m m' \<Longrightarrow> cpu_inv m \<Longrightarrow> cpu_inv m'"
  by (induction rule: spin_step.induct) (auto simp: cpu_inv_def dest: popcli_OkD)

lemma spin_reach_inv: "spin_reach m \<Longrightarrow> (\<exists>ow. lock_inv ow m) \<and> cpu_inv m"
proof (induction rule: spin_reach.induct)
  case (start m)
  then have "lock_inv None m" "cpu_inv m"
    by (auto simp: spin_init_def lock_inv_def cpu_inv_def initlock_def)
  then show ?case by blast
next
  case (step m m')
  then show ?case using lock_inv_step cpu_inv_step by blast
qed

section \<open>Properties\<close>

text \<open>
  C7: Mutual exclusion of the spin lock: in every interleaving of CPUs running
  acquire() and release(), at most one is past its \<open>xchg\<close> and not yet
  released, its interrupts are off, and release()'s holding() check and popcli()
  succeed for it.
\<close>

theorem spinlock_mutual_exclusion:
  assumes "spin_reach m" and "owns (pcs m i)"
  shows "(\<forall>j. owns (pcs m j) \<longrightarrow> j = i) \<and> \<not> intr_on (cpus m i) \<and> is_ok (popcli (cpus m i)) \<and>
    (pcs m i = Critical \<longrightarrow> holding (lk m) i)"
proof -
  obtain ow where inv: "lock_inv ow m" and cpu: "cpu_inv m"
    using spin_reach_inv[OF assms(1)] by blast
  then have "ow = Some i" using assms(2) by (auto simp: lock_inv_def)
  moreover have "pcs m i \<noteq> Outside" using assms(2) by auto
  ultimately show ?thesis
    using inv cpu by (auto simp: lock_inv_def cpu_inv_def popcli_Ok_iff holding_def)
qed

definition demo_machine :: machine where
  "demo_machine = \<lparr>cpus = (\<lambda>_. \<lparr>intr_on = True, ncli = 0, intena = False\<rparr>),
     pcs = (\<lambda>_. Outside), lk = initlock\<rparr>"

theorem spinlock_mutual_exclusion_witness:
  "\<exists>m. spin_reach m \<and> owns (pcs m 0) \<and> \<not> owns (pcs m 1) \<and> \<not> intr_on (cpus m 0)"
proof -
  let ?m1 = "set_cpu 0 (pushcli (cpus demo_machine 0)) Spinning demo_machine"
  let ?m2 = "set_cpu 0 (cpus ?m1 0) Taken (?m1\<lparr>lk := (lk ?m1)\<lparr>locked := 1\<rparr>\<rparr>)"
  have "spin_reach demo_machine"
    by (rule spin_reach.start) (simp add: spin_init_def demo_machine_def)
  moreover have "spin_step demo_machine ?m1"
    by (rule spin_step.acquire_enter) (auto simp: demo_machine_def holding_def initlock_def)
  moreover have "spin_step ?m1 ?m2"
    using spin_step.acquire_xchg[of ?m1 0 0 "(lk ?m1)\<lparr>locked := 1\<rparr>"]
    by (simp add: xchg_locked_def demo_machine_def initlock_def)
  ultimately have reach: "spin_reach ?m2" by (blast intro: spin_reach.step)
  have "owns (pcs ?m2 0)" by simp
  then have "\<not> owns (pcs ?m2 1)" "\<not> intr_on (cpus ?m2 0)"
    using spinlock_mutual_exclusion[OF reach, of 0] by (auto dest: spec[of _ 1])
  then show ?thesis using reach \<open>owns (pcs ?m2 0)\<close> by blast
qed

text \<open>
  pushcli() and popcli() nest: popping as often as pushed gives back the
  pushcli depth and the interrupt flag the CPU had before, whatever they were.
\<close>

theorem popcli_undoes_pushcli:
  assumes "0 \<le> ncli c" and "0 < ncli c \<Longrightarrow> \<not> intr_on c"
  shows "\<exists>c'. popcli_n n ((pushcli ^^ n) c) = Ok c' \<and> ncli c' = ncli c \<and> intr_on c' = intr_on c"
  using assms by (rule popcli_n_pushcli_n)

end
