(* ===== verification/Layout.thy ===== *)
theory Layout
  imports Prelude
begin

text \<open>
  src/fs.h and the constants of src/param.h: the on-disk structures of the file
  system and their little-endian byte images, as x86-64 lays the C structs out
  (no padding occurs in any of them).  Each is an instance of \<open>fixed_codec\<close>,
  which gives the storage laws the file system relies on.
\<close>

section \<open>Constants\<close>

definition BSIZE :: nat where "BSIZE = 512"

definition NDIRECT :: nat where "NDIRECT = 12"

definition NINDIRECT :: nat where "NINDIRECT = BSIZE div 4"

definition MAXFILE :: nat where "MAXFILE = NDIRECT + NINDIRECT"

definition DIRSIZ :: nat where "DIRSIZ = 14"

definition ROOTINO :: nat where "ROOTINO = 1"

definition ROOTDEV :: nat where "ROOTDEV = 1"

definition MAXOPBLOCKS :: nat where "MAXOPBLOCKS = 10"

definition LOGSIZE :: nat where "LOGSIZE = MAXOPBLOCKS * 3"

definition NBUF :: nat where "NBUF = MAXOPBLOCKS * 3"

definition NINODE :: nat where "NINODE = 50"

definition NFILE :: nat where "NFILE = 100"

definition NOFILE :: nat where "NOFILE = 16"

definition NDEV :: nat where "NDEV = 10"

definition NPROC :: nat where "NPROC = 64"

definition FSSIZE :: nat where "FSSIZE = 1000"

lemma MAXFILE_eq: "MAXFILE = 140"
  by (simp add: MAXFILE_def NDIRECT_def NINDIRECT_def BSIZE_def)

lemma LOGSIZE_eq: "LOGSIZE = 30"
  by (simp add: LOGSIZE_def MAXOPBLOCKS_def)

lemma NBUF_eq: "NBUF = 30"
  by (simp add: NBUF_def MAXOPBLOCKS_def)

lemma NINDIRECT_eq: "NINDIRECT = 128"
  by (simp add: NINDIRECT_def BSIZE_def)

lemmas fs_consts = BSIZE_def NDIRECT_def NINDIRECT_eq MAXFILE_eq DIRSIZ_def LOGSIZE_eq NBUF_eq

section \<open>Integers in memory\<close>

definition enc16 :: "u16 \<Rightarrow> u8 list" where
  "enc16 w = [ucast w, ucast (drop_bit 8 w)]"

definition dec16 :: "u8 list \<Rightarrow> u16" where
  "dec16 bs = or (ucast (bs ! 0)) (push_bit 8 (ucast (bs ! 1)))"

definition enc32 :: "u32 \<Rightarrow> u8 list" where
  "enc32 w = [ucast w, ucast (drop_bit 8 w), ucast (drop_bit 16 w), ucast (drop_bit 24 w)]"

definition dec32 :: "u8 list \<Rightarrow> u32" where
  "dec32 bs = or (or (ucast (bs ! 0)) (push_bit 8 (ucast (bs ! 1))))
                 (or (push_bit 16 (ucast (bs ! 2))) (push_bit 24 (ucast (bs ! 3))))"

lemma bit_u8_high: "8 \<le> n \<Longrightarrow> \<not> bit (a :: u8) n"
  using bit_imp_le_length [of a n] by auto

lemma dec16_enc16: "dec16 (enc16 w) = w"
  by (rule bit_word_eqI) (auto simp: dec16_def enc16_def bit_simps)

lemma enc16_dec16:
  assumes "length bs = 2"
  shows "enc16 (dec16 bs) = bs"
proof -
  obtain a b where bs: "bs = [a, b]"
    using assms by (auto simp: length_Suc_conv numeral_2_eq_2)
  have "ucast (dec16 bs) = a" "ucast (drop_bit 8 (dec16 bs)) = b"
    unfolding bs dec16_def by (auto intro!: bit_word_eqI simp: bit_simps bit_u8_high)
  then show ?thesis by (simp add: enc16_def bs)
qed

lemma dec32_enc32: "dec32 (enc32 w) = w"
proof (rule bit_word_eqI)
  fix n
  assume "n < LENGTH(32)"
  then show "bit (dec32 (enc32 w)) n = bit w n"
    by (cases "24 \<le> n"; cases "16 \<le> n") (auto simp: dec32_def enc32_def bit_simps)
qed

lemma enc32_dec32:
  assumes "length bs = 4"
  shows "enc32 (dec32 bs) = bs"
proof -
  obtain a b c d where bs: "bs = [a, b, c, d]"
    using assms by (auto simp: length_Suc_conv eval_nat_numeral)
  have "ucast (dec32 bs) = a" "ucast (drop_bit 8 (dec32 bs)) = b"
    "ucast (drop_bit 16 (dec32 bs)) = c" "ucast (drop_bit 24 (dec32 bs)) = d"
    unfolding bs dec32_def
    by (auto intro!: bit_word_eqI simp: bit_simps bit_u8_high)
  then show ?thesis by (simp add: enc32_def bs)
qed

lemma length_enc16 [simp]: "length (enc16 w) = 2"
  by (simp add: enc16_def)

lemma length_enc32 [simp]: "length (enc32 w) = 4"
  by (simp add: enc32_def)

interpretation c16: fixed_codec enc16 dec16 2 "\<lambda>_. True"
  by unfold_locales (auto simp: dec16_enc16 enc16_dec16)

interpretation c32: fixed_codec enc32 dec32 4 "\<lambda>_. True"
  by unfold_locales (auto simp: dec32_enc32 enc32_dec32)

section \<open>Arrays of fixed-width values\<close>

definition enc_array :: "('a \<Rightarrow> u8 list) \<Rightarrow> 'a list \<Rightarrow> u8 list" where
  "enc_array enc xs = concat (map enc xs)"

definition dec_array :: "(u8 list \<Rightarrow> 'a) \<Rightarrow> nat \<Rightarrow> nat \<Rightarrow> u8 list \<Rightarrow> 'a list" where
  "dec_array dec w n bs = map (\<lambda>i. dec (slot w i bs)) [0..<n]"

lemma slot_append_0: "length a = w \<Longrightarrow> slot w 0 (a @ b) = a"
  by (simp add: slot_def)

lemma slot_append_Suc: "length a = w \<Longrightarrow> slot w (Suc i) (a @ b) = slot w i b"
  by (simp add: slot_def)

lemma dec_array_Suc:
  assumes "length a = w"
  shows "dec_array dec w (Suc n) (a @ b) = dec a # dec_array dec w n b"
proof -
  have "[0..<Suc n] = 0 # map Suc [0..<n]" by (simp add: map_Suc_upt upt_conv_Cons)
  then show ?thesis
    by (simp add: dec_array_def slot_append_0 slot_append_Suc assms comp_def del: upt_Suc)
qed

context fixed_codec
begin

lemma array_enc_width: "list_all wf xs \<Longrightarrow> length (enc_array enc xs) = length xs * width"
  by (induction xs) (auto simp: enc_array_def enc_width)

lemma array_dec_enc: "list_all wf xs \<Longrightarrow> dec_array dec width (length xs) (enc_array enc xs) = xs"
proof (induction xs)
  case (Cons x xs)
  then have "enc_array enc (x # xs) = enc x @ enc_array enc xs" "length (enc x) = width"
    by (simp_all add: enc_array_def enc_width)
  with Cons show ?case by (simp add: dec_array_Suc dec_enc del: upt_Suc)
qed (simp add: dec_array_def)

lemma array_dec_enc_n:
  "length xs = n \<Longrightarrow> list_all wf xs \<Longrightarrow> dec_array dec width n (enc_array enc xs) = xs"
  using array_dec_enc by blast

lemma array_enc_dec: "length bs = n * width \<Longrightarrow> enc_array enc (dec_array dec width n bs) = bs"
proof (induction n arbitrary: bs)
  case (Suc n)
  obtain a b where bs: "bs = a @ b" "length a = width" "length b = n * width"
    using Suc.prems by (intro that [of "take width bs" "drop width bs"]) auto
  then have "enc_array enc (dec_array dec width (Suc n) bs) =
      enc (dec a) @ enc_array enc (dec_array dec width n b)"
    by (simp add: dec_array_Suc enc_array_def)
  then show ?case using Suc.IH [OF bs(3)] bs by (simp add: enc_dec)
qed (simp add: dec_array_def enc_array_def)

lemma array_dec_wf: "length bs = n * width \<Longrightarrow> list_all wf (dec_array dec width n bs)"
  by (auto simp: dec_array_def list_all_iff less_eq_Suc_le intro!: slot_wf)
    (metis mult.commute mult_le_mono1 mult_Suc)

lemma array_codec:
  "fixed_codec (enc_array enc) (dec_array dec width n) (n * width) (\<lambda>xs. length xs = n \<and> list_all wf xs)"
  by unfold_locales
    (auto simp: array_enc_width array_dec_enc array_enc_dec array_dec_wf, simp add: dec_array_def)

end

section \<open>The structures of fs.h\<close>

record superblock =
  sb_size :: u32
  sb_nblocks :: u32
  sb_ninodes :: u32
  sb_nlog :: u32
  sb_logstart :: u32
  sb_inodestart :: u32
  sb_bmapstart :: u32

definition enc_superblock :: "superblock \<Rightarrow> u8 list" where
  "enc_superblock sb = enc_array enc32
     [sb_size sb, sb_nblocks sb, sb_ninodes sb, sb_nlog sb, sb_logstart sb, sb_inodestart sb,
      sb_bmapstart sb]"

definition dec_superblock :: "u8 list \<Rightarrow> superblock" where
  "dec_superblock bs =
     (let f = (\<lambda>i. dec32 (slot 4 i bs))
      in \<lparr>sb_size = f 0, sb_nblocks = f 1, sb_ninodes = f 2, sb_nlog = f 3, sb_logstart = f 4,
          sb_inodestart = f 5, sb_bmapstart = f 6\<rparr>)"

record dinode =
  d_type :: u16
  d_major :: u16
  d_minor :: u16
  d_nlink :: u16
  d_size :: u32
  d_addrs :: "u32 list"

definition enc_dinode :: "dinode \<Rightarrow> u8 list" where
  "enc_dinode d = enc_array enc16 [d_type d, d_major d, d_minor d, d_nlink d]
     @ enc_array enc32 (d_size d # d_addrs d)"

definition dec_dinode :: "u8 list \<Rightarrow> dinode" where
  "dec_dinode bs =
     \<lparr>d_type = dec16 (slot 2 0 bs), d_major = dec16 (slot 2 1 bs), d_minor = dec16 (slot 2 2 bs),
      d_nlink = dec16 (slot 2 3 bs), d_size = dec32 (slot 4 2 bs),
      d_addrs = dec_array dec32 4 (NDIRECT + 1) (drop 12 bs)\<rparr>"

definition wf_dinode :: "dinode \<Rightarrow> bool" where
  "wf_dinode d \<longleftrightarrow> length (d_addrs d) = NDIRECT + 1"

record dirent =
  de_inum :: u16
  de_name :: "u8 list"

definition enc_dirent :: "dirent \<Rightarrow> u8 list" where
  "enc_dirent de = enc16 (de_inum de) @ de_name de"

definition dec_dirent :: "u8 list \<Rightarrow> dirent" where
  "dec_dirent bs = \<lparr>de_inum = dec16 (take 2 bs), de_name = drop 2 bs\<rparr>"

definition wf_dirent :: "dirent \<Rightarrow> bool" where
  "wf_dirent de \<longleftrightarrow> length (de_name de) = DIRSIZ"

lemma slot_append_left: "w * Suc i \<le> length a \<Longrightarrow> slot w i (a @ b) = slot w i a"
  by (simp add: slot_def)

lemma drop_slot: "slot w i (drop (w * k) bs) = slot w (k + i) bs"
  by (simp add: slot_def algebra_simps)

lemma dec_array_eval:
  "dec_array dec w 4 bs = [dec (slot w 0 bs), dec (slot w 1 bs), dec (slot w 2 bs), dec (slot w 3 bs)]"
  "dec_array dec w 7 bs = [dec (slot w 0 bs), dec (slot w 1 bs), dec (slot w 2 bs), dec (slot w 3 bs),
     dec (slot w 4 bs), dec (slot w 5 bs), dec (slot w 6 bs)]"
  by (simp_all add: dec_array_def upt_rec eval_nat_numeral)

lemma superblock_codec: "fixed_codec enc_superblock dec_superblock 28 (\<lambda>_. True)"
proof unfold_locales
  have fields: "enc_superblock (dec_superblock bs) = enc_array enc32 (dec_array dec32 4 7 bs)" for bs
    by (simp add: enc_superblock_def dec_superblock_def dec_array_eval)
  show "length (enc_superblock x) = 28" for x
    by (simp add: enc_superblock_def c32.array_enc_width list_all_iff)
  show "dec_superblock (enc_superblock x) = x" for x
    using c32.array_dec_enc_n [of "[sb_size x, sb_nblocks x, sb_ninodes x, sb_nlog x, sb_logstart x,
      sb_inodestart x, sb_bmapstart x]" 7]
    by (simp add: enc_superblock_def dec_superblock_def dec_array_eval list_all_iff)
  show "enc_superblock (dec_superblock bs) = bs" if "length bs = 28" for bs
    using that by (simp add: fields c32.array_enc_dec)
qed simp

lemma dinode_fields: "enc_dinode (dec_dinode bs) =
    enc_array enc16 (dec_array dec16 2 4 bs) @ enc_array enc32 (dec_array dec32 4 14 (drop 8 bs))"
proof -
  have "[0..<14] = 0 # map Suc [0..<13]" by (simp add: map_Suc_upt upt_conv_Cons [of 0 14])
  moreover have "slot 4 (2 + i) bs = slot 4 i (drop 8 bs)" "slot 4 (3 + i) bs = slot 4 i (drop 12 bs)" for i
    using drop_slot [of 4 i 2 bs] drop_slot [of 4 i 3 bs] by simp_all
  from this(1) [of "Suc _"] this(1) [of 0] this(2)
  have "slot 4 0 (drop 8 bs) = slot 4 2 bs" "slot 4 (Suc i) (drop 8 bs) = slot 4 i (drop 12 bs)" for i
    by (simp_all add: eval_nat_numeral)
  ultimately have "dec_array dec32 4 14 (drop 8 bs) =
      dec32 (slot 4 2 bs) # dec_array dec32 4 13 (drop 12 bs)"
    by (simp add: dec_array_def comp_def)
  then show ?thesis
    by (simp add: enc_dinode_def dec_dinode_def dec_array_eval NDIRECT_def)
qed

lemma dinode_codec: "fixed_codec enc_dinode dec_dinode 64 wf_dinode"
proof unfold_locales
  show "length (enc_dinode x) = 64" if "wf_dinode x" for x
    using that by (simp add: enc_dinode_def wf_dinode_def NDIRECT_def c32.array_enc_width
      c16.array_enc_width list_all_iff)
  show "wf_dinode (dec_dinode bs)" for bs
    by (simp add: wf_dinode_def dec_dinode_def dec_array_def)
  show "enc_dinode (dec_dinode bs) = bs" if "length bs = 64" for bs
  proof -
    have *: "dec_array dec16 2 4 bs = dec_array dec16 2 4 (take 8 bs)"
      by (simp add: dec_array_eval slot_def take_drop)
    show ?thesis using that unfolding dinode_fields *
      by (simp add: c16.array_enc_dec c32.array_enc_dec)
  qed
  show "dec_dinode (enc_dinode x) = x" if "wf_dinode x" for x
  proof -
    define a where "a = enc_array enc16 [d_type x, d_major x, d_minor x, d_nlink x]"
    define b where "b = enc_array enc32 (d_addrs x)"
    have len: "length a = 8" by (simp add: a_def c16.array_enc_width list_all_iff)
    have e: "enc_dinode x = a @ enc32 (d_size x) @ b"
      by (simp add: enc_dinode_def a_def b_def enc_array_def)
    have "dec_array dec16 2 4 a = [d_type x, d_major x, d_minor x, d_nlink x]"
      using c16.array_dec_enc_n [of "[d_type x, d_major x, d_minor x, d_nlink x]" 4]
      by (simp add: a_def list_all_iff)
    moreover have "slot 4 2 (enc_dinode x) = enc32 (d_size x)"
      by (simp add: e slot_def len)
    moreover have "dec_array dec32 4 (NDIRECT + 1) (drop 12 (enc_dinode x)) = d_addrs x"
      using c32.array_dec_enc [of "d_addrs x"] that
      by (simp add: e len b_def wf_dinode_def list_all_iff)
    ultimately show ?thesis
      by (simp add: dec_dinode_def dec_array_eval dec32_enc32 e slot_append_left len)
  qed
qed

lemma dirent_codec: "fixed_codec enc_dirent dec_dirent 16 wf_dirent"
  by unfold_locales
    (auto simp: enc_dirent_def dec_dirent_def wf_dirent_def DIRSIZ_def enc16_dec16 dec16_enc16)

interpretation csb: fixed_codec enc_superblock dec_superblock 28 "\<lambda>_. True"
  by (rule superblock_codec)

interpretation cdi: fixed_codec enc_dinode dec_dinode 64 wf_dinode
  by (rule dinode_codec)

interpretation cde: fixed_codec enc_dirent dec_dirent 16 wf_dirent
  by (rule dirent_codec)

end
