(* ===== verification/Bio.thy ===== *)
theory Bio
  imports Locks Layout
begin

text \<open>
  src/bio.c, the buffer cache, with its doubly linked LRU list at pointer level,
  over the memory disk of src/memide.c.

  \<open>bufs\<close> is the array \<open>bcache.buf\<close> with \<open>bcache.head\<close> at index
  \<open>NBUF\<close>; \<open>b_prev\<close> and \<open>b_next\<close> are indices.  The walks over the
  list stop at the head; \<open>NBUF\<close> steps always suffice on a well-formed list
  (\<open>dll\<close>), so they recurse on that bound.  \<open>disk\<close> is \<open>memdisk\<close> by
  block number, and \<open>wlog\<close> records the block writes the disk has received,
  oldest last: a crash leaves the disk as some suffix of it left it.
  The list walks and updates of one call run under \<open>bcache.lock\<close>.
\<close>

section \<open>Model\<close>

type_synonym block = "u8 list"

record buf =
  b_valid :: bool      \<comment> \<open>B_VALID of \<open>flags\<close>\<close>
  b_dirty :: bool      \<comment> \<open>B_DIRTY of \<open>flags\<close>\<close>
  b_dev :: nat
  b_blockno :: nat
  b_lock :: sleeplock
  b_refcnt :: nat
  b_prev :: nat
  b_next :: nat
  b_data :: block

record bstate =
  bufs :: "nat \<Rightarrow> buf"
  disk :: "nat \<Rightarrow> block"
  disksize :: nat
  wlog :: "(nat \<times> block) list"

definition upd_buf :: "nat \<Rightarrow> (buf \<Rightarrow> buf) \<Rightarrow> bstate \<Rightarrow> bstate" where
  "upd_buf i f s = s\<lparr>bufs := (bufs s)(i := f (bufs s i))\<rparr>"

definition set_next :: "nat \<Rightarrow> nat \<Rightarrow> bstate \<Rightarrow> bstate" where
  "set_next i v = upd_buf i (b_next_update (\<lambda>_. v))"

definition set_prev :: "nat \<Rightarrow> nat \<Rightarrow> bstate \<Rightarrow> bstate" where
  "set_prev i v = upd_buf i (b_prev_update (\<lambda>_. v))"

text \<open>Linking buffer \<open>b\<close> in right after the head, as binit and brelse do.\<close>

definition link_front :: "nat \<Rightarrow> bstate \<Rightarrow> bstate" where
  "link_front b s =
     (let s = set_next b (b_next (bufs s NBUF)) s;
          s = set_prev b NBUF s;
          s = set_prev (b_next (bufs s NBUF)) b s
      in set_next NBUF b s)"

fun binit_loop :: "nat list \<Rightarrow> bstate \<Rightarrow> bstate" where
  "binit_loop [] s = s"
| "binit_loop (b # bs) s =
     binit_loop bs (link_front b (upd_buf b (b_lock_update (\<lambda>_. initsleeplock)) s))"

definition binit :: "bstate \<Rightarrow> bstate" where
  "binit s =
     (let s = set_prev NBUF NBUF s;
          s = set_next NBUF NBUF s
      in binit_loop [0..<NBUF] s)"

text \<open>The buffers a walk from the head visits, in MRU and in LRU order.\<close>

fun walk_next :: "nat \<Rightarrow> bstate \<Rightarrow> nat \<Rightarrow> nat list" where
  "walk_next 0 s b = []"
| "walk_next (Suc k) s b = (if b = NBUF then [] else b # walk_next k s (b_next (bufs s b)))"

fun walk_prev :: "nat \<Rightarrow> bstate \<Rightarrow> nat \<Rightarrow> nat list" where
  "walk_prev 0 s b = []"
| "walk_prev (Suc k) s b = (if b = NBUF then [] else b # walk_prev k s (b_prev (bufs s b)))"

definition lock_buf :: "int \<Rightarrow> nat \<Rightarrow> bstate \<Rightarrow> (nat \<times> bstate) result" where
  "lock_buf pid i s =
     bind_r (acquiresleep pid (b_lock (bufs s i)))
       (\<lambda>l. Ok (i, upd_buf i (b_lock_update (\<lambda>_. l)) s))"

definition bget :: "int \<Rightarrow> nat \<Rightarrow> nat \<Rightarrow> bstate \<Rightarrow> (nat \<times> bstate) result" where
  "bget pid dev blockno s =
     (case find (\<lambda>i. b_dev (bufs s i) = dev \<and> b_blockno (bufs s i) = blockno)
             (walk_next NBUF s (b_next (bufs s NBUF))) of
        Some i \<Rightarrow> lock_buf pid i (upd_buf i (b_refcnt_update Suc) s)
      | None \<Rightarrow>
         (case find (\<lambda>i. b_refcnt (bufs s i) = 0 \<and> \<not> b_dirty (bufs s i))
                 (walk_prev NBUF s (b_prev (bufs s NBUF))) of
            Some i \<Rightarrow>
              lock_buf pid i
                (upd_buf i (\<lambda>b. b\<lparr>b_dev := dev, b_blockno := blockno, b_valid := False,
                   b_dirty := False, b_refcnt := 1\<rparr>) s)
          | None \<Rightarrow> Panic ''bget: no buffers''))"

text \<open>src/memide.c: sync a locked buffer with the disk.\<close>

definition iderw :: "nat \<Rightarrow> bstate \<Rightarrow> bstate result" where
  "iderw i s =
     (let b = bufs s i in
      if \<not> holdingsleep (b_lock b) then Panic ''iderw: buf not locked''
      else if b_valid b \<and> \<not> b_dirty b then Panic ''iderw: nothing to do''
      else if b_dev b \<noteq> 1 then Panic ''iderw: request not for disk 1''
      else if disksize s \<le> b_blockno b then Panic ''iderw: block out of range''
      else if b_dirty b then
        Ok (upd_buf i (\<lambda>b. b\<lparr>b_dirty := False, b_valid := True\<rparr>)
             (s\<lparr>disk := (disk s)(b_blockno b := b_data b),
                wlog := (b_blockno b, b_data b) # wlog s\<rparr>))
      else Ok (upd_buf i (\<lambda>b. b\<lparr>b_data := disk s (b_blockno b), b_valid := True\<rparr>) s))"

definition bread :: "int \<Rightarrow> nat \<Rightarrow> nat \<Rightarrow> bstate \<Rightarrow> (nat \<times> bstate) result" where
  "bread pid dev blockno s =
     bind_r (bget pid dev blockno s) (\<lambda>(i, s).
       if \<not> b_valid (bufs s i) then bind_r (iderw i s) (\<lambda>s. Ok (i, s)) else Ok (i, s))"

definition bwrite :: "nat \<Rightarrow> bstate \<Rightarrow> bstate result" where
  "bwrite i s =
     (if \<not> holdingsleep (b_lock (bufs s i)) then Panic ''bwrite''
      else iderw i (upd_buf i (b_dirty_update (\<lambda>_. True)) s))"

text \<open>Unlinking a buffer from its neighbours.\<close>

definition unlink_buf :: "nat \<Rightarrow> bstate \<Rightarrow> bstate" where
  "unlink_buf b s =
     (let s = set_prev (b_next (bufs s b)) (b_prev (bufs s b)) s
      in set_next (b_prev (bufs s b)) (b_next (bufs s b)) s)"

definition brelse :: "nat \<Rightarrow> bstate \<Rightarrow> bstate result" where
  "brelse i s =
     (if \<not> holdingsleep (b_lock (bufs s i)) then Panic ''brelse''
      else
        let s = upd_buf i (b_lock_update releasesleep) s;
            s = upd_buf i (b_refcnt_update (\<lambda>n. n - 1)) s
        in Ok (if b_refcnt (bufs s i) = 0 then link_front i (unlink_buf i s) else s))"

text \<open>Overwriting the data of a buffer the caller has locked.\<close>

definition set_data :: "nat \<Rightarrow> block \<Rightarrow> bstate \<Rightarrow> bstate" where
  "set_data i d = upd_buf i (b_data_update (\<lambda>_. d))"

section \<open>The list as a sequence\<close>

fun chain :: "(nat \<Rightarrow> nat) \<Rightarrow> (nat \<Rightarrow> nat) \<Rightarrow> nat \<Rightarrow> nat list \<Rightarrow> nat \<Rightarrow> bool" where
  "chain nx pv a [] z \<longleftrightarrow> nx a = z \<and> pv z = a"
| "chain nx pv a (x # xs) z \<longleftrightarrow> nx a = x \<and> pv x = a \<and> chain nx pv x xs z"

abbreviation nexts :: "bstate \<Rightarrow> nat \<Rightarrow> nat" where
  "nexts s \<equiv> \<lambda>i. b_next (bufs s i)"

abbreviation prevs :: "bstate \<Rightarrow> nat \<Rightarrow> nat" where
  "prevs s \<equiv> \<lambda>i. b_prev (bufs s i)"

text \<open>The buffers in MRU order are \<open>xs\<close>.\<close>

definition dll :: "bstate \<Rightarrow> nat list \<Rightarrow> bool" where
  "dll s xs \<longleftrightarrow> chain (nexts s) (prevs s) NBUF xs NBUF \<and> distinct xs \<and> set xs = {..<NBUF}"

lemma chain_append:
  "chain nx pv a (xs @ x # ys) z \<longleftrightarrow> chain nx pv a xs x \<and> chain nx pv x ys z"
  by (induction xs arbitrary: a) auto

lemma chain_rev: "chain nx pv a xs z \<longleftrightarrow> chain pv nx z (rev xs) a"
  by (induction xs arbitrary: a) (auto simp: chain_append)

lemma chain_frame:
  assumes "chain nx pv a xs z"
    "\<forall>i\<in>insert a (set xs). nx' i = nx i" "\<forall>i\<in>insert z (set xs). pv' i = pv i"
  shows "chain nx' pv' a xs z"
  using assms by (induction xs arbitrary: a) auto

lemma chain_ends:
  assumes "chain nx pv a xs z"
  shows "pv z \<in> insert a (set xs)" "nx a \<in> insert z (set xs)"
  using assms by (induction xs arbitrary: a) auto

lemma chain_unlink:
  assumes "chain nx pv a (us @ i # vs) z" "distinct (us @ i # vs)"
    "a \<notin> set (us @ i # vs)" "z \<notin> set (us @ i # vs)"
  shows "chain (nx(pv i := nx i)) (pv(nx i := pv i)) a (us @ vs) z"
  using assms
proof (induction us arbitrary: a)
  case Nil
  then show ?case
    by (cases vs) (auto simp: fun_upd_def elim!: chain_frame)
next
  case (Cons u us)
  then have "chain nx pv u us i" "chain nx pv i vs z" by (auto simp: chain_append)
  then have "pv i \<in> insert u (set us)" "nx i \<in> insert z (set vs)"
    by (auto dest: chain_ends)
  with Cons show ?case by auto
qed

lemma chain_link:
  assumes "chain nx pv h xs h" "i \<notin> set xs" "h \<notin> set xs" "i \<noteq> h" "distinct xs"
  shows "chain (nx(i := nx h, h := i)) (pv(i := h, nx h := i)) h (i # xs) h"
  using assms by (cases xs) (auto elim!: chain_frame)

lemma walk_next_chain:
  "chain (nexts s) pv a xs NBUF \<Longrightarrow> NBUF \<notin> set xs \<Longrightarrow> length xs \<le> k \<Longrightarrow>
    walk_next k s (nexts s a) = xs"
proof (induction xs arbitrary: a k)
  case Nil
  then show ?case by (cases k) auto
next
  case (Cons x xs)
  then obtain k' where k: "k = Suc k'" by (cases k) auto
  from Cons.prems have "walk_next k' s (nexts s x) = xs" by (intro Cons.IH) (auto simp: k)
  with Cons.prems show ?case by (auto simp: k)
qed

lemma walk_prev_chain:
  "chain (prevs s) nx a xs NBUF \<Longrightarrow> NBUF \<notin> set xs \<Longrightarrow> length xs \<le> k \<Longrightarrow>
    walk_prev k s (prevs s a) = xs"
proof (induction xs arbitrary: a k)
  case Nil
  then show ?case by (cases k) auto
next
  case (Cons x xs)
  then obtain k' where k: "k = Suc k'" by (cases k) auto
  from Cons.prems have "walk_prev k' s (prevs s x) = xs" by (intro Cons.IH) (auto simp: k)
  with Cons.prems show ?case by (auto simp: k)
qed

lemma dll_length: "dll s xs \<Longrightarrow> length xs = NBUF"
  using distinct_card [of xs] by (auto simp: dll_def)

lemma dll_walk:
  assumes "dll s xs"
  shows "walk_next NBUF s (b_next (bufs s NBUF)) = xs"
    and "walk_prev NBUF s (b_prev (bufs s NBUF)) = rev xs"
proof -
  have c: "chain (nexts s) (prevs s) NBUF xs NBUF" and n: "NBUF \<notin> set xs"
    using assms by (auto simp: dll_def)
  have l: "length xs \<le> NBUF" using dll_length [OF assms] by simp
  show "walk_next NBUF s (b_next (bufs s NBUF)) = xs"
    by (rule walk_next_chain [OF c n l])
  have "chain (prevs s) (nexts s) NBUF (rev xs) NBUF" using c by (rule iffD1 [OF chain_rev])
  from walk_prev_chain [OF this] n l show "walk_prev NBUF s (b_prev (bufs s NBUF)) = rev xs" by simp
qed

lemma bufs_upd_buf [simp]: "bufs (upd_buf i f s) j = (if j = i then f (bufs s i) else bufs s j)"
  by (simp add: upd_buf_def)

lemma upd_buf_simps [simp]:
  "disk (upd_buf i f s) = disk s" "disksize (upd_buf i f s) = disksize s"
  "wlog (upd_buf i f s) = wlog s"
  by (simp_all add: upd_buf_def)

lemma bufs_link_front:
  assumes "b \<noteq> NBUF"
  shows "bufs (link_front b s) j = (bufs s j)
    \<lparr>b_next := ((nexts s)(b := nexts s NBUF, NBUF := b)) j,
     b_prev := ((prevs s)(b := NBUF, nexts s NBUF := b)) j\<rparr>"
  using assms by (auto simp: link_front_def set_next_def set_prev_def Let_def)

lemma bufs_unlink_buf:
  "bufs (unlink_buf b s) j = (bufs s j)
    \<lparr>b_next := ((nexts s)(prevs s b := nexts s b)) j,
     b_prev := ((prevs s)(nexts s b := prevs s b)) j\<rparr>"
  by (auto simp: unlink_buf_def set_next_def set_prev_def Let_def)

lemma relink_simps [simp]:
  "disk (link_front b s) = disk s" "disksize (link_front b s) = disksize s"
  "wlog (link_front b s) = wlog s"
  "disk (unlink_buf b s) = disk s" "disksize (unlink_buf b s) = disksize s"
  "wlog (unlink_buf b s) = wlog s"
  by (simp_all add: link_front_def unlink_buf_def set_next_def set_prev_def Let_def)

lemma dll_move_to_front:
  assumes "dll s xs" "i < NBUF"
  shows "dll (link_front i (unlink_buf i s)) (i # remove1 i xs)"
proof -
  have d: "chain (nexts s) (prevs s) NBUF xs NBUF" "distinct xs" "set xs = {..<NBUF}"
    using assms(1) by (auto simp: dll_def)
  obtain us vs where xs: "xs = us @ i # vs" and "i \<notin> set us"
    using assms(2) d(3) split_list_first [of i xs] by auto
  then have r: "remove1 i xs = us @ vs" by (simp add: remove1_append)
  define s' where "s' = unlink_buf i s"
  have n: "NBUF \<notin> set xs" by (simp add: d(3))
  have upd: "nexts s' = (nexts s)(prevs s i := nexts s i)" "prevs s' = (prevs s)(nexts s i := prevs s i)"
    by (auto simp: s'_def bufs_unlink_buf)
  have 1: "chain (nexts s') (prevs s') NBUF (us @ vs) NBUF"
    unfolding upd by (rule chain_unlink) (use d(1,2) n xs in simp_all)
  have upd2: "nexts (link_front i s') = (nexts s')(i := nexts s' NBUF, NBUF := i)"
    "prevs (link_front i s') = (prevs s')(i := NBUF, nexts s' NBUF := i)"
    using assms(2) by (auto simp: bufs_link_front)
  have "chain (nexts (link_front i s')) (prevs (link_front i s')) NBUF (i # us @ vs) NBUF"
    unfolding upd2 by (rule chain_link [OF 1]) (use d(2) n xs assms(2) in simp_all)
  with d(2,3) xs show ?thesis unfolding dll_def r s'_def [symmetric] by auto
qed

section \<open>The cache invariant\<close>

definition buf_ok :: "bstate \<Rightarrow> buf \<Rightarrow> bool" where
  "buf_ok s b \<longleftrightarrow>
     length (b_data b) = BSIZE \<and>
     (b_refcnt b = 0 \<longrightarrow> \<not> sl_locked (b_lock b)) \<and>
     (b_valid b \<longrightarrow> b_dev b = 1 \<and> b_blockno b < disksize s) \<and>
     (b_dirty b \<longrightarrow> b_valid b) \<and>
     (b_valid b \<and> \<not> b_dirty b \<and> \<not> sl_locked (b_lock b) \<longrightarrow> b_data b = disk s (b_blockno b))"

definition holds :: "bstate \<Rightarrow> nat \<Rightarrow> nat \<Rightarrow> bool" where
  "holds s i b \<longleftrightarrow> b_dev (bufs s i) = 1 \<and> b_blockno (bufs s i) = b"

definition uniq :: "bstate \<Rightarrow> bool" where
  "uniq s \<longleftrightarrow> (\<forall>i<NBUF. \<forall>j<NBUF. \<forall>b. holds s i b \<longrightarrow> holds s j b \<longrightarrow> i = j)"

definition bcache_inv :: "bstate \<Rightarrow> bool" where
  "bcache_inv s \<longleftrightarrow>
     (\<exists>xs. dll s xs) \<and> uniq s \<and> (\<forall>i<NBUF. buf_ok s (bufs s i)) \<and> (\<forall>b. length (disk s b) = BSIZE)"

text \<open>
  What the cache shows of a block: an attribute of the buffer that holds it, or
  a default.  The content seen through the cache is \<open>view\<close>.
\<close>

definition lookup :: "bstate \<Rightarrow> nat \<Rightarrow> nat option" where
  "lookup s b = find (\<lambda>i. holds s i b) [0..<NBUF]"

definition battr :: "(buf \<Rightarrow> 'a) \<Rightarrow> 'a \<Rightarrow> bstate \<Rightarrow> nat \<Rightarrow> 'a" where
  "battr g d s b = (case lookup s b of None \<Rightarrow> d | Some i \<Rightarrow> g (bufs s i))"

definition view :: "bstate \<Rightarrow> nat \<Rightarrow> block" where
  "view s b = battr (\<lambda>x. if b_valid x then b_data x else disk s b) (disk s b) s b"

definition held :: "bstate \<Rightarrow> nat \<Rightarrow> bool" where
  "held s = battr (\<lambda>x. sl_locked (b_lock x)) False s"

definition dirty :: "bstate \<Rightarrow> nat \<Rightarrow> bool" where
  "dirty s = battr b_dirty False s"

definition evictable :: "bstate \<Rightarrow> bool" where
  "evictable s \<longleftrightarrow> list_ex (\<lambda>i. b_refcnt (bufs s i) = 0 \<and> \<not> b_dirty (bufs s i)) [0..<NBUF]"

lemma find_same_set:
  assumes "set xs = set ys" "\<forall>i\<in>set xs. \<forall>j\<in>set xs. P i \<longrightarrow> P j \<longrightarrow> i = j"
  shows "find P xs = find P ys"
proof (cases "find P xs")
  case None
  moreover from this assms(1) have "find P ys = None" by (simp add: find_None_iff)
  ultimately show ?thesis by simp
next
  case (Some i)
  then have i: "i \<in> set xs" "P i" by (auto simp: find_Some_iff)
  then obtain j where "find P ys = Some j" using assms(1) by (metis find_None_iff option.exhaust)
  moreover from this have "j \<in> set ys" "P j" by (auto simp: find_Some_iff)
  ultimately show ?thesis using Some assms i by auto
qed

lemma uniqD: "uniq s \<Longrightarrow> i < NBUF \<Longrightarrow> j < NBUF \<Longrightarrow> holds s i b \<Longrightarrow> holds s j b \<Longrightarrow> i = j"
  by (auto simp: uniq_def)

lemma lookup_SomeD: "lookup s b = Some i \<Longrightarrow> i < NBUF \<and> holds s i b"
  by (auto simp: lookup_def find_Some_iff)

lemma lookup_Some: "uniq s \<Longrightarrow> lookup s b = Some i \<longleftrightarrow> i < NBUF \<and> holds s i b"
proof
  assume u: "uniq s" and i: "i < NBUF \<and> holds s i b"
  then obtain j where "lookup s b = Some j"
    by (metis lookup_def find_None_iff option.exhaust atLeastLessThan_upt atLeastLessThan_iff zero_le)
  with u i show "lookup s b = Some i" using lookup_SomeD uniqD by metis
qed (rule lookup_SomeD)

lemma lookup_None: "lookup s b = None \<longleftrightarrow> (\<forall>i<NBUF. \<not> holds s i b)"
  by (auto simp: lookup_def find_None_iff)

lemma battr_held [simp]: "uniq s \<Longrightarrow> i < NBUF \<Longrightarrow> holds s i b \<Longrightarrow> battr g d s b = g (bufs s i)"
  using lookup_Some [of s b i] by (simp add: battr_def)

lemma holds_upd_other: "j \<noteq> i \<Longrightarrow> holds (upd_buf i f s) j b = holds s j b"
  by (simp add: holds_def)

lemma battr_cong:
  assumes "\<forall>i<NBUF. holds s' i b = holds s i b" "\<forall>i<NBUF. holds s i b \<longrightarrow> g' (bufs s' i) = g (bufs s i)"
  shows "battr g' d s' b = battr g d s b"
proof -
  have "lookup s' b = lookup s b"
    unfolding lookup_def by (rule find_cong) (use assms(1) in auto)
  then show ?thesis using assms(2)
    by (auto simp: battr_def split: option.split dest: lookup_SomeD)
qed

lemma battr_upd:
  assumes "uniq s" "i < NBUF" "b_dev (f (bufs s i)) = b_dev (bufs s i)"
    "b_blockno (f (bufs s i)) = b_blockno (bufs s i)"
  shows "battr g d (upd_buf i f s) b = (if holds s i b then g (f (bufs s i)) else battr g d s b)"
proof -
  have h: "holds (upd_buf i f s) j c = holds s j c" for j c using assms by (simp add: holds_def)
  then have "uniq (upd_buf i f s)" using assms(1) by (simp add: uniq_def)
  then show ?thesis
    using assms h by (auto intro!: battr_cong)
qed

lemma battr_relabel:
  assumes "uniq s" "i < NBUF" "lookup s c = None" "b_dev (f (bufs s i)) = 1"
    "b_blockno (f (bufs s i)) = c"
  shows "battr g d (upd_buf i f s) b =
    (if b = c then g (f (bufs s i)) else if holds s i b then d else battr g d s b)"
proof -
  have h: "holds (upd_buf i f s) j x = (if j = i then x = c else holds s j x)" for j x
    using assms(4,5) by (auto simp: holds_def)
  have n: "\<not> holds s j c" if "j < NBUF" for j using assms(3) that by (simp add: lookup_None)
  have u: "uniq (upd_buf i f s)" using assms(1) n by (auto simp: uniq_def h)
  show ?thesis
  proof (cases "b = c")
    case True
    then show ?thesis using battr_held [OF u assms(2), of b] by (simp add: h)
  next
    case False
    show ?thesis
    proof (cases "holds s i b")
      case True
      then have "lookup (upd_buf i f s) b = None"
        using False assms(1,2) by (auto simp: lookup_None h dest: uniqD)
      with False True show ?thesis by (simp add: battr_def)
    next
      case nh: False
      with False show ?thesis by (auto intro!: battr_cong simp: h split: if_splits)
    qed
  qed
qed

lemma dll_upd:
  assumes "b_next (f (bufs s i)) = b_next (bufs s i)" "b_prev (f (bufs s i)) = b_prev (bufs s i)"
  shows "dll (upd_buf i f s) xs = dll s xs"
proof -
  have "nexts (upd_buf i f s) = nexts s" "prevs (upd_buf i f s) = prevs s" using assms by auto
  then show ?thesis by (simp add: dll_def)
qed

lemma bcache_inv_upd:
  assumes "bcache_inv s" "i < NBUF"
    "b_next (f (bufs s i)) = b_next (bufs s i)" "b_prev (f (bufs s i)) = b_prev (bufs s i)"
    "buf_ok s (f (bufs s i))"
    "b_dev (f (bufs s i)) = b_dev (bufs s i) \<and> b_blockno (f (bufs s i)) = b_blockno (bufs s i) \<or>
     lookup s (b_blockno (f (bufs s i))) = None"
  shows "bcache_inv (upd_buf i f s)"
proof -
  have "uniq (upd_buf i f s)"
    using assms(1,2,6)
    by (auto simp: bcache_inv_def uniq_def holds_def lookup_None split: if_splits)
  then show ?thesis using assms
    by (auto simp: bcache_inv_def dll_upd buf_ok_def)
qed

lemma bcache_invD:
  assumes "bcache_inv s"
  shows "uniq s" "\<And>i. i < NBUF \<Longrightarrow> buf_ok s (bufs s i)" "length (disk s b) = BSIZE"
  using assms by (auto simp: bcache_inv_def)

lemma find_hit:
  assumes "uniq s" "dll s xs"
  shows "find (\<lambda>i. b_dev (bufs s i) = 1 \<and> b_blockno (bufs s i) = b) xs = lookup s b"
  unfolding lookup_def holds_def
  by (rule find_same_set) (use assms in \<open>auto simp: dll_def uniq_def holds_def\<close>)

text \<open>The buffer bget recycles: the least recently used one that is free and clean.\<close>

definition victim :: "bstate \<Rightarrow> nat list \<Rightarrow> nat option" where
  "victim s xs = find (\<lambda>i. b_refcnt (bufs s i) = 0 \<and> \<not> b_dirty (bufs s i)) (rev xs)"

lemma victim_exists:
  assumes "dll s xs" "evictable s"
  obtains i where "victim s xs = Some i" "i < NBUF"
proof (cases "victim s xs")
  case None
  then have "\<forall>i\<in>set xs. \<not> (b_refcnt (bufs s i) = 0 \<and> \<not> b_dirty (bufs s i))"
    by (auto simp: victim_def find_None_iff)
  with assms show ?thesis by (auto simp: evictable_def dll_def list_ex_iff)
next
  case (Some i)
  then have "i \<in> set xs" unfolding victim_def by (metis find_Some_iff nth_mem set_rev)
  with assms(1) Some show ?thesis by (intro that) (auto simp: dll_def)
qed

lemma acquiresleep_free:
  "\<not> sl_locked l \<Longrightarrow> acquiresleep pid l = Ok \<lparr>sl_locked = True, sl_pid = pid\<rparr>"
  by (cases l) (simp add: acquiresleep_def)

lemma refcnt_update_eq: "b_refcnt_update Suc x = x\<lparr>b_refcnt := Suc (b_refcnt x)\<rparr>"
  by (cases x) simp

lemma bget_hit:
  assumes "bcache_inv s" "lookup s b = Some i" "\<not> sl_locked (b_lock (bufs s i))"
  shows "bget pid 1 b s =
    Ok (i, upd_buf i (\<lambda>x. x\<lparr>b_refcnt := Suc (b_refcnt x), b_lock := \<lparr>sl_locked = True, sl_pid = pid\<rparr>\<rparr>) s)"
proof -
  obtain xs where xs: "dll s xs" using assms(1) by (auto simp: bcache_inv_def)
  show ?thesis
    unfolding bget_def dll_walk [OF xs] find_hit [OF bcache_invD(1) [OF assms(1)] xs] assms(2)
    using assms(3) by (simp add: lock_buf_def acquiresleep_free refcnt_update_eq upd_buf_def)
qed

lemma bget_miss:
  assumes "bcache_inv s" "lookup s b = None" "dll s xs" "victim s xs = Some i" "i < NBUF"
  shows "bget pid 1 b s =
    Ok (i, upd_buf i (\<lambda>x. x\<lparr>b_dev := 1, b_blockno := b, b_valid := False, b_dirty := False,
      b_refcnt := 1, b_lock := \<lparr>sl_locked = True, sl_pid = pid\<rparr>\<rparr>) s)"
proof -
  have "b_refcnt (bufs s i) = 0"
    using assms(4) unfolding victim_def find_Some_iff by blast
  then have l: "\<not> sl_locked (b_lock (bufs s i))"
    using bcache_invD(2) [OF assms(1,5)] by (simp add: buf_ok_def)
  have f: "find (\<lambda>i. b_refcnt (bufs s i) = 0 \<and> \<not> b_dirty (bufs s i)) (rev xs) = Some i"
    using assms(4) by (simp add: victim_def)
  show ?thesis
    unfolding bget_def dll_walk [OF assms(3)] find_hit [OF bcache_invD(1) [OF assms(1)] assms(3)] assms(2) f
    using l by (simp add: lock_buf_def acquiresleep_free refcnt_update_eq upd_buf_def)
qed

section \<open>The cache without waiters\<close>

text \<open>
  In a run where no thread waits for a buffer, the reference count says whether
  the buffer is locked, and the buffers that cannot be recycled are those of
  held and of dirty blocks.
\<close>

definition calm :: "bstate \<Rightarrow> bool" where
  "calm s \<longleftrightarrow> (\<forall>i<NBUF. b_refcnt (bufs s i) = (if sl_locked (b_lock (bufs s i)) then 1 else 0) \<and>
     (sl_locked (b_lock (bufs s i)) \<longrightarrow> b_valid (bufs s i)))"

definition busy :: "bstate \<Rightarrow> nat set" where
  "busy s = {b. held s b \<or> dirty s b}"

lemma calm_upd:
  assumes "calm s" "b_refcnt (f (bufs s i)) = (if sl_locked (b_lock (f (bufs s i))) then 1 else 0)"
    "sl_locked (b_lock (f (bufs s i))) \<longrightarrow> b_valid (f (bufs s i))"
  shows "calm (upd_buf i f s)"
  using assms by (simp add: calm_def)

lemma calm_cong:
  assumes "calm s" "\<And>i. b_refcnt (bufs s' i) = b_refcnt (bufs s i)"
    "\<And>i. b_lock (bufs s' i) = b_lock (bufs s i)" "\<And>i. b_valid (bufs s i) \<Longrightarrow> b_valid (bufs s' i)"
  shows "calm s'"
  using assms by (simp add: calm_def)

text \<open>A locked buffer of block \<open>b\<close> with valid contents: what bread() returns.\<close>

definition locked_buf :: "bstate \<Rightarrow> nat \<Rightarrow> nat \<Rightarrow> bool" where
  "locked_buf s i b \<longleftrightarrow> i < NBUF \<and> holds s i b \<and> b_valid (bufs s i) \<and> sl_locked (b_lock (bufs s i))"

text \<open>Nothing of the disk and of the contents of the blocks changes.\<close>

definition same_blocks :: "bstate \<Rightarrow> bstate \<Rightarrow> bool" where
  "same_blocks s s' \<longleftrightarrow> view s' = view s \<and> dirty s' = dirty s \<and> disk s' = disk s
     \<and> disksize s' = disksize s \<and> wlog s' = wlog s"

text \<open>The locked buffers other than \<open>i\<close> stay what they are.\<close>

definition others_kept :: "bstate \<Rightarrow> nat \<Rightarrow> bstate \<Rightarrow> bool" where
  "others_kept s i s' \<longleftrightarrow> (\<forall>j c. j \<noteq> i \<longrightarrow> locked_buf s j c \<longrightarrow>
     locked_buf s' j c \<and> b_data (bufs s' j) = b_data (bufs s j))"

lemma others_kept_trans:
  "others_kept s i s' \<Longrightarrow> others_kept s' i s'' \<Longrightarrow> others_kept s i s''"
  unfolding others_kept_def by metis

lemma others_kept_upd: "others_kept s i (upd_buf i f s)"
  by (simp add: others_kept_def locked_buf_def holds_def)

lemma attrs_upd:
  assumes "uniq s" "i < NBUF" "b_dev (f (bufs s i)) = b_dev (bufs s i)"
    "b_blockno (f (bufs s i)) = b_blockno (bufs s i)" "holds s i b"
  shows "view (upd_buf i f s) =
      (view s)(b := if b_valid (f (bufs s i)) then b_data (f (bufs s i)) else disk s b)" (is ?v)
    "dirty (upd_buf i f s) = (dirty s)(b := b_dirty (f (bufs s i)))" (is ?d)
    "held (upd_buf i f s) = (held s)(b := sl_locked (b_lock (f (bufs s i))))" (is ?h)
proof -
  have h: "holds s i c \<longleftrightarrow> c = b" for c using assms(5) by (auto simp: holds_def)
  note up = battr_upd [of s i f, OF assms(1-4)]
  show ?v by (rule ext) (simp add: view_def up h cong: if_cong)
  show ?d by (rule ext) (simp add: dirty_def up h)
  show ?h by (rule ext) (simp add: held_def up h)
qed

lemma attrs_at:
  assumes "uniq s" "i < NBUF" "holds s i b"
  shows "view s b = (if b_valid (bufs s i) then b_data (bufs s i) else disk s b)"
    "dirty s b = b_dirty (bufs s i)" "held s b = sl_locked (b_lock (bufs s i))"
  using assms by (simp_all add: view_def dirty_def held_def)

lemma bread_hit:
  assumes "bcache_inv s" "lookup s b = Some i" "\<not> held s b" "b < disksize s"
  shows "\<exists>s'. bread pid 1 b s = Ok (i, s') \<and> bcache_inv s' \<and> locked_buf s' i b \<and>
    b_data (bufs s' i) = view s b \<and> same_blocks s s' \<and> held s' = (held s)(b := True) \<and> (calm s \<longrightarrow> calm s') \<and> others_kept s i s' \<and> \<not> sl_locked (b_lock (bufs s i))"
proof -
  have i: "i < NBUF" "holds s i b" using lookup_SomeD [OF assms(2)] by auto
  note u = bcache_invD(1) [OF assms(1)]
  note at = attrs_at [OF u i]
  have nl: "\<not> sl_locked (b_lock (bufs s i))" using assms(3) at by simp
  define g where "g = (\<lambda>x :: buf. x\<lparr>b_refcnt := Suc (b_refcnt x), b_lock := \<lparr>sl_locked = True, sl_pid = pid\<rparr>\<rparr>)"
  define h where "h = (\<lambda>x. if b_valid x then g x else (g x)\<lparr>b_data := disk s b, b_valid := True\<rparr>)"
  define s' where "s' = upd_buf i h s"
  have blk: "b_dev (bufs s i) = 1" "b_blockno (bufs s i) = b" using i by (auto simp: holds_def)
  have ok: "buf_ok s (bufs s i)" by (rule bcache_invD(2) [OF assms(1) i(1)])
  have nd: "\<not> b_valid (bufs s i) \<Longrightarrow> \<not> b_dirty (bufs s i)" using ok by (auto simp: buf_ok_def)
  have g0: "bget pid 1 b s = Ok (i, upd_buf i g s)"
    unfolding g_def by (rule bget_hit [OF assms(1,2) nl])
  have "bread pid 1 b s = Ok (i, s')"
    unfolding bread_def g0 using assms(4) nd
    by (simp add: iderw_def holdingsleep_def s'_def h_def g_def blk Let_def upd_buf_def)
  moreover have "bcache_inv s'" unfolding s'_def
    by (rule bcache_inv_upd [OF assms(1) i(1)])
      (use ok bcache_invD(3) [OF assms(1)] assms(4) in \<open>simp_all add: h_def g_def buf_ok_def blk\<close>)
  moreover have "calm s \<longrightarrow> calm s'"
    using i(1) nl by (auto simp: s'_def calm_def h_def g_def)
  moreover have "locked_buf s' i b"
    using i blk by (simp add: locked_buf_def s'_def holds_def h_def g_def)
  moreover have "view s' = view s" "dirty s' = dirty s" "held s' = (held s)(b := True)"
    unfolding s'_def using at nd
    by (subst attrs_upd [OF u i(1) _ _ i(2)]; simp add: h_def g_def fun_upd_idem_iff)+
  moreover have "b_data (bufs s' i) = view s b"
    using at by (simp add: s'_def h_def g_def)
  moreover have "others_kept s i s'" unfolding s'_def by (rule others_kept_upd)
  ultimately show ?thesis using nl by (auto simp: same_blocks_def s'_def)
qed

lemma attrs_relabel:
  assumes "bcache_inv s" "i < NBUF" "b_refcnt (bufs s i) = 0" "\<not> b_dirty (bufs s i)" "lookup s b = None"
    "b_dev (f (bufs s i)) = 1" "b_blockno (f (bufs s i)) = b"
  shows "view (upd_buf i f s) =
      (view s)(b := if b_valid (f (bufs s i)) then b_data (f (bufs s i)) else disk s b)" (is ?v)
    "dirty (upd_buf i f s) = (dirty s)(b := b_dirty (f (bufs s i)))" (is ?d)
    "held (upd_buf i f s) = (held s)(b := sl_locked (b_lock (f (bufs s i))))" (is ?h)
proof -
  note u = bcache_invD(1) [OF assms(1)]
  note up = battr_relabel [of s i b f, OF u assms(2,5-7)]
  note at = attrs_at [OF u assms(2)]
  have ok: "buf_ok s (bufs s i)" by (rule bcache_invD(2) [OF assms(1,2)])
  have old: "view s c = disk s c \<and> \<not> dirty s c \<and> \<not> held s c" if "holds s i c" for c
    using ok assms(3,4) that at [OF that] by (auto simp: buf_ok_def holds_def)
  show ?v using old by (auto simp: fun_eq_iff view_def up cong: if_cong)
  show ?d using old by (auto simp: fun_eq_iff dirty_def up)
  show ?h using old by (auto simp: fun_eq_iff held_def up)
qed

lemma bread_miss:
  assumes "bcache_inv s" "lookup s b = None" "evictable s" "b < disksize s"
  shows "\<exists>i s'. bread pid 1 b s = Ok (i, s') \<and> bcache_inv s' \<and> locked_buf s' i b \<and>
    b_data (bufs s' i) = view s b \<and> same_blocks s s' \<and> held s' = (held s)(b := True) \<and> (calm s \<longrightarrow> calm s') \<and> others_kept s i s' \<and> \<not> sl_locked (b_lock (bufs s i))"
proof -
  obtain xs where xs: "dll s xs" using assms(1) by (auto simp: bcache_inv_def)
  obtain i where v: "victim s xs = Some i" and i: "i < NBUF" using victim_exists [OF xs assms(3)] .
  have free: "b_refcnt (bufs s i) = 0" "\<not> b_dirty (bufs s i)"
    using v unfolding victim_def find_Some_iff by blast+
  define g where "g = (\<lambda>x :: buf. x\<lparr>b_dev := 1, b_blockno := b, b_valid := False, b_dirty := False,
      b_refcnt := 1, b_lock := \<lparr>sl_locked = True, sl_pid = pid\<rparr>\<rparr>)"
  define h where "h = (\<lambda>x. (g x)\<lparr>b_data := disk s b, b_valid := True\<rparr>)"
  define s' where "s' = upd_buf i h s"
  have g0: "bget pid 1 b s = Ok (i, upd_buf i g s)"
    unfolding g_def by (rule bget_miss [OF assms(1,2) xs v i])
  have "bread pid 1 b s = Ok (i, s')"
    unfolding bread_def g0 using assms(4)
    by (simp add: iderw_def holdingsleep_def s'_def h_def g_def Let_def upd_buf_def)
  moreover have "bcache_inv s'" unfolding s'_def
    by (rule bcache_inv_upd [OF assms(1) i])
      (use assms(2) bcache_invD(3) [OF assms(1)] assms(4) in \<open>simp_all add: h_def g_def buf_ok_def\<close>)
  moreover have "calm s \<longrightarrow> calm s'"
    by (auto simp: s'_def calm_def h_def g_def)
  moreover have "locked_buf s' i b"
    using i by (simp add: locked_buf_def s'_def holds_def h_def g_def)
  moreover have at: "view s b = disk s b" "\<not> dirty s b" "\<not> held s b"
    using assms(2) by (simp_all add: view_def dirty_def held_def battr_def)
  moreover have "view s' = view s" "dirty s' = dirty s" "held s' = (held s)(b := True)"
    unfolding s'_def using at
    by (subst attrs_relabel [OF assms(1) i free assms(2)]; simp add: h_def g_def fun_upd_idem_iff)+
  moreover have "b_data (bufs s' i) = view s b"
    using at by (simp add: s'_def h_def)
  moreover have "others_kept s i s'" unfolding s'_def by (rule others_kept_upd)
  moreover have "\<not> sl_locked (b_lock (bufs s i))"
    using free(1) bcache_invD(2) [OF assms(1) i] by (simp add: buf_ok_def)
  ultimately show ?thesis by (auto simp: same_blocks_def s'_def)
qed

lemma not_held_lookup: "lookup s b = None \<Longrightarrow> \<not> held s b"
  by (simp add: held_def battr_def)

lemma bread_ok:
  assumes "bcache_inv s" "b < disksize s" "\<not> held s b" "lookup s b \<noteq> None \<or> evictable s"
  obtains i s' where "bread pid 1 b s = Ok (i, s')" "bcache_inv s'" "locked_buf s' i b"
    "b_data (bufs s' i) = view s b" "same_blocks s s'" "held s' = (held s)(b := True)"
    "calm s \<longrightarrow> calm s'" "others_kept s i s'" "\<not> sl_locked (b_lock (bufs s i))"
  using bread_hit [of s b _ pid] bread_miss [of s b pid] assms by (cases "lookup s b") blast+

lemma battr_disk [simp]: "battr g d (s\<lparr>disk := x, wlog := y\<rparr>) b = battr g d s b"
  by (simp add: battr_def lookup_def holds_def split: option.split)

lemma locked_bufD:
  assumes "locked_buf s i b"
  shows "i < NBUF" "holds s i b" "b_valid (bufs s i)" "sl_locked (b_lock (bufs s i))"
    "b_dev (bufs s i) = 1" "b_blockno (bufs s i) = b"
  using assms by (auto simp: locked_buf_def holds_def)

lemma bcache_inv_disk:
  assumes "bcache_inv s" "locked_buf s i b" "length d = BSIZE"
  shows "bcache_inv (s\<lparr>disk := (disk s)(b := d), wlog := w\<rparr>)"
proof -
  note l = locked_bufD [OF assms(2)]
  have "buf_ok (s\<lparr>disk := (disk s)(b := d), wlog := w\<rparr>) (bufs s j)" if "j < NBUF" for j
  proof (cases "j = i")
    case True
    then show ?thesis using bcache_invD(2) [OF assms(1) l(1)] l by (simp add: buf_ok_def)
  next
    case False
    then have "\<not> holds s j b" using uniqD [OF bcache_invD(1) [OF assms(1)] that l(1)] l(2) by blast
    then show ?thesis using bcache_invD(2) [OF assms(1) that] by (auto simp: buf_ok_def holds_def)
  qed
  then show ?thesis using assms(1,3)
    by (auto simp: bcache_inv_def dll_def uniq_def holds_def)
qed

lemma bwrite_ok:
  assumes "bcache_inv s" "locked_buf s i b"
  shows "\<exists>s'. bwrite i s = Ok s' \<and> bcache_inv s' \<and> locked_buf s' i b \<and> view s' = view s \<and>
    b_data (bufs s' i) = b_data (bufs s i) \<and>
    held s' = held s \<and> dirty s' = (dirty s)(b := False) \<and>
    disk s' = (disk s)(b := b_data (bufs s i)) \<and> disksize s' = disksize s \<and>
    wlog s' = (b, b_data (bufs s i)) # wlog s \<and> (calm s \<longrightarrow> calm s') \<and> others_kept s i s'"
proof -
  note l = locked_bufD [OF assms(2)]
  have ok: "buf_ok s (bufs s i)" by (rule bcache_invD(2) [OF assms(1) l(1)])
  define s1 where "s1 = s\<lparr>disk := (disk s)(b := b_data (bufs s i)), wlog := (b, b_data (bufs s i)) # wlog s\<rparr>"
  have inv1: "bcache_inv s1"
    unfolding s1_def by (rule bcache_inv_disk [OF assms]) (use ok in \<open>simp add: buf_ok_def\<close>)
  have b1 [simp]: "bufs s1 = bufs s" and h1: "holds s1 i b" using l by (simp_all add: s1_def holds_def)
  have d1 [simp]: "disksize s1 = disksize s" by (simp add: s1_def)
  have a1: "dirty s1 = dirty s" "held s1 = held s" by (auto simp: s1_def dirty_def held_def)
  have v1: "view s1 c = (if c = b then b_data (bufs s i) else view s c)" for c
    using attrs_at(1) [OF bcache_invD(1) [OF inv1] l(1) h1] l(3)
    by (simp add: view_def s1_def cong: if_cong)
  have vb: "view s b = b_data (bufs s i)"
    using attrs_at(1) [OF bcache_invD(1) [OF assms(1)] l(1,2)] l(3) by simp
  define s' where "s' = upd_buf i (\<lambda>x. x\<lparr>b_dirty := False, b_valid := True\<rparr>) s1"
  have "bwrite i s = Ok s'"
    using l ok by (simp add: bwrite_def iderw_def holdingsleep_def s'_def s1_def Let_def buf_ok_def upd_buf_def)
  moreover have "bcache_inv s'" unfolding s'_def
    by (rule bcache_inv_upd [OF inv1 l(1)]) (use ok l in \<open>simp_all add: buf_ok_def\<close>)
  moreover have "calm s \<longrightarrow> calm s'" by (auto simp: s'_def calm_def)
  moreover have "locked_buf s' i b" using l by (simp add: locked_buf_def s'_def holds_def)
  moreover have "view s' = view s" "held s' = held s" "dirty s' = (dirty s)(b := False)"
    using l v1 vb attrs_at(3) [OF bcache_invD(1) [OF assms(1)] l(1,2)]
    by (auto simp: s'_def attrs_upd [OF bcache_invD(1) [OF inv1] l(1) _ _ h1] a1 fun_eq_iff)
  moreover have "others_kept s i s'" by (simp add: others_kept_def locked_buf_def holds_def s'_def)
  ultimately show ?thesis using l by (auto simp: s'_def s1_def)
qed

lemma set_data_ok:
  assumes "bcache_inv s" "locked_buf s i b" "length d = BSIZE"
  shows "bcache_inv (set_data i d s)" "locked_buf (set_data i d s) i b"
    "b_data (bufs (set_data i d s) i) = d" "view (set_data i d s) = (view s)(b := d)"
    "held (set_data i d s) = held s" "dirty (set_data i d s) = dirty s"
    "disk (set_data i d s) = disk s" "disksize (set_data i d s) = disksize s"
    "wlog (set_data i d s) = wlog s" "calm s \<Longrightarrow> calm (set_data i d s)"
    "others_kept s i (set_data i d s)"
proof -
  note l = locked_bufD [OF assms(2)]
  note u = bcache_invD(1) [OF assms(1)]
  have ok: "buf_ok s (bufs s i)" by (rule bcache_invD(2) [OF assms(1) l(1)])
  show "bcache_inv (set_data i d s)" unfolding set_data_def
    by (rule bcache_inv_upd [OF assms(1) l(1)]) (use ok l assms(3) in \<open>simp_all add: buf_ok_def\<close>)
  show "view (set_data i d s) = (view s)(b := d)" "held (set_data i d s) = held s"
    "dirty (set_data i d s) = dirty s"
    using l attrs_at [OF u l(1,2)]
    by (auto simp: set_data_def attrs_upd [OF u l(1) _ _ l(2)] fun_upd_idem_iff)
qed (use locked_bufD [OF assms(2)] in \<open>simp_all add: set_data_def locked_buf_def holds_def calm_def others_kept_upd\<close>)

lemma relink_ok:
  assumes "bcache_inv s" "i < NBUF" and s': "s' = link_front i (unlink_buf i s)"
  shows "bcache_inv s'" "view s' = view s" "held s' = held s" "dirty s' = dirty s"
    "calm s \<Longrightarrow> calm s'" "\<And>k. others_kept s k s'"
proof -
  have h: "holds s' j b = holds s j b" for j b
    using assms(2) by (simp add: s' holds_def bufs_link_front bufs_unlink_buf)
  obtain xs where "dll s xs" using assms(1) by (auto simp: bcache_inv_def)
  then have "dll s' (i # remove1 i xs)" unfolding s' by (rule dll_move_to_front [OF _ assms(2)])
  moreover have "buf_ok s' (bufs s' j)" if "j < NBUF" for j
    using bcache_invD(2) [OF assms(1) that] assms(2)
    by (simp add: s' buf_ok_def bufs_link_front bufs_unlink_buf)
  ultimately show "bcache_inv s'" using assms(1) by (auto simp: bcache_inv_def uniq_def h) (simp add: s')
  have d: "disk s' = disk s" by (simp add: s')
  have f: "b_valid (bufs s' j) = b_valid (bufs s j)" "b_data (bufs s' j) = b_data (bufs s j)"
    "b_lock (bufs s' j) = b_lock (bufs s j)" "b_dirty (bufs s' j) = b_dirty (bufs s j)" for j
    using assms(2) by (simp_all add: s' bufs_link_front bufs_unlink_buf)
  show "others_kept s k s'" for k by (simp add: others_kept_def locked_buf_def h f)
  show "calm s'" if "calm s"
    by (rule calm_cong [OF that]) (use assms(2) in \<open>simp_all add: f, simp_all add: s' bufs_link_front bufs_unlink_buf\<close>)
  show "view s' = view s" "held s' = held s" "dirty s' = dirty s"
    unfolding fun_eq_iff view_def held_def dirty_def d
    by (intro allI battr_cong; simp add: h f)+
qed

lemma brelse_ok:
  assumes "bcache_inv s" "locked_buf s i b" "dirty s b \<or> view s b = disk s b"
  shows "\<exists>s'. brelse i s = Ok s' \<and> bcache_inv s' \<and> same_blocks s s' \<and> held s' = (held s)(b := False)
    \<and> (calm s \<longrightarrow> calm s') \<and> others_kept s i s'"
proof -
  note l = locked_bufD [OF assms(2)]
  note u = bcache_invD(1) [OF assms(1)]
  note at = attrs_at [OF u l(1,2)]
  have ok: "buf_ok s (bufs s i)" by (rule bcache_invD(2) [OF assms(1) l(1)])
  define f where "f = (\<lambda>x :: buf. x\<lparr>b_lock := releasesleep (b_lock x), b_refcnt := b_refcnt x - 1\<rparr>)"
  define s1 where "s1 = upd_buf i f s"
  have s1: "upd_buf i (b_refcnt_update (\<lambda>n. n - 1)) (upd_buf i (b_lock_update releasesleep) s) = s1"
    by (cases "bufs s i") (simp add: s1_def f_def upd_buf_def)
  have inv1: "bcache_inv s1" unfolding s1_def
    by (rule bcache_inv_upd [OF assms(1) l(1)])
      (use ok l at assms(3) in \<open>auto simp: f_def buf_ok_def releasesleep_def\<close>)
  have a1: "view s1 = view s" "dirty s1 = dirty s" "held s1 = (held s)(b := False)"
    unfolding s1_def using at l
    by (subst attrs_upd [OF u l(1) _ _ l(2)]; simp add: f_def releasesleep_def fun_upd_idem_iff)+
  have eqs: "disk s1 = disk s" "disksize s1 = disksize s" "wlog s1 = wlog s"
    by (simp_all add: s1_def)
  have c1: "calm s \<longrightarrow> calm s1"
    using l(1,4) by (auto simp: calm_def s1_def f_def releasesleep_def)
  have r: "brelse i s =
      Ok (if b_refcnt (bufs s1 i) = 0 then link_front i (unlink_buf i s1) else s1)"
    unfolding brelse_def Let_def s1 using l(4) by (simp add: holdingsleep_def)
  have "others_kept s i s1" unfolding s1_def by (rule others_kept_upd)
  then show ?thesis unfolding r using inv1 a1 eqs c1 relink_ok [OF inv1 l(1) refl]
    by (auto simp: same_blocks_def intro: others_kept_trans)
qed

lemma chain_binit_loop:
  assumes "chain (nexts s) (prevs s) NBUF xs NBUF" "distinct (bs @ xs)" "NBUF \<notin> set (bs @ xs)"
  shows "chain (nexts (binit_loop bs s)) (prevs (binit_loop bs s)) NBUF (rev bs @ xs) NBUF"
  using assms
proof (induction bs arbitrary: s xs)
  case (Cons b bs)
  define s1 where "s1 = upd_buf b (b_lock_update (\<lambda>_. initsleeplock)) s"
  have e: "nexts s1 = nexts s" "prevs s1 = prevs s" by (auto simp: s1_def)
  have b: "b \<noteq> NBUF" using Cons.prems by auto
  have e2: "nexts (link_front b s1) = (nexts s)(b := nexts s NBUF, NBUF := b)"
    "prevs (link_front b s1) = (prevs s)(b := NBUF, nexts s NBUF := b)"
    using bufs_link_front [OF b, of s1] by (auto simp: e [unfolded fun_eq_iff])
  have "chain (nexts (link_front b s1)) (prevs (link_front b s1)) NBUF (b # xs) NBUF"
    unfolding e2 by (rule chain_link) (use Cons.prems in auto)
  from Cons.IH [OF this] Cons.prems show ?case by (simp add: s1_def)
qed simp

lemma binit_loop_frame:
  assumes "NBUF \<notin> set bs"
  shows "\<exists>n p. bufs (binit_loop bs s) j = (bufs s j)\<lparr>b_next := n, b_prev := p,
      b_lock := if j \<in> set bs then initsleeplock else b_lock (bufs s j)\<rparr>"
  using assms
proof (induction bs arbitrary: s)
  case Nil
  show ?case by (intro exI [of _ "b_next (bufs s j)"] exI [of _ "b_prev (bufs s j)"]) simp
next
  case (Cons b bs)
  then have b: "b \<noteq> NBUF" by auto
  define s1 where "s1 = link_front b (upd_buf b (b_lock_update (\<lambda>_. initsleeplock)) s)"
  obtain n p where "bufs (binit_loop bs s1) j = (bufs s1 j)\<lparr>b_next := n, b_prev := p,
      b_lock := if j \<in> set bs then initsleeplock else b_lock (bufs s1 j)\<rparr>"
    using Cons.IH [of s1] Cons.prems by auto
  then have "bufs (binit_loop (b # bs) s) j = (bufs s j)\<lparr>b_next := n, b_prev := p,
      b_lock := if j \<in> set (b # bs) then initsleeplock else b_lock (bufs s j)\<rparr>"
    by (simp add: s1_def bufs_link_front [OF b])
  then show ?case by blast
qed

lemma binit_loop_disk [simp]:
  "disk (binit_loop bs s) = disk s" "disksize (binit_loop bs s) = disksize s"
  "wlog (binit_loop bs s) = wlog s"
  by (induction bs arbitrary: s) auto

text \<open>The kernel's zero-initialised \<open>bcache\<close> over a disk.\<close>

definition zero_buf :: buf where
  "zero_buf = \<lparr>b_valid = False, b_dirty = False, b_dev = 0, b_blockno = 0,
     b_lock = \<lparr>sl_locked = False, sl_pid = 0\<rparr>, b_refcnt = 0, b_prev = 0, b_next = 0,
     b_data = replicate BSIZE 0\<rparr>"

definition boot_bcache :: "(nat \<Rightarrow> block) \<Rightarrow> nat \<Rightarrow> bstate" where
  "boot_bcache d n = \<lparr>bufs = (\<lambda>_. zero_buf), disk = d, disksize = n, wlog = []\<rparr>"

lemma binit_bufs:
  assumes "i < NBUF"
  shows "\<exists>n p. bufs (binit s) i = (bufs s i)\<lparr>b_next := n, b_prev := p, b_lock := initsleeplock\<rparr>"
proof -
  define s1 where "s1 = set_next NBUF NBUF (set_prev NBUF NBUF s)"
  have "bufs s1 i = bufs s i" using assms by (simp add: s1_def set_next_def set_prev_def)
  with binit_loop_frame [of "[0..<NBUF]" s1 i] assms show ?thesis
    by (simp add: binit_def Let_def s1_def)
qed

lemma binit_disk [simp]:
  "disk (binit s) = disk s" "disksize (binit s) = disksize s" "wlog (binit s) = wlog s"
  by (simp_all add: binit_def Let_def set_next_def set_prev_def)

lemma binit_dll: "dll (binit s) (rev [0..<NBUF])"
proof -
  define s1 where "s1 = set_next NBUF NBUF (set_prev NBUF NBUF s)"
  have "chain (nexts s1) (prevs s1) NBUF [] NBUF" by (simp add: s1_def set_next_def set_prev_def)
  from chain_binit_loop [OF this, of "[0..<NBUF]"] show ?thesis
    by (auto simp: dll_def binit_def Let_def s1_def)
qed

lemma boot_bufs:
  assumes "i < NBUF"
  shows "\<not> b_valid (bufs (binit (boot_bcache d n)) i)" "\<not> b_dirty (bufs (binit (boot_bcache d n)) i)"
    "b_dev (bufs (binit (boot_bcache d n)) i) = 0" "b_refcnt (bufs (binit (boot_bcache d n)) i) = 0"
    "\<not> sl_locked (b_lock (bufs (binit (boot_bcache d n)) i))"
    "length (b_data (bufs (binit (boot_bcache d n)) i)) = BSIZE"
  using binit_bufs [OF assms, of "boot_bcache d n"]
  by (auto simp: boot_bcache_def zero_buf_def initsleeplock_def)

lemma boot_lookup: "lookup (binit (boot_bcache d n)) b = None"
  by (simp add: lookup_None holds_def boot_bufs)

lemma boot_inv:
  assumes "\<forall>b. length (d b) = BSIZE"
  shows "bcache_inv (binit (boot_bcache d n))"
proof -
  have "dll (binit (boot_bcache d n)) (rev [0..<NBUF])" by (rule binit_dll)
  moreover have "disk (binit (boot_bcache d n)) = d" by (simp add: boot_bcache_def)
  ultimately show ?thesis using assms
    by (auto simp: bcache_inv_def uniq_def holds_def buf_ok_def boot_bufs)
qed

lemma boot_evictable: "evictable (binit (boot_bcache d n))"
proof -
  have "0 < NBUF" by (simp add: NBUF_eq)
  then show ?thesis unfolding evictable_def list_ex_iff
    by (intro bexI [of _ 0]) (simp_all add: boot_bufs)
qed

lemma boot_attrs: "view (binit (boot_bcache d n)) = d" "held (binit (boot_bcache d n)) = (\<lambda>_. False)"
    "dirty (binit (boot_bcache d n)) = (\<lambda>_. False)"
  by (auto simp: fun_eq_iff view_def held_def dirty_def battr_def boot_lookup) (simp add: boot_bcache_def)

lemma finite_busy: "finite (busy s)"
proof (rule finite_subset)
  show "busy s \<subseteq> (\<lambda>i. b_blockno (bufs s i)) ` {..<NBUF}"
    by (auto simp: busy_def held_def dirty_def battr_def holds_def
      split: option.splits dest!: lookup_SomeD)
qed simp

lemma calm_evictable:
  assumes "bcache_inv s" "calm s" "card (busy s) < NBUF"
  shows "evictable s"
proof (rule ccontr)
  assume "\<not> evictable s"
  then have n: "b_refcnt (bufs s i) \<noteq> 0 \<or> b_dirty (bufs s i)" if "i < NBUF" for i
    using that by (auto simp: evictable_def list_ex_iff)
  let ?b = "\<lambda>i. b_blockno (bufs s i)"
  have h: "holds s i (?b i) \<and> ?b i \<in> busy s" if i: "i < NBUF" for i
  proof -
    have "b_valid (bufs s i)" "sl_locked (b_lock (bufs s i)) \<or> b_dirty (bufs s i)"
      using n [OF i] assms(2) bcache_invD(2) [OF assms(1) i] i
      by (auto simp: calm_def buf_ok_def split: if_splits)
    moreover from this have "holds s i (?b i)"
      using bcache_invD(2) [OF assms(1) i] by (simp add: holds_def buf_ok_def)
    ultimately show ?thesis
      using attrs_at [OF bcache_invD(1) [OF assms(1)] i] by (auto simp: busy_def)
  qed
  have "inj_on ?b {..<NBUF}"
    using h uniqD [OF bcache_invD(1) [OF assms(1)]] by (auto simp: inj_on_def) metis
  moreover have "?b ` {..<NBUF} \<subseteq> busy s" using h by auto
  ultimately have "NBUF \<le> card (busy s)"
    using card_inj_on_le [OF _ _ finite_busy] by fastforce
  then show False using assms(3) by simp
qed

lemma busy_cached: "b \<in> busy s \<Longrightarrow> lookup s b \<noteq> None"
  by (auto simp: busy_def held_def dirty_def battr_def split: option.splits)

lemma clean_view:
  assumes "bcache_inv s" "\<not> held s b" "\<not> dirty s b"
  shows "view s b = disk s b"
proof (cases "lookup s b")
  case (Some i)
  then have i: "i < NBUF" "holds s i b" by (auto dest: lookup_SomeD)
  then show ?thesis
    using attrs_at [OF bcache_invD(1) [OF assms(1)] i] bcache_invD(2) [OF assms(1) i(1)] assms(2,3)
    by (auto simp: buf_ok_def holds_def)
qed (simp add: view_def battr_def)

lemma bread_calm:
  assumes "bcache_inv s" "calm s" "b < disksize s" "\<not> held s b" "b \<in> busy s \<or> card (busy s) < NBUF"
  obtains i s' where "bread pid 1 b s = Ok (i, s')" "bcache_inv s'" "calm s'" "locked_buf s' i b"
    "b_data (bufs s' i) = view s b" "same_blocks s s'" "held s' = (held s)(b := True)"
    "busy s' = insert b (busy s)" "others_kept s i s'" "\<not> sl_locked (b_lock (bufs s i))"
proof -
  have "lookup s b \<noteq> None \<or> evictable s"
    using assms(5) busy_cached calm_evictable [OF assms(1,2)] by auto
  from bread_ok [OF assms(1,3,4) this, of pid] obtain i s' where
    *: "bread pid 1 b s = Ok (i, s')" "bcache_inv s'" "locked_buf s' i b"
    "b_data (bufs s' i) = view s b" "same_blocks s s'" "held s' = (held s)(b := True)"
    "calm s \<longrightarrow> calm s'" "others_kept s i s'" "\<not> sl_locked (b_lock (bufs s i))" .
  show ?thesis
  proof (rule that [OF *(1,2) _ *(3-6) _ *(8,9)])
    show "calm s'" using *(7) assms(2) by simp
    show "busy s' = insert b (busy s)" using *(5,6) by (auto simp: busy_def same_blocks_def)
  qed
qed

section \<open>Properties\<close>

text \<open>
  C9: Write-through of a block.  In a cache that satisfies its invariant, with
  the block not held and either cached or some free clean buffer, the sequence
  bread(), overwriting the data, bwrite(), brelse() runs without panic; the disk
  block and the content seen through the cache become the new data, all other
  blocks keep theirs, the invariant holds again and the set of held blocks is
  as before; bread() returned the content the cache showed.
\<close>

theorem bwrite_persists:
  assumes "bcache_inv s" "b < disksize s" "\<not> held s b" "lookup s b \<noteq> None \<or> evictable s"
    "length d = BSIZE"
  shows "\<exists>i s1 s2 s3. bread pid 1 b s = Ok (i, s1) \<and> b_data (bufs s1 i) = view s b \<and>
    bwrite i (set_data i d s1) = Ok s2 \<and> brelse i s2 = Ok s3 \<and>
    disk s3 = (disk s)(b := d) \<and> view s3 = (view s)(b := d) \<and> held s3 = held s \<and>
    dirty s3 = (dirty s)(b := False) \<and> wlog s3 = (b, d) # wlog s \<and> bcache_inv s3"
proof -
  obtain i s1 where 1: "bread pid 1 b s = Ok (i, s1)" "bcache_inv s1" "locked_buf s1 i b"
    "b_data (bufs s1 i) = view s b" "same_blocks s s1" "held s1 = (held s)(b := True)"
    using bread_ok [OF assms(1-4)] by metis
  note sd = set_data_ok [OF 1(2,3) assms(5)]
  obtain s2 where 2: "bwrite i (set_data i d s1) = Ok s2" "bcache_inv s2" "locked_buf s2 i b"
    "view s2 = view (set_data i d s1)" "held s2 = held (set_data i d s1)"
    "dirty s2 = (dirty (set_data i d s1))(b := False)"
    "disk s2 = (disk s1)(b := d)" "wlog s2 = (b, d) # wlog s1"
    using bwrite_ok [OF sd(1,2)] sd by auto
  have "dirty s2 b \<or> view s2 b = disk s2 b" using 2 sd by simp
  from brelse_ok [OF 2(2,3) this] obtain s3 where 3: "brelse i s2 = Ok s3" "bcache_inv s3"
    "same_blocks s2 s3" "held s3 = (held s2)(b := False)" by auto
  show ?thesis
    using 1 2 3 sd assms(3) by (intro exI [of _ i] exI [of _ s1] exI [of _ s2] exI [of _ s3])
      (auto simp: same_blocks_def fun_eq_iff)
qed

theorem bwrite_persists_witness:
  "\<exists>i s1 s2 s3. bread 7 1 3 (binit (boot_bcache (\<lambda>_. replicate BSIZE 0) 5)) = Ok (i, s1) \<and>
    bwrite i (set_data i (replicate BSIZE 9) s1) = Ok s2 \<and> brelse i s2 = Ok s3 \<and>
    disk s3 3 = replicate BSIZE 9"
proof -
  let ?s = "binit (boot_bcache (\<lambda>_. replicate BSIZE 0) 5)"
  have "bcache_inv ?s" by (rule boot_inv) simp
  moreover have "3 < disksize ?s" by (simp add: boot_bcache_def)
  moreover have "\<not> held ?s 3" by (simp add: boot_attrs)
  ultimately show ?thesis
    using bwrite_persists [of ?s 3 "replicate BSIZE 9" 7] boot_evictable by fastforce
qed

text \<open>
  C10: The pointer-level list implements a most-recently-used-first sequence.
  When the list through \<open>next\<close>/\<open>prev\<close> represents \<open>xs\<close>, releasing the last
  reference of a buffer makes it represent that buffer followed by the rest in
  their order (any other release leaves \<open>xs\<close>); and a bget() that misses
  recycles the last buffer of \<open>xs\<close> that is free and clean, or panics when
  there is none.
\<close>

theorem lru_list_refines:
  assumes "bcache_inv s" "dll s xs" "i < NBUF" "sl_locked (b_lock (bufs s i))"
    "lookup s b = None"
  shows "(\<exists>s'. brelse i s = Ok s' \<and> dll s' (if b_refcnt (bufs s i) = 1 then i # remove1 i xs else xs)) \<and>
    (case find (\<lambda>j. b_refcnt (bufs s j) = 0 \<and> \<not> b_dirty (bufs s j)) (rev xs) of
       None \<Rightarrow> bget pid 1 b s = Panic ''bget: no buffers''
     | Some j \<Rightarrow> \<exists>s'. bget pid 1 b s = Ok (j, s') \<and> dll s' xs \<and> holds s' j b)"
proof
  have r: "b_refcnt (bufs s i) \<noteq> 0"
    using bcache_invD(2) [OF assms(1,3)] assms(4) by (auto simp: buf_ok_def)
  define s1 where "s1 = upd_buf i (b_refcnt_update (\<lambda>n. n - 1)) (upd_buf i (b_lock_update releasesleep) s)"
  have d1: "dll s1 xs" using assms(2) by (simp add: s1_def dll_upd)
  have "brelse i s = Ok (if b_refcnt (bufs s1 i) = 0 then link_front i (unlink_buf i s1) else s1)"
    unfolding brelse_def Let_def s1_def [symmetric] using assms(4) by (simp add: holdingsleep_def)
  moreover have "b_refcnt (bufs s1 i) = 0 \<longleftrightarrow> b_refcnt (bufs s i) = 1"
    using r by (auto simp: s1_def)
  ultimately show "\<exists>s'. brelse i s = Ok s' \<and> dll s' (if b_refcnt (bufs s i) = 1 then i # remove1 i xs else xs)"
    using d1 dll_move_to_front [OF d1 assms(3)] by auto
next
  show "case find (\<lambda>j. b_refcnt (bufs s j) = 0 \<and> \<not> b_dirty (bufs s j)) (rev xs) of
       None \<Rightarrow> bget pid 1 b s = Panic ''bget: no buffers''
     | Some j \<Rightarrow> \<exists>s'. bget pid 1 b s = Ok (j, s') \<and> dll s' xs \<and> holds s' j b"
  proof (cases "victim s xs")
    case None
    then have "find (\<lambda>j. b_refcnt (bufs s j) = 0 \<and> \<not> b_dirty (bufs s j)) (rev xs) = None"
      by (simp add: victim_def)
    then show ?thesis
      unfolding bget_def dll_walk [OF assms(2)] find_hit [OF bcache_invD(1) [OF assms(1)] assms(2)] assms(5)
      by simp
  next
    case (Some j)
    then have "j \<in> set xs" unfolding victim_def by (metis find_Some_iff nth_mem set_rev)
    then have j: "j < NBUF" using assms(2) by (auto simp: dll_def)
    from bget_miss [OF assms(1,5,2) Some j, of pid] Some assms(2) show ?thesis
      by (auto simp: victim_def dll_upd holds_def)
  qed
qed

theorem lru_list_refines_witness:
  "\<exists>s s'. brelse 4 s = Ok s' \<and> dll s (rev [0..<NBUF]) \<and> dll s' (4 # remove1 4 (rev [0..<NBUF]))"
proof -
  define s0 where "s0 = binit (boot_bcache (\<lambda>_. replicate BSIZE 0) 5)"
  define f where "f = (\<lambda>x :: buf. x\<lparr>b_refcnt := 1, b_lock := \<lparr>sl_locked = True, sl_pid = 7\<rparr>\<rparr>)"
  have 4: "(4 :: nat) < NBUF" by (simp add: NBUF_eq)
  have i0: "bcache_inv s0" unfolding s0_def by (rule boot_inv) simp
  have inv: "bcache_inv (upd_buf 4 f s0)"
    by (rule bcache_inv_upd [OF i0 4])
      (use bcache_invD(2) [OF i0 4] boot_bufs [OF 4] in \<open>simp_all add: f_def buf_ok_def s0_def\<close>)
  have d: "dll (upd_buf 4 f s0) (rev [0..<NBUF])" by (simp add: dll_upd f_def s0_def binit_dll)
  have l: "lookup (upd_buf 4 f s0) 2 = None"
    using boot_lookup [of "\<lambda>_. replicate BSIZE 0" 5 2]
    by (simp add: s0_def lookup_None holds_def f_def)
  have "sl_locked (b_lock (bufs (upd_buf 4 f s0) 4))" by (simp add: f_def)
  from lru_list_refines [OF inv d 4 this l] have "\<exists>s'. brelse 4 (upd_buf 4 f s0) = Ok s' \<and>
      dll s' (4 # remove1 4 (rev [0..<NBUF]))" by (simp add: f_def)
  with d show ?thesis by blast
qed

end
