(* ===== verification/Log.thy ===== *)
theory Log
  imports Bio
begin

text \<open>
  src/log.c, the redo log, over the buffer cache.

  \<open>lh_n\<close> and \<open>lh_block\<close> are the in-memory header; the on-disk header is the
  first log block, whose bytes are read and written as the C code does: the
  count and the first \<open>n\<close> entries, the rest of the block left as it was.
  Waiting in begin_op() is the value \<open>Blocks\<close>.  Reading a header with more
  entries than \<open>log.lh.block\<close> has would overrun the array; this is \<open>Panic\<close>.

  The lemmas give the exact sequence of disk writes of a commit and of a
  recovery; the properties quantify over the point at which that sequence stops.
\<close>

section \<open>Model\<close>

record logstate =
  l_start :: nat
  l_size :: nat
  l_outstanding :: int
  l_committing :: bool
  l_dev :: nat
  lh_n :: int
  lh_block :: "nat list"

definition install_block :: "int \<Rightarrow> logstate \<Rightarrow> nat \<Rightarrow> bstate \<Rightarrow> bstate result" where
  "install_block pid lg tail s =
     bind_r (bread pid (l_dev lg) (l_start lg + tail + 1) s) (\<lambda>(lbuf, s).
     bind_r (bread pid (l_dev lg) (lh_block lg ! tail) s) (\<lambda>(dbuf, s).
     bind_r (bwrite dbuf (set_data dbuf (b_data (bufs s lbuf)) s)) (\<lambda>s.
     bind_r (brelse lbuf s) (\<lambda>s. brelse dbuf s))))"

definition install_trans :: "int \<Rightarrow> logstate \<Rightarrow> bstate \<Rightarrow> bstate result" where
  "install_trans pid lg s = fold_r (install_block pid lg) [0..<nat (lh_n lg)] s"

definition head_n :: "block \<Rightarrow> int" where
  "head_n d = sint (dec32 (slot 4 0 d))"

definition head_block :: "block \<Rightarrow> nat \<Rightarrow> nat" where
  "head_block d i = unat (dec32 (slot 4 (Suc i) d))"

definition read_head :: "int \<Rightarrow> logstate \<Rightarrow> bstate \<Rightarrow> (logstate \<times> bstate) result" where
  "read_head pid lg s =
     bind_r (bread pid (l_dev lg) (l_start lg) s) (\<lambda>(buf, s).
       let d = b_data (bufs s buf); n = head_n d in
       if int LOGSIZE < n then Panic ''read_head: overrun''
       else
         let lg = lg\<lparr>lh_n := n,
               lh_block := map (head_block d) [0..<nat n] @ drop (nat n) (lh_block lg)\<rparr>
         in bind_r (brelse buf s) (\<lambda>s. Ok (lg, s)))"

definition store_head :: "int \<Rightarrow> nat list \<Rightarrow> block \<Rightarrow> block" where
  "store_head n bs d =
     splice 0 (enc_array enc32 (word_of_int n # map word_of_nat (take (nat n) bs))) d"

definition write_head :: "int \<Rightarrow> logstate \<Rightarrow> bstate \<Rightarrow> bstate result" where
  "write_head pid lg s =
     bind_r (bread pid (l_dev lg) (l_start lg) s) (\<lambda>(buf, s).
     bind_r (bwrite buf (set_data buf (store_head (lh_n lg) (lh_block lg) (b_data (bufs s buf))) s))
       (brelse buf))"

definition recover_from_log :: "int \<Rightarrow> logstate \<Rightarrow> bstate \<Rightarrow> (logstate \<times> bstate) result" where
  "recover_from_log pid lg s =
     bind_r (read_head pid lg s) (\<lambda>(lg, s).
     bind_r (install_trans pid lg s) (\<lambda>s.
       let lg = lg\<lparr>lh_n := 0\<rparr> in
       bind_r (write_head pid lg s) (\<lambda>s. Ok (lg, s))))"

text \<open>readsb() of src/fs.c: the super block is block 1.\<close>

definition readsb :: "int \<Rightarrow> nat \<Rightarrow> bstate \<Rightarrow> (superblock \<times> bstate) result" where
  "readsb pid dev s =
     bind_r (bread pid dev 1 s) (\<lambda>(bp, s).
       let sb = dec_superblock (take 28 (b_data (bufs s bp)))
       in bind_r (brelse bp s) (\<lambda>s. Ok (sb, s)))"

definition initlog :: "int \<Rightarrow> nat \<Rightarrow> logstate \<Rightarrow> bstate \<Rightarrow> (logstate \<times> bstate) result" where
  "initlog pid dev lg s =
     (if BSIZE \<le> 4 * (LOGSIZE + 1) then Panic ''initlog: too big logheader''
      else bind_r (readsb pid dev s) (\<lambda>(sb, s).
        recover_from_log pid
          (lg\<lparr>l_start := unat (sb_logstart sb), l_size := unat (sb_nlog sb), l_dev := dev\<rparr>) s))"

definition begin_op :: "logstate \<Rightarrow> logstate result" where
  "begin_op lg =
     (if l_committing lg then Blocks ''log''
      else if int LOGSIZE < lh_n lg + (l_outstanding lg + 1) * int MAXOPBLOCKS then Blocks ''log''
      else Ok (lg\<lparr>l_outstanding := l_outstanding lg + 1\<rparr>))"

definition write_block :: "int \<Rightarrow> logstate \<Rightarrow> nat \<Rightarrow> bstate \<Rightarrow> bstate result" where
  "write_block pid lg tail s =
     bind_r (bread pid (l_dev lg) (l_start lg + tail + 1) s) (\<lambda>(to, s).
     bind_r (bread pid (l_dev lg) (lh_block lg ! tail) s) (\<lambda>(from, s).
     bind_r (bwrite to (set_data to (b_data (bufs s from)) s)) (\<lambda>s.
     bind_r (brelse from s) (\<lambda>s. brelse to s))))"

definition write_log :: "int \<Rightarrow> logstate \<Rightarrow> bstate \<Rightarrow> bstate result" where
  "write_log pid lg s = fold_r (write_block pid lg) [0..<nat (lh_n lg)] s"

definition commit :: "int \<Rightarrow> logstate \<Rightarrow> bstate \<Rightarrow> (logstate \<times> bstate) result" where
  "commit pid lg s =
     (if 0 < lh_n lg then
        bind_r (write_log pid lg s) (\<lambda>s.
        bind_r (write_head pid lg s) (\<lambda>s.
        bind_r (install_trans pid lg s) (\<lambda>s.
          let lg = lg\<lparr>lh_n := 0\<rparr> in
          bind_r (write_head pid lg s) (\<lambda>s. Ok (lg, s)))))
      else Ok (lg, s))"

definition end_op :: "int \<Rightarrow> logstate \<Rightarrow> bstate \<Rightarrow> (logstate \<times> bstate) result" where
  "end_op pid lg s =
     (let lg = lg\<lparr>l_outstanding := l_outstanding lg - 1\<rparr> in
      if l_committing lg then Panic ''log.committing''
      else if l_outstanding lg = 0 then
        bind_r (commit pid (lg\<lparr>l_committing := True\<rparr>) s)
          (\<lambda>(lg, s). Ok (lg\<lparr>l_committing := False\<rparr>, s))
      else Ok (lg, s))"

fun log_index :: "nat list \<Rightarrow> nat \<Rightarrow> nat" where
  "log_index [] b = 0"
| "log_index (x # xs) b = (if x = b then 0 else Suc (log_index xs b))"

definition log_write :: "nat \<Rightarrow> logstate \<Rightarrow> bstate \<Rightarrow> (logstate \<times> bstate) result" where
  "log_write bp lg s =
     (if int LOGSIZE \<le> lh_n lg \<or> int (l_size lg) - 1 \<le> lh_n lg then Panic ''too big a transaction''
      else if l_outstanding lg < 1 then Panic ''log_write outside of trans''
      else
        let blk = b_blockno (bufs s bp);
            i = log_index (take (nat (lh_n lg)) (lh_block lg)) blk;
            lg = lg\<lparr>lh_block := (lh_block lg)[i := blk]\<rparr>;
            lg = (if int i = lh_n lg then lg\<lparr>lh_n := lh_n lg + 1\<rparr> else lg)
        in Ok (lg, upd_buf bp (b_dirty_update (\<lambda>_. True)) s))"

section \<open>Block copies\<close>

text \<open>No buffer is held and the cache is in order.\<close>

definition idle :: "bstate \<Rightarrow> bool" where
  "idle s \<longleftrightarrow> bcache_inv s \<and> calm s \<and> held s = (\<lambda>_. False)"

text \<open>\<open>s'\<close> is \<open>s\<close> after writing \<open>x\<close> to block \<open>b\<close> and to the disk.\<close>

definition wrote :: "bstate \<Rightarrow> nat \<Rightarrow> block \<Rightarrow> bstate \<Rightarrow> bool" where
  "wrote s b x s' \<longleftrightarrow> idle s' \<and> view s' = (view s)(b := x) \<and> dirty s' = (dirty s)(b := False)
     \<and> disk s' = (disk s)(b := x) \<and> wlog s' = (b, x) # wlog s \<and> disksize s' = disksize s"

lemma length_view: "bcache_inv s \<Longrightarrow> length (view s b) = BSIZE"
  using bcache_invD(2) bcache_invD(3)
  by (fastforce simp: view_def battr_def buf_ok_def split: option.split dest: lookup_SomeD)

lemma finish_copy:
  assumes "bcache_inv s" "calm s" "locked_buf s i a" "locked_buf s j b" "a \<noteq> b"
    "held s = (\<lambda>c. c = a \<or> c = b)" "dirty s a \<or> view s a = disk s a"
  shows "\<exists>s'. bind_r (bwrite j (set_data j (b_data (bufs s i)) s))
      (\<lambda>s. bind_r (brelse i s) (\<lambda>s. brelse j s)) = Ok s' \<and> wrote s b (view s a) s'"
proof -
  note li = locked_bufD [OF assms(3)]
  have ij: "i \<noteq> j" using locked_bufD [OF assms(4)] li assms(5) by auto
  have va: "view s a = b_data (bufs s i)"
    using attrs_at(1) [OF bcache_invD(1) [OF assms(1)] li(1,2)] li(3) by simp
  have la: "length (view s a) = BSIZE" by (rule length_view [OF assms(1)])
  note sd = set_data_ok [OF assms(1,4) la]
  let ?s1 = "set_data j (view s a) s"
  obtain s2 where 2: "bwrite j ?s1 = Ok s2" "bcache_inv s2" "calm s2" "locked_buf s2 j b"
    "view s2 = view ?s1" "held s2 = held ?s1" "dirty s2 = (dirty ?s1)(b := False)"
    "disk s2 = (disk ?s1)(b := view s a)" "disksize s2 = disksize ?s1"
    "wlog s2 = (b, view s a) # wlog ?s1" "others_kept ?s1 j s2"
    using bwrite_ok [OF sd(1,2)] sd(3,10) assms(2) by auto
  have l2: "locked_buf s2 i a"
    using assms(3) ij others_kept_trans [OF sd(11) 2(11)] by (auto simp: others_kept_def)
  have "dirty s2 a \<or> view s2 a = disk s2 a" using assms(5,7) 2 sd by simp
  from brelse_ok [OF 2(2) l2 this] 2(3) obtain s3 where 3: "brelse i s2 = Ok s3" "bcache_inv s3"
    "same_blocks s2 s3" "held s3 = (held s2)(a := False)" "calm s3" "others_kept s2 i s3" by auto
  have l3: "locked_buf s3 j b" using 3(6) 2(4) ij by (auto simp: others_kept_def)
  have "dirty s3 b \<or> view s3 b = disk s3 b" using 3(3) 2 sd by (simp add: same_blocks_def)
  from brelse_ok [OF 3(2) l3 this] 3(5) obtain s4 where 4: "brelse j s3 = Ok s4" "bcache_inv s4"
    "same_blocks s3 s4" "held s4 = (held s3)(b := False)" "calm s4" by auto
  have "held s4 = (\<lambda>_. False)" using 4(4) 3(4) 2(6) sd(5) assms(6) by (simp add: fun_eq_iff)
  moreover have "same_blocks s2 s4" using 3(3) 4(3) by (simp add: same_blocks_def)
  ultimately have "wrote s b (view s a) s4"
    using 4(2,5) 2 sd by (simp add: wrote_def idle_def same_blocks_def)
  with 2(1) 3(1) 4(1) va show ?thesis by auto
qed

lemma idle_busy: "idle s \<Longrightarrow> busy s = {b. dirty s b}"
  by (simp add: idle_def busy_def)

lemma two_breads:
  assumes "idle s" "a < disksize s" "b < disksize s" "a \<noteq> b"
    "card {b. dirty s b} < NBUF" "dirty s b \<or> card {b. dirty s b} + 1 < NBUF"
  obtains i j s1 s2 where "bread pid 1 a s = Ok (i, s1)" "bread pid 1 b s1 = Ok (j, s2)"
    "bcache_inv s2" "calm s2" "locked_buf s2 i a" "locked_buf s2 j b"
    "held s2 = (\<lambda>c. c = a \<or> c = b)" "same_blocks s s2"
proof -
  have s: "bcache_inv s" "calm s" "\<not> held s a" "held s = (\<lambda>_. False)" "busy s = {b. dirty s b}"
    using assms(1) idle_busy by (auto simp: idle_def)
  then have "a \<in> busy s \<or> card (busy s) < NBUF" using assms(5) by simp
  from bread_calm [OF s(1,2) assms(2) s(3) this, of pid] obtain i s1 where
    1: "bread pid 1 a s = Ok (i, s1)" "bcache_inv s1" "calm s1" "locked_buf s1 i a"
    "b_data (bufs s1 i) = view s a" "same_blocks s s1" "held s1 = (held s)(a := True)"
    "busy s1 = insert a (busy s)" "others_kept s i s1" "\<not> sl_locked (b_lock (bufs s i))" .
  have "card (busy s1) \<le> card {b. dirty s b} + 1"
    unfolding 1(8) s(5) by (simp add: card_insert_if card_insert_le_m1 finite_busy [of s, unfolded s(5)])
  then have room: "b \<in> busy s1 \<or> card (busy s1) < NBUF" using assms(6) 1(8) s(5) by auto
  have b: "b < disksize s1" "\<not> held s1 b"
    using assms(3,4) 1(6,7) s(4) by (auto simp: same_blocks_def)
  obtain j s2 where
    2: "bread pid 1 b s1 = Ok (j, s2)" "bcache_inv s2" "calm s2" "locked_buf s2 j b"
    "b_data (bufs s2 j) = view s1 b" "same_blocks s1 s2" "held s2 = (held s1)(b := True)"
    "busy s2 = insert b (busy s1)" "others_kept s1 j s2" "\<not> sl_locked (b_lock (bufs s1 j))"
    by (rule bread_calm [OF 1(2,3) b room, of pid])
  have "i \<noteq> j" using 2(10) locked_bufD(4) [OF 1(4)] by auto
  then have "locked_buf s2 i a" using 2(9) 1(4) by (auto simp: others_kept_def)
  moreover have "held s2 = (\<lambda>c. c = a \<or> c = b)" unfolding 2(7) 1(7) s(4) by (rule ext) simp
  moreover have "same_blocks s s2" using 1(6) 2(6) by (simp add: same_blocks_def)
  ultimately show ?thesis using that [OF 1(1) 2(1-3) _ 2(4)] by blast
qed

lemma install_block_ok:
  assumes "idle s" "l_dev lg = 1" "a = l_start lg + tail + 1" "b = lh_block lg ! tail" "a \<noteq> b"
    "a < disksize s" "b < disksize s" "\<not> dirty s a"
    "card {b. dirty s b} < NBUF" "dirty s b \<or> card {b. dirty s b} + 1 < NBUF"
  shows "\<exists>s'. install_block pid lg tail s = Ok s' \<and> wrote s b (disk s a) s'"
proof -
  obtain i j s1 s2 where 1: "bread pid 1 a s = Ok (i, s1)" "bread pid 1 b s1 = Ok (j, s2)"
    "bcache_inv s2" "calm s2" "locked_buf s2 i a" "locked_buf s2 j b"
    "held s2 = (\<lambda>c. c = a \<or> c = b)" "same_blocks s s2"
    by (rule two_breads [OF assms(1,6,7,5,9,10)])
  have v: "view s a = disk s a" using assms(1,8) by (intro clean_view) (auto simp: idle_def)
  then have "dirty s2 a \<or> view s2 a = disk s2 a" using 1(8) by (simp add: same_blocks_def)
  from finish_copy [OF 1(3-6) assms(5) 1(7) this] obtain s' where
    2: "bind_r (bwrite j (set_data j (b_data (bufs s2 i)) s2))
      (\<lambda>s. bind_r (brelse i s) (\<lambda>s. brelse j s)) = Ok s'" "wrote s2 b (view s2 a) s'" by blast
  have "install_block pid lg tail s = Ok s'"
    unfolding install_block_def assms(2) assms(3) [symmetric] assms(4) [symmetric] 1(1)
    using 1(2) 2(1) by simp
  moreover have "wrote s b (disk s a) s'" using 2(2) 1(8) v by (simp add: wrote_def same_blocks_def)
  ultimately show ?thesis by blast
qed

lemma write_block_ok:
  assumes "idle s" "l_dev lg = 1" "b = l_start lg + tail + 1" "a = lh_block lg ! tail" "a \<noteq> b"
    "a < disksize s" "b < disksize s" "dirty s a" "card {b. dirty s b} < NBUF"
  shows "\<exists>s'. write_block pid lg tail s = Ok s' \<and> wrote s b (view s a) s'"
proof -
  have "b \<noteq> a" using assms(5) by simp
  from two_breads [OF assms(1,7,6) this assms(9) disjI1 [OF assms(8)], of pid] obtain j i s1 s2 where
    1: "bread pid 1 b s = Ok (j, s1)" "bread pid 1 a s1 = Ok (i, s2)"
    "bcache_inv s2" "calm s2" "locked_buf s2 j b" "locked_buf s2 i a"
    "held s2 = (\<lambda>c. c = b \<or> c = a)" "same_blocks s s2" .
  have "dirty s2 a \<or> view s2 a = disk s2 a" using 1(8) assms(8) by (simp add: same_blocks_def)
  moreover have "held s2 = (\<lambda>c. c = a \<or> c = b)" using 1(7) by auto
  ultimately obtain s' where
    2: "bind_r (bwrite j (set_data j (b_data (bufs s2 i)) s2))
      (\<lambda>s. bind_r (brelse i s) (\<lambda>s. brelse j s)) = Ok s'" "wrote s2 b (view s2 a) s'"
    using finish_copy [OF 1(3,4,6,5) assms(5)] by blast
  have "write_block pid lg tail s = Ok s'"
    unfolding write_block_def assms(2) assms(3) [symmetric] assms(4) [symmetric] 1(1)
    using 1(2) 2(1) by simp
  moreover have "wrote s b (view s a) s'" using 2(2) 1(8) by (simp add: wrote_def same_blocks_def)
  ultimately show ?thesis by blast
qed

lemma idle_bread:
  assumes "idle s" "a < disksize s" "card {b. dirty s b} < NBUF"
  obtains i s1 where "bread pid 1 a s = Ok (i, s1)" "bcache_inv s1" "calm s1" "locked_buf s1 i a"
    "b_data (bufs s1 i) = view s a" "same_blocks s s1" "held s1 = (\<lambda>c. c = a)"
proof -
  have s: "bcache_inv s" "calm s" "\<not> held s a" "held s = (\<lambda>_. False)" "a \<in> busy s \<or> card (busy s) < NBUF"
    using assms(1,3) idle_busy by (auto simp: idle_def)
  obtain i s1 where
    1: "bread pid 1 a s = Ok (i, s1)" "bcache_inv s1" "calm s1" "locked_buf s1 i a"
    "b_data (bufs s1 i) = view s a" "same_blocks s s1" "held s1 = (held s)(a := True)"
    "busy s1 = insert a (busy s)" "others_kept s i s1" "\<not> sl_locked (b_lock (bufs s i))"
    by (rule bread_calm [OF s(1,2) assms(2) s(3,5), of pid])
  show ?thesis using that [OF 1(1-6)] 1(7) s(4) by (auto simp: fun_eq_iff)
qed

lemma idle_brelse:
  assumes "bcache_inv s" "calm s" "locked_buf s i a" "held s = (\<lambda>c. c = a)" "dirty s a \<or> view s a = disk s a"
  obtains s' where "brelse i s = Ok s'" "idle s'" "same_blocks s s'"
  using brelse_ok [OF assms(1,3,5)] assms(2,4) by (auto simp: idle_def fun_eq_iff)

lemma rewrite_block_ok:
  assumes "idle s" "a < disksize s" "card {b. dirty s b} < NBUF" "\<And>x. length x = BSIZE \<Longrightarrow> length (f x) = BSIZE"
  shows "\<exists>s'. bind_r (bread pid 1 a s) (\<lambda>(i, s). bind_r (bwrite i (set_data i (f (b_data (bufs s i))) s)) (brelse i))
      = Ok s' \<and> wrote s a (f (view s a)) s'"
proof -
  obtain i s1 where 1: "bread pid 1 a s = Ok (i, s1)" "bcache_inv s1" "calm s1" "locked_buf s1 i a"
    "b_data (bufs s1 i) = view s a" "same_blocks s s1" "held s1 = (\<lambda>c. c = a)"
    by (rule idle_bread [OF assms(1-3)])
  let ?x = "f (view s a)"
  have "length ?x = BSIZE" using assms(1,4) length_view by (auto simp: idle_def)
  note sd = set_data_ok [OF 1(2,4) this]
  obtain s2 where 2: "bwrite i (set_data i ?x s1) = Ok s2" "bcache_inv s2" "calm s2" "locked_buf s2 i a"
    "view s2 = (view s1)(a := ?x)" "held s2 = held s1" "dirty s2 = (dirty s1)(a := False)"
    "disk s2 = (disk s1)(a := ?x)" "disksize s2 = disksize s1" "wlog s2 = (a, ?x) # wlog s1"
    using bwrite_ok [OF sd(1,2)] sd(3-10) 1(3) by auto
  have "dirty s2 a \<or> view s2 a = disk s2 a" using 2 by simp
  moreover have "held s2 = (\<lambda>c. c = a)" using 2(6) 1(7) by simp
  ultimately obtain s3 where 3: "brelse i s2 = Ok s3" "idle s3" "same_blocks s2 s3"
    using idle_brelse [OF 2(2-4)] by blast
  have "wrote s a ?x s3" using 1(6) 2 3(2,3) by (simp add: wrote_def same_blocks_def)
  then show ?thesis using 1(1,5) 2(1) 3(1) by simp
qed

section \<open>Traces of disk writes\<close>

definition apply_writes :: "(nat \<times> block) list \<Rightarrow> (nat \<Rightarrow> block) \<Rightarrow> (nat \<Rightarrow> block)" where
  "apply_writes ws d = fold (\<lambda>(b, x) d. d(b := x)) ws d"

definition wrotes :: "bstate \<Rightarrow> (nat \<times> block) list \<Rightarrow> bstate \<Rightarrow> bool" where
  "wrotes s ws s' \<longleftrightarrow> idle s' \<and> view s' = apply_writes ws (view s)
     \<and> dirty s' = (\<lambda>b. dirty s b \<and> b \<notin> fst ` set ws)
     \<and> disk s' = apply_writes ws (disk s) \<and> wlog s' = rev ws @ wlog s \<and> disksize s' = disksize s"

lemma apply_writes_simps [simp]:
  "apply_writes [] d = d" "apply_writes ((b, x) # ws) d = apply_writes ws (d(b := x))"
  "apply_writes (ws @ ws') d = apply_writes ws' (apply_writes ws d)"
  by (simp_all add: apply_writes_def)

lemma apply_writes_other: "b \<notin> fst ` set ws \<Longrightarrow> apply_writes ws d b = d b"
  by (induction ws arbitrary: d) (auto simp: apply_writes_def)

lemma apply_writes_written: "b \<in> fst ` set ws \<Longrightarrow> apply_writes ws d b = apply_writes ws d' b"
proof (induction ws arbitrary: d d')
  case (Cons w ws)
  obtain c x where w: "w = (c, x)" by force
  show ?case
  proof (cases "b \<in> fst ` set ws")
    case True
    then show ?thesis unfolding w apply_writes_simps by (rule Cons.IH)
  next
    case False
    then show ?thesis using Cons.prems by (simp add: w apply_writes_other)
  qed
qed simp

text \<open>Replaying a trace over a prefix of it is the trace.\<close>

lemma apply_writes_replay: "apply_writes ws (apply_writes (take k ws) d) = apply_writes ws d"
proof
  fix b
  show "apply_writes ws (apply_writes (take k ws) d) b = apply_writes ws d b"
  proof (cases "b \<in> fst ` set ws")
    case True
    then show ?thesis by (rule apply_writes_written)
  next
    case False
    moreover from this have "b \<notin> fst ` set (take k ws)" using set_take_subset [of k ws] by auto
    ultimately show ?thesis by (simp add: apply_writes_other)
  qed
qed

lemma apply_writes_map:
  assumes "distinct (map f xs)" "x \<in> set xs"
  shows "apply_writes (map (\<lambda>x. (f x, g x)) xs) d (f x) = g x"
  using assms
proof (induction xs arbitrary: d)
  case (Cons y xs)
  show ?case
  proof (cases "x = y")
    case True
    have "f y \<notin> fst ` set (map (\<lambda>x. (f x, g x)) xs)" using Cons.prems by auto
    with True show ?thesis by (simp add: apply_writes_other)
  next
    case False
    then show ?thesis using Cons by auto
  qed
qed simp

lemma wrotes_nil: "idle s \<Longrightarrow> wrotes s [] s"
  by (simp add: wrotes_def)

lemma wrotes_trans: "wrotes s ws s1 \<Longrightarrow> wrotes s1 ws' s2 \<Longrightarrow> wrotes s (ws @ ws') s2"
  by (auto simp: wrotes_def)

lemma wrote_wrotes: "wrote s b x s' \<Longrightarrow> wrotes s [(b, x)] s'"
  by (auto simp: wrote_def wrotes_def fun_eq_iff)

lemma wrotesD:
  assumes "wrotes s ws s'"
  shows "idle s'" "disksize s' = disksize s" "disk s' = apply_writes ws (disk s)"
    "view s' = apply_writes ws (view s)" "dirty s' = (\<lambda>b. dirty s b \<and> b \<notin> fst ` set ws)"
  using assms by (auto simp: wrotes_def)

section \<open>Well-formed logs\<close>

text \<open>Block numbers outside the log region, where files live.\<close>

definition home :: "logstate \<Rightarrow> nat \<Rightarrow> nat \<Rightarrow> bool" where
  "home lg dsz b \<longleftrightarrow> b < dsz \<and> (b < l_start lg \<or> l_start lg + l_size lg \<le> b)"

definition log_shape :: "logstate \<Rightarrow> nat \<Rightarrow> bool" where
  "log_shape lg dsz \<longleftrightarrow> l_dev lg = 1 \<and> l_start lg + l_size lg \<le> dsz \<and> 0 < l_size lg \<and> dsz \<le> 2 ^ 32
     \<and> length (lh_block lg) = LOGSIZE"

text \<open>The header names \<open>n\<close> home blocks, and the log has room for them.\<close>

definition entries_ok :: "logstate \<Rightarrow> nat \<Rightarrow> nat \<Rightarrow> (nat \<Rightarrow> nat) \<Rightarrow> bool" where
  "entries_ok lg dsz n bs \<longleftrightarrow> n \<le> LOGSIZE \<and> n < l_size lg \<and> (\<forall>i<n. home lg dsz (bs i))"

lemma fold_r_upt_Suc: "fold_r f [0..<Suc k] s = bind_r (fold_r f [0..<k] s) (f k)"
proof -
  have "fold_r f [k] s' = f k s'" for s' by (cases "f k s'") simp_all
  then have "fold_r f [k] = f k" by (rule ext)
  then show ?thesis by (simp add: fold_r_append)
qed

lemma write_log_ok:
  assumes "idle s" "log_shape lg (disksize s)" "entries_ok lg (disksize s) n (nth (lh_block lg))"
    "n = nat (lh_n lg)" "\<forall>i<n. dirty s (lh_block lg ! i)" "card {b. dirty s b} < NBUF"
    "\<forall>b. dirty s b \<longrightarrow> home lg (disksize s) b"
  shows "\<exists>s'. write_log pid lg s = Ok s' \<and>
    wrotes s (map (\<lambda>i. (l_start lg + i + 1, view s (lh_block lg ! i))) [0..<n]) s'"
proof -
  have "\<exists>s'. fold_r (write_block pid lg) [0..<k] s = Ok s' \<and>
    wrotes s (map (\<lambda>i. (l_start lg + i + 1, view s (lh_block lg ! i))) [0..<k]) s'" if "k \<le> n" for k
    using that
  proof (induction k)
    case 0
    then show ?case using assms(1) wrotes_nil by simp
  next
    case (Suc k)
    let ?b = "lh_block lg ! k" and ?to = "l_start lg + k + 1"
    let ?ws = "map (\<lambda>i. (l_start lg + i + 1, view s (lh_block lg ! i))) [0..<k]"
    from Suc obtain s1 where 1: "fold_r (write_block pid lg) [0..<k] s = Ok s1" "wrotes s ?ws s1"
      by auto
    note w = wrotesD [OF 1(2)]
    have k: "k < n" "k + 1 < l_size lg" using Suc.prems assms(3) by (auto simp: entries_ok_def)
    have hb: "home lg (disksize s) ?b" using assms(3) k by (simp add: entries_ok_def)
    have to: "?to < disksize s" "\<not> home lg (disksize s) ?to"
      using k assms(2) by (auto simp: log_shape_def home_def)
    have logs: "fst ` set ?ws \<subseteq> {c. \<not> home lg (disksize s) c}"
      using k by (auto simp: home_def)
    have d1: "dirty s1 = dirty s" using w(5) logs assms(7) by (auto simp: fun_eq_iff)
    have v1: "view s1 ?b = view s ?b"
      unfolding w(4) by (rule apply_writes_other) (use logs hb in blast)
    have "\<exists>s2. write_block pid lg k s1 = Ok s2 \<and> wrote s1 ?to (view s1 ?b) s2"
      by (rule write_block_ok [OF w(1) _ refl refl])
        (use assms(2,5,6) hb to k d1 w(2) in \<open>auto simp: log_shape_def home_def\<close>)
    then obtain s2 where 2: "write_block pid lg k s1 = Ok s2" "wrote s1 ?to (view s1 ?b) s2" by blast
    from wrotes_trans [OF 1(2) wrote_wrotes [OF 2(2)]] 1(1) 2(1) v1 show ?case
      by (simp add: fold_r_upt_Suc del: upt_Suc) simp
  qed
  from this [of n] show ?thesis by (simp add: write_log_def assms(4))
qed

lemma install_trans_ok:
  assumes "idle s" "log_shape lg (disksize s)" "entries_ok lg (disksize s) n (nth (lh_block lg))"
    "n = nat (lh_n lg)" "card {b. dirty s b} < NBUF" "\<forall>b. dirty s b \<longrightarrow> home lg (disksize s) b"
    "dirty s = (\<lambda>_. False) \<or> (distinct (take n (lh_block lg)) \<and> (\<forall>i<n. dirty s (lh_block lg ! i)))"
  shows "\<exists>s'. install_trans pid lg s = Ok s' \<and>
    wrotes s (map (\<lambda>i. (lh_block lg ! i, disk s (l_start lg + i + 1))) [0..<n]) s'"
proof -
  have len: "n \<le> length (lh_block lg)" using assms(2,3) by (simp add: log_shape_def entries_ok_def)
  have "\<exists>s'. fold_r (install_block pid lg) [0..<k] s = Ok s' \<and>
    wrotes s (map (\<lambda>i. (lh_block lg ! i, disk s (l_start lg + i + 1))) [0..<k]) s'" if "k \<le> n" for k
    using that
  proof (induction k)
    case 0
    then show ?case using assms(1) wrotes_nil by simp
  next
    case (Suc k)
    let ?b = "lh_block lg ! k" and ?lb = "l_start lg + k + 1"
    let ?ws = "map (\<lambda>i. (lh_block lg ! i, disk s (l_start lg + i + 1))) [0..<k]"
    from Suc obtain s1 where 1: "fold_r (install_block pid lg) [0..<k] s = Ok s1" "wrotes s ?ws s1"
      by auto
    note w = wrotesD [OF 1(2)]
    have k: "k < n" "k + 1 < l_size lg" using Suc.prems assms(3) by (auto simp: entries_ok_def)
    have hb: "home lg (disksize s) ?b" using assms(3) k by (simp add: entries_ok_def)
    have lb: "?lb < disksize s" "\<not> home lg (disksize s) ?lb"
      using k assms(2) by (auto simp: log_shape_def home_def)
    have homes: "fst ` set ?ws \<subseteq> {c. home lg (disksize s) c}"
      using k assms(3) by (auto simp: entries_ok_def)
    have v1: "disk s1 ?lb = disk s ?lb"
      unfolding w(3) by (rule apply_writes_other) (use homes lb in blast)
    have "card {b. dirty s1 b} \<le> card {b. dirty s b}"
      using finite_busy [of s] assms(1) w(5) by (intro card_mono) (auto simp: idle_busy)
    moreover have "dirty s1 ?b \<or> card {b. dirty s1 b} = 0"
    proof (cases "dirty s = (\<lambda>_. False)")
      case False
      then have "distinct (take n (lh_block lg))" "dirty s ?b" using assms(7) k by auto
      moreover have "?b \<notin> fst ` set ?ws"
        using calculation(1) k len by (auto simp: distinct_conv_nth)
      ultimately show ?thesis by (simp add: w(5))
    qed (simp add: w(5))
    ultimately have c: "card {b. dirty s1 b} < NBUF" "dirty s1 ?b \<or> card {b. dirty s1 b} + 1 < NBUF"
      using assms(5) by (auto simp: NBUF_eq)
    have nd: "\<not> dirty s1 ?lb" using assms(6) lb(2) w(5) by auto
    have "\<exists>s2. install_block pid lg k s1 = Ok s2 \<and> wrote s1 ?b (disk s1 ?lb) s2"
      by (rule install_block_ok [OF w(1) _ refl refl _ _ _ nd c])
        (use assms(2) hb lb w(2) in \<open>auto simp: log_shape_def home_def\<close>)
    then obtain s2 where 2: "install_block pid lg k s1 = Ok s2" "wrote s1 ?b (disk s1 ?lb) s2" by blast
    from wrotes_trans [OF 1(2) wrote_wrotes [OF 2(2)]] 1(1) 2(1) v1 show ?case
      by (simp add: fold_r_upt_Suc del: upt_Suc) simp
  qed
  from this [of n] show ?thesis by (simp add: install_trans_def assms(4))
qed

lemma slot_splice_array:
  assumes "i < length ws" "4 * length ws \<le> length d"
  shows "slot 4 i (splice 0 (enc_array enc32 ws) d) = enc32 (ws ! i)"
proof -
  have len: "length (enc_array enc32 ws) = 4 * length ws"
    by (simp add: c32.array_enc_width list_all_iff)
  have "slot 4 i (splice 0 (enc_array enc32 ws) d) = slot 4 i (enc_array enc32 ws)"
    unfolding splice_def using assms len by (simp add: slot_append_left)
  moreover have "dec32 (slot 4 i (enc_array enc32 ws)) = ws ! i"
    using arg_cong [OF c32.array_dec_enc [of ws], of "\<lambda>xs. xs ! i"] assms(1)
    by (simp add: dec_array_def list_all_iff)
  moreover have "length (slot 4 i (enc_array enc32 ws)) = 4" using assms len by (simp add: slot_def)
  ultimately show ?thesis using enc32_dec32 by metis
qed

lemma length_store_head:
  assumes "length d = BSIZE" "0 \<le> n" "nat n \<le> LOGSIZE"
  shows "length (store_head n bs d) = BSIZE"
  unfolding store_head_def
  by (subst length_splice) (use assms in \<open>auto simp: c32.array_enc_width list_all_iff fs_consts\<close>)

lemma head_store_head:
  assumes "length d = BSIZE" "0 \<le> n" "nat n \<le> LOGSIZE" "nat n \<le> length bs"
  shows "head_n (store_head n bs d) = n"
    "i < nat n \<Longrightarrow> bs ! i < 2 ^ 32 \<Longrightarrow> head_block (store_head n bs d) i = bs ! i"
proof -
  let ?ws = "word_of_int n # map word_of_nat (take (nat n) bs)"
  have len: "4 * length ?ws \<le> length d" using assms by (simp add: fs_consts)
  show "head_n (store_head n bs d) = n"
    unfolding head_n_def store_head_def using slot_splice_array [OF _ len, of 0] assms
    by (simp add: dec32_enc32 signed_of_int signed_take_bit_int_eq_self fs_consts)
  assume i: "i < nat n" "bs ! i < 2 ^ 32"
  then have "slot 4 (Suc i) (store_head n bs d) = enc32 (word_of_nat (bs ! i))"
    unfolding store_head_def using slot_splice_array [OF _ len, of "Suc i"] assms by simp
  then show "head_block (store_head n bs d) i = bs ! i"
    using i by (simp add: head_block_def dec32_enc32 unat_of_nat)
qed

section \<open>Commit and recovery as traces\<close>

lemma write_head_ok:
  assumes "idle s" "log_shape lg (disksize s)" "0 \<le> lh_n lg" "nat (lh_n lg) \<le> LOGSIZE"
    "card {b. dirty s b} < NBUF" "\<not> dirty s (l_start lg)"
  shows "\<exists>s'. write_head pid lg s = Ok s' \<and>
    wrotes s [(l_start lg, store_head (lh_n lg) (lh_block lg) (disk s (l_start lg)))] s'"
proof -
  have dev: "l_dev lg = 1" and start: "l_start lg < disksize s"
    using assms(2) by (auto simp: log_shape_def)
  have "view s (l_start lg) = disk s (l_start lg)"
    using assms(1,6) by (intro clean_view) (auto simp: idle_def)
  moreover have "\<exists>s'. write_head pid lg s = Ok s' \<and>
    wrote s (l_start lg) (store_head (lh_n lg) (lh_block lg) (view s (l_start lg))) s'"
    unfolding write_head_def dev
    by (rule rewrite_block_ok [OF assms(1) start assms(5)]) (simp add: length_store_head assms)
  ultimately show ?thesis using wrote_wrotes by force
qed

definition commit_trace :: "logstate \<Rightarrow> (nat \<Rightarrow> block) \<Rightarrow> block \<Rightarrow> (nat \<times> block) list" where
  "commit_trace lg v h0 =
     map (\<lambda>i. (l_start lg + i + 1, v (lh_block lg ! i))) [0..<nat (lh_n lg)]
     @ [(l_start lg, store_head (lh_n lg) (lh_block lg) h0)]
     @ map (\<lambda>i. (lh_block lg ! i, v (lh_block lg ! i))) [0..<nat (lh_n lg)]
     @ [(l_start lg, store_head 0 (lh_block lg) (store_head (lh_n lg) (lh_block lg) h0))]"

text \<open>
  The state between the FS operations of a transaction: the logged blocks are
  the dirty ones, each once, and the header on disk is empty.
\<close>

definition log_inv :: "logstate \<Rightarrow> bstate \<Rightarrow> bool" where
  "log_inv lg s \<longleftrightarrow> log_shape lg (disksize s) \<and> 0 \<le> lh_n lg \<and>
     entries_ok lg (disksize s) (nat (lh_n lg)) (nth (lh_block lg)) \<and>
     distinct (take (nat (lh_n lg)) (lh_block lg)) \<and>
     dirty s = (\<lambda>b. b \<in> set (take (nat (lh_n lg)) (lh_block lg))) \<and>
     head_n (disk s (l_start lg)) = 0"

lemma log_invD:
  assumes "log_inv lg s"
  shows "log_shape lg (disksize s)" "0 \<le> lh_n lg" "nat (lh_n lg) \<le> LOGSIZE"
    "entries_ok lg (disksize s) (nat (lh_n lg)) (nth (lh_block lg))"
    "distinct (take (nat (lh_n lg)) (lh_block lg))"
    "\<forall>i<nat (lh_n lg). dirty s (lh_block lg ! i)" "\<forall>b. dirty s b \<longrightarrow> home lg (disksize s) b"
    "card {b. dirty s b} = nat (lh_n lg)" "\<not> dirty s (l_start lg)"
proof -
  note i = assms [unfolded log_inv_def]
  have len: "nat (lh_n lg) \<le> length (lh_block lg)" using i by (simp add: log_shape_def entries_ok_def)
  show h: "\<forall>b. dirty s b \<longrightarrow> home lg (disksize s) b"
    using i len by (auto simp: in_set_conv_nth entries_ok_def)
  show "\<not> dirty s (l_start lg)" using h i by (auto simp: home_def log_shape_def)
  show "card {b. dirty s b} = nat (lh_n lg)"
    using i len distinct_card [of "take (nat (lh_n lg)) (lh_block lg)"] by simp
  show "\<forall>i<nat (lh_n lg). dirty s (lh_block lg ! i)"
    using i len by (auto simp: in_set_conv_nth)
qed (use assms in \<open>auto simp: log_inv_def entries_ok_def\<close>)

lemma commit_ok:
  assumes "idle s" "log_inv lg s" "0 < lh_n lg" "nat (lh_n lg) < NBUF"
  shows "\<exists>s'. commit pid lg s = Ok (lg\<lparr>lh_n := 0\<rparr>, s') \<and>
    wrotes s (commit_trace lg (view s) (disk s (l_start lg))) s'"
proof -
  let ?n = "nat (lh_n lg)" and ?start = "l_start lg"
  let ?L = "map (\<lambda>i. (?start + i + 1, view s (lh_block lg ! i))) [0..<?n]"
  let ?I = "map (\<lambda>i. (lh_block lg ! i, view s (lh_block lg ! i))) [0..<?n]"
  note i = log_invD [OF assms(2)]
  have c: "card {b. dirty s b} < NBUF" using i(8) assms(4) by simp
  obtain s1 where 1: "write_log pid lg s = Ok s1" "wrotes s ?L s1"
    using write_log_ok [OF assms(1) i(1,4) refl i(6) c i(7)] by blast
  note w1 = wrotesD [OF 1(2)]
  have logs: "fst ` set ?L \<subseteq> {b. \<not> home lg (disksize s) b}"
    using i(4) by (auto simp: home_def entries_ok_def)
  have d1: "dirty s1 = dirty s" using w1(5) logs i(7) by (auto simp: fun_eq_iff)
  have h1: "disk s1 ?start = disk s ?start"
    unfolding w1(3) by (rule apply_writes_other) auto
  let ?h = "store_head (lh_n lg) (lh_block lg) (disk s ?start)"
  obtain s2 where 2: "write_head pid lg s1 = Ok s2" "wrotes s1 [(?start, ?h)] s2"
    using write_head_ok [OF w1(1), of lg pid] i c d1 h1 w1(2) by auto
  note w2 = wrotesD [OF 2(2)]
  have d2: "dirty s2 = dirty s" using w2(5) d1 i(9) by (auto simp: fun_eq_iff)
  have "disk s2 (?start + j + 1) = view s (lh_block lg ! j)" if "j < ?n" for j
    using apply_writes_map [of "\<lambda>i. ?start + i + 1" "[0..<?n]" j "\<lambda>i. view s (lh_block lg ! i)"] that
    by (simp add: w2(3) w1(3) distinct_map inj_on_def)
  then have I: "map (\<lambda>i. (lh_block lg ! i, disk s2 (?start + i + 1))) [0..<?n] = ?I" by simp
  obtain s3 where 3: "install_trans pid lg s2 = Ok s3" "wrotes s2 ?I s3"
    using install_trans_ok [OF w2(1), of lg ?n pid] i(1,4-7) c d2 w2(2) w1(2) unfolding I by auto
  note w3 = wrotesD [OF 3(2)]
  have "fst ` set ?I = set (take ?n (lh_block lg))"
    using i(1,3) nth_image [of ?n "lh_block lg"] by (simp add: image_image log_shape_def)
  then have d3: "dirty s3 = (\<lambda>_. False)" and homes: "?start \<notin> fst ` set ?I"
    using assms(2) i(9) unfolding w3(5) d2 log_inv_def by auto
  have "disk s3 ?start = ?h"
    unfolding w3(3) using apply_writes_other [OF homes] by (simp add: w2(3))
  then obtain s4 where 4: "write_head pid (lg\<lparr>lh_n := 0\<rparr>) s3 = Ok s4"
    "wrotes s3 [(?start, store_head 0 (lh_block lg) ?h)] s4"
    using write_head_ok [OF w3(1), of "lg\<lparr>lh_n := 0\<rparr>" pid] i(1) d3 w3(2) w2(2) w1(2)
    by (auto simp: log_shape_def NBUF_eq)
  have "commit pid lg s = Ok (lg\<lparr>lh_n := 0\<rparr>, s4)"
    unfolding commit_def using assms(3) 1(1) 2(1) 3(1) 4(1) by simp
  moreover have "wrotes s (commit_trace lg (view s) (disk s ?start)) s4"
    using wrotes_trans [OF 1(2) wrotes_trans [OF 2(2) wrotes_trans [OF 3(2) 4(2)]]]
    by (simp add: commit_trace_def)
  ultimately show ?thesis by blast
qed

definition recover_trace :: "nat \<Rightarrow> (nat \<Rightarrow> block) \<Rightarrow> (nat \<times> block) list" where
  "recover_trace start d =
     map (\<lambda>i. (head_block (d start) i, d (start + i + 1))) [0..<nat (head_n (d start))]
     @ [(start, store_head 0 [] (d start))]"

definition disk_ok :: "logstate \<Rightarrow> nat \<Rightarrow> (nat \<Rightarrow> block) \<Rightarrow> bool" where
  "disk_ok lg dsz d \<longleftrightarrow> (\<forall>b. length (d b) = BSIZE) \<and> 0 \<le> head_n (d (l_start lg)) \<and>
     entries_ok lg dsz (nat (head_n (d (l_start lg)))) (head_block (d (l_start lg)))"

lemma read_head_ok:
  assumes "idle s" "dirty s = (\<lambda>_. False)" "log_shape lg (disksize s)" "disk_ok lg (disksize s) (disk s)"
    "n = head_n (disk s (l_start lg))"
  shows "\<exists>s'. read_head pid lg s = Ok (lg\<lparr>lh_n := n, lh_block := map (head_block (disk s (l_start lg))) [0..<nat n]
      @ drop (nat n) (lh_block lg)\<rparr>, s') \<and> wrotes s [] s'"
proof -
  have dev: "l_dev lg = 1" and start: "l_start lg < disksize s"
    using assms(3) by (auto simp: log_shape_def)
  have v: "view s (l_start lg) = disk s (l_start lg)"
    using assms(1,2) by (intro clean_view) (auto simp: idle_def)
  have c: "card {b. dirty s b} < NBUF" using assms(2) by (simp add: NBUF_eq)
  obtain i s1 where 1: "bread pid 1 (l_start lg) s = Ok (i, s1)" "bcache_inv s1" "calm s1"
    "locked_buf s1 i (l_start lg)" "b_data (bufs s1 i) = view s (l_start lg)" "same_blocks s s1"
    "held s1 = (\<lambda>c. c = l_start lg)"
    by (rule idle_bread [OF assms(1) start c])
  have "dirty s1 (l_start lg) \<or> view s1 (l_start lg) = disk s1 (l_start lg)"
    using 1(6) v by (simp add: same_blocks_def)
  then obtain s2 where 2: "brelse i s1 = Ok s2" "idle s2" "same_blocks s1 s2"
    using idle_brelse [OF 1(2-4,7)] by blast
  have "n \<le> int LOGSIZE" using assms(4,5) by (simp add: disk_ok_def entries_ok_def nat_le_iff)
  then have "read_head pid lg s = Ok (lg\<lparr>lh_n := n, lh_block := map (head_block (disk s (l_start lg))) [0..<nat n]
      @ drop (nat n) (lh_block lg)\<rparr>, s2)"
    unfolding read_head_def dev 1(1) using 1(5) v 2(1) assms(5) by (simp add: Let_def)
  moreover have "wrotes s [] s2" using 2 1(6) by (simp add: wrotes_def same_blocks_def)
  ultimately show ?thesis by blast
qed

lemma recover_ok:
  assumes "idle s" "dirty s = (\<lambda>_. False)" "log_shape lg (disksize s)" "disk_ok lg (disksize s) (disk s)"
  shows "\<exists>lg' s'. recover_from_log pid lg s = Ok (lg', s') \<and> lh_n lg' = 0 \<and>
    l_start lg' = l_start lg \<and> l_size lg' = l_size lg \<and> log_shape lg' (disksize s) \<and>
    wrotes s (recover_trace (l_start lg) (disk s)) s'"
proof -
  let ?start = "l_start lg"
  let ?h = "disk s ?start"
  define n where "n = head_n ?h"
  define lg1 where "lg1 = lg\<lparr>lh_n := n, lh_block := map (head_block ?h) [0..<nat n]
      @ drop (nat n) (lh_block lg)\<rparr>"
  obtain s1 where 1: "read_head pid lg s = Ok (lg1, s1)" "wrotes s [] s1"
    using read_head_ok [OF assms n_def, of pid] by (auto simp: lg1_def)
  note w1 = wrotesD [OF 1(2), simplified]
  have n: "nat n \<le> LOGSIZE" "0 \<le> n" using assms(4) by (simp_all add: n_def disk_ok_def entries_ok_def)
  have sh: "log_shape lg1 (disksize s)" "l_start lg1 = ?start" "lh_n lg1 = n" "l_size lg1 = l_size lg"
    using assms(3) n by (auto simp: lg1_def log_shape_def)
  have ent: "lh_block lg1 ! i = head_block ?h i" if "i < nat n" for i
    using that by (simp add: lg1_def nth_append)
  have e: "entries_ok lg1 (disksize s) (nat n) (nth (lh_block lg1))"
    using assms(4) ent by (simp add: disk_ok_def entries_ok_def home_def sh n_def)
  let ?I = "map (\<lambda>i. (head_block ?h i, disk s (?start + i + 1))) [0..<nat n]"
  have I: "map (\<lambda>i. (lh_block lg1 ! i, disk s1 (l_start lg1 + i + 1))) [0..<nat n] = ?I"
    by (simp add: ent sh w1)
  have d1: "dirty s1 = (\<lambda>_. False)" by (simp add: w1(5) assms(2))
  have "\<exists>s2. install_trans pid lg1 s1 = Ok s2 \<and>
      wrotes s1 (map (\<lambda>i. (lh_block lg1 ! i, disk s1 (l_start lg1 + i + 1))) [0..<nat n]) s2"
    by (rule install_trans_ok [OF w1(1)]) (use sh e d1 w1(2) in \<open>simp_all add: NBUF_eq\<close>)
  then obtain s2 where 2: "install_trans pid lg1 s1 = Ok s2" "wrotes s1 ?I s2" unfolding I by blast
  note w2 = wrotesD [OF 2(2)]
  have d2: "dirty s2 = (\<lambda>_. False)" by (simp add: w2(5) d1)
  have "?start \<notin> fst ` set ?I"
    using assms(3,4) by (auto simp: disk_ok_def entries_ok_def home_def log_shape_def n_def)
  then have h2: "disk s2 ?start = ?h" unfolding w2(3) by (simp add: apply_writes_other w1(3))
  have "store_head 0 (lh_block lg1) ?h = store_head 0 [] ?h" by (simp add: store_head_def)
  then obtain s3 where 3: "write_head pid (lg1\<lparr>lh_n := 0\<rparr>) s2 = Ok s3" "wrotes s2 [(?start, store_head 0 [] ?h)] s3"
    using write_head_ok [OF w2(1), of "lg1\<lparr>lh_n := 0\<rparr>" pid] sh d2 h2 w2(2) w1(2)
    by (auto simp: log_shape_def NBUF_eq)
  have "recover_from_log pid lg s = Ok (lg1\<lparr>lh_n := 0\<rparr>, s3)"
    unfolding recover_from_log_def 1(1) using 2(1) 3(1) by (simp add: Let_def)
  moreover have "wrotes s (recover_trace ?start (disk s)) s3"
    using wrotes_trans [OF 1(2) wrotes_trans [OF 2(2) 3(2)]] by (simp add: recover_trace_def n_def)
  ultimately show ?thesis using sh by (auto simp: log_shape_def)
qed

section \<open>Crashes\<close>

lemma length_apply_writes:
  assumes "\<forall>b. length (d b) = BSIZE" "\<forall>(b, x)\<in>set ws. length x = BSIZE"
  shows "length (apply_writes ws d b) = BSIZE"
  using assms by (induction ws arbitrary: d) auto

lemma recover_trace_empty: "head_n (d start) = 0 \<Longrightarrow> recover_trace start d = [(start, store_head 0 [] (d start))]"
  by (simp add: recover_trace_def)

lemma head_cleared:
  assumes "length d = BSIZE"
  shows "head_n (store_head 0 bs d) = 0"
  using head_store_head(1) [OF assms, of 0 bs] by simp

lemma disk_ok_trace:
  assumes "disk_ok lg dsz d"
  shows "\<forall>(b, x)\<in>set (recover_trace (l_start lg) d). length x = BSIZE"
  using assms by (auto simp: disk_ok_def recover_trace_def length_store_head)

lemma recovery_restart:
  assumes "disk_ok lg dsz d" "0 < l_size lg" "d' = apply_writes (take k (recover_trace (l_start lg) d)) d"
  shows "disk_ok lg dsz d'"
    "b \<noteq> l_start lg \<Longrightarrow> apply_writes (recover_trace (l_start lg) d') d' b =
      apply_writes (recover_trace (l_start lg) d) d b"
proof -
  let ?st = "l_start lg" and ?n = "nat (head_n (d (l_start lg)))"
  let ?I = "map (\<lambda>i. (head_block (d ?st) i, d (?st + i + 1))) [0..<?n]"
  let ?T = "recover_trace ?st d"
  have T: "?T = ?I @ [(?st, store_head 0 [] (d ?st))]" by (simp add: recover_trace_def)
  have homes: "\<forall>b \<in> fst ` set ?I. home lg dsz b" and n: "?n < l_size lg"
    using assms(1) by (auto simp: disk_ok_def entries_ok_def)
  have len: "\<forall>b. length (d' b) = BSIZE"
    using disk_ok_trace [OF assms(1)] assms(1) set_take_subset [of k ?T] unfolding assms(3) disk_ok_def
    by (intro allI length_apply_writes) auto
  have "disk_ok lg dsz d' \<and> (b \<noteq> ?st \<longrightarrow> apply_writes (recover_trace ?st d') d' b = apply_writes ?T d b)"
  proof (cases "k \<le> ?n")
    case True
    then have tk: "take k ?T = take k ?I" by (simp add: T)
    have same: "d' c = d c" if "\<not> home lg dsz c" for c
      unfolding assms(3) tk by (rule apply_writes_other) (use homes that set_take_subset [of k ?I] in blast)
    have nh: "\<not> home lg dsz ?st" "i < ?n \<Longrightarrow> \<not> home lg dsz (?st + i + 1)" for i
      using n assms(2) by (auto simp: home_def)
    have "disk_ok lg dsz d'" using assms(1) len same [OF nh(1)] by (simp add: disk_ok_def)
    moreover have "recover_trace ?st d' = ?T"
      unfolding recover_trace_def same [OF nh(1)] using same [OF nh(2)] by simp
    ultimately show ?thesis unfolding assms(3) by (simp add: apply_writes_replay)
  next
    case False
    then have d': "d' = apply_writes ?T d" by (simp add: assms(3) T)
    have h: "d' ?st = store_head 0 [] (d ?st)" by (simp add: d' T)
    have "head_n (d' ?st) = 0" unfolding h by (rule head_cleared) (use assms(1) in \<open>simp add: disk_ok_def\<close>)
    then show ?thesis using len assms(2) by (simp add: disk_ok_def entries_ok_def recover_trace_empty d')
  qed
  then show "disk_ok lg dsz d'"
    "b \<noteq> l_start lg \<Longrightarrow> apply_writes (recover_trace (l_start lg) d') d' b =
      apply_writes (recover_trace (l_start lg) d) d b" by auto
qed

text \<open>The parts of the trace of a commit: log blocks, header, home blocks, cleared header.\<close>

abbreviation log_part :: "logstate \<Rightarrow> bstate \<Rightarrow> (nat \<times> block) list" where
  "log_part lg s \<equiv> map (\<lambda>i. (l_start lg + i + 1, view s (lh_block lg ! i))) [0..<nat (lh_n lg)]"

abbreviation home_part :: "logstate \<Rightarrow> bstate \<Rightarrow> (nat \<times> block) list" where
  "home_part lg s \<equiv> map (\<lambda>i. (lh_block lg ! i, view s (lh_block lg ! i))) [0..<nat (lh_n lg)]"

abbreviation new_head :: "logstate \<Rightarrow> bstate \<Rightarrow> block" where
  "new_head lg s \<equiv> store_head (lh_n lg) (lh_block lg) (disk s (l_start lg))"

definition committed :: "logstate \<Rightarrow> bstate \<Rightarrow> nat \<Rightarrow> block" where
  "committed lg s = apply_writes (log_part lg s @ [(l_start lg, new_head lg s)]) (disk s)"

lemma log_part_not_home:
  assumes "log_inv lg s" "b \<in> fst ` set (log_part lg s) \<or> b = l_start lg"
  shows "\<not> home lg (disksize s) b"
  using log_invD(1,4) [OF assms(1)] assms(2) by (auto simp: home_def log_shape_def entries_ok_def)

lemma committed_disk:
  assumes "log_inv lg s" "bcache_inv s"
  shows "disk_ok lg (disksize s) (committed lg s)"
    "recover_trace (l_start lg) (committed lg s) =
      home_part lg s @ [(l_start lg, store_head 0 [] (new_head lg s))]"
proof -
  let ?st = "l_start lg" and ?n = "nat (lh_n lg)" and ?h = "new_head lg s"
  note i = log_invD [OF assms(1)]
  have n: "?n \<le> length (lh_block lg)" using i(1,4) by (auto simp: log_shape_def entries_ok_def)
  have lens: "\<forall>b. length (disk s b) = BSIZE" "\<And>b. length (view s b) = BSIZE" "length ?h = BSIZE"
    using bcache_invD(3) [OF assms(2)] length_view [OF assms(2)] i(2,3) by (auto intro: length_store_head)
  have h1: "committed lg s ?st = ?h" by (simp add: committed_def)
  have b: "lh_block lg ! j < 2 ^ 32" if "j < ?n" for j
    using i(1,4) that by (auto simp: log_shape_def entries_ok_def home_def intro: less_le_trans)
  have hn: "head_n ?h = lh_n lg" "\<And>j. j < ?n \<Longrightarrow> head_block ?h j = lh_block lg ! j"
    using head_store_head [of "disk s ?st" "lh_n lg" "lh_block lg"] lens(1) i(2,3) n b by auto
  have len1: "length (committed lg s b) = BSIZE" for b unfolding committed_def
    by (rule length_apply_writes) (use lens in auto)
  show "disk_ok lg (disksize s) (committed lg s)"
    using len1 i(4) by (simp add: disk_ok_def h1 hn i(2) entries_ok_def)
  have "committed lg s (?st + j + 1) = view s (lh_block lg ! j)" if "j < ?n" for j
    using apply_writes_map [of "\<lambda>i. ?st + i + 1" "[0..<?n]" j "\<lambda>i. view s (lh_block lg ! i)"] that
    by (simp add: committed_def distinct_map inj_on_def)
  then show "recover_trace ?st (committed lg s) = home_part lg s @ [(?st, store_head 0 [] ?h)]"
    by (simp add: recover_trace_def h1 hn)
qed

lemma home_part_view:
  assumes "log_inv lg s" "bcache_inv s" "held s = (\<lambda>_. False)" "home lg (disksize s) b"
  shows "apply_writes (home_part lg s) (committed lg s) b = view s b"
proof (cases "dirty s b")
  case True
  have n: "nat (lh_n lg) \<le> length (lh_block lg)"
    using log_invD(1,4) [OF assms(1)] by (auto simp: log_shape_def entries_ok_def)
  then obtain j where j: "j < nat (lh_n lg)" "b = lh_block lg ! j"
    using assms(1) True by (auto simp: log_inv_def in_set_conv_nth)
  have "map (nth (lh_block lg)) [0..<nat (lh_n lg)] = take (nat (lh_n lg)) (lh_block lg)"
    by (rule nth_equalityI) (use n in auto)
  then have "distinct (map (nth (lh_block lg)) [0..<nat (lh_n lg)])"
    using log_invD(5) [OF assms(1)] by simp
  from apply_writes_map [OF this, of j "\<lambda>i. view s (lh_block lg ! i)"] j show ?thesis by simp
next
  case False
  then have "b \<notin> fst ` set (home_part lg s)" using log_invD(6) [OF assms(1)] by auto
  moreover have "committed lg s b = disk s b" unfolding committed_def
    by (rule apply_writes_other) (use log_part_not_home [OF assms(1), of b] assms(4) in auto)
  ultimately show ?thesis
    using clean_view [OF assms(2) _ False] assms(3) by (simp add: apply_writes_other)
qed

lemma commit_crash_early:
  assumes "log_inv lg s" "bcache_inv s" "d' = apply_writes (take k (log_part lg s)) (disk s)"
  shows "disk_ok lg (disksize s) d'"
    "home lg (disksize s) b \<Longrightarrow> apply_writes (recover_trace (l_start lg) d') d' b = disk s b"
proof -
  note tk = set_take_subset [of k "log_part lg s"]
  have "\<forall>b. length (d' b) = BSIZE" unfolding assms(3)
    by (intro allI length_apply_writes)
      (use bcache_invD(3) [OF assms(2)] length_view [OF assms(2)] in \<open>auto dest!: in_set_takeD\<close>)
  moreover have "l_start lg \<notin> fst ` set (take k (log_part lg s))" using tk by auto
  then have h: "head_n (d' (l_start lg)) = 0"
    unfolding assms(3) using assms(1) by (subst apply_writes_other) (simp_all add: log_inv_def)
  ultimately show "disk_ok lg (disksize s) d'"
    using log_invD(1) [OF assms(1)] by (simp add: disk_ok_def entries_ok_def log_shape_def)
  assume hb: "home lg (disksize s) b"
  then have "b \<noteq> l_start lg" "b \<notin> fst ` set (take k (log_part lg s))"
    using log_part_not_home [OF assms(1)] tk by blast+
  moreover from this have "apply_writes (recover_trace (l_start lg) d') d' b = d' b"
    by (simp add: recover_trace_empty h)
  ultimately show "apply_writes (recover_trace (l_start lg) d') d' b = disk s b"
    by (simp add: assms(3) apply_writes_other)
qed

lemma commit_crash_late:
  assumes "log_inv lg s" "bcache_inv s" "held s = (\<lambda>_. False)"
    "d' = apply_writes (take k (recover_trace (l_start lg) (committed lg s))) (committed lg s)"
  shows "disk_ok lg (disksize s) d'"
    "home lg (disksize s) b \<Longrightarrow> apply_writes (recover_trace (l_start lg) d') d' b = view s b"
proof -
  have "0 < l_size lg" using log_invD(1) [OF assms(1)] by (simp add: log_shape_def)
  note rr = recovery_restart [OF committed_disk(1) [OF assms(1,2)] this assms(4)]
  show "disk_ok lg (disksize s) d'" by (rule rr(1))
  assume hb: "home lg (disksize s) b"
  then have "b \<noteq> l_start lg" using log_part_not_home [OF assms(1)] by blast
  then show "apply_writes (recover_trace (l_start lg) d') d' b = view s b"
    using rr(2) home_part_view [OF assms(1-3) hb] by (simp add: committed_disk(2) [OF assms(1,2)])
qed

lemma commit_trace_blocks:
  assumes "log_inv lg s"
  shows "fst ` set (commit_trace lg (view s) h) = fst ` set (log_part lg s) \<union> {l_start lg} \<union> {b. dirty s b}"
proof -
  have "fst ` set (home_part lg s) = {b. dirty s b}"
    using assms log_invD(1,3) [OF assms] nth_image [of "nat (lh_n lg)" "lh_block lg"]
    by (simp add: image_image log_shape_def log_inv_def)
  then show ?thesis by (simp only: commit_trace_def set_append image_Un) auto
qed

lemma commit_trace_eq:
  assumes "log_inv lg s" "bcache_inv s"
  shows "commit_trace lg (view s) (disk s (l_start lg)) =
    (log_part lg s @ [(l_start lg, new_head lg s)]) @ recover_trace (l_start lg) (committed lg s)"
proof -
  have "store_head 0 bs h = store_head 0 [] h" for bs h by (simp add: store_head_def)
  then show ?thesis unfolding committed_disk(2) [OF assms] commit_trace_def by simp
qed

lemma commit_trace_split:
  assumes "log_inv lg s" "bcache_inv s"
    "d' = apply_writes (take k (commit_trace lg (view s) (disk s (l_start lg)))) (disk s)"
  obtains k' where "d' = apply_writes (take k' (log_part lg s)) (disk s)"
  | k' where "d' = apply_writes (take k' (recover_trace (l_start lg) (committed lg s))) (committed lg s)"
proof -
  let ?n = "nat (lh_n lg)"
  note T = commit_trace_eq [OF assms(1,2)]
  show ?thesis
  proof (cases "k \<le> ?n")
    case True
    then show ?thesis using that(1) [of k] unfolding assms(3) T by simp
  next
    case False
    then have "d' = apply_writes (take (k - (?n + 1)) (recover_trace (l_start lg) (committed lg s))) (committed lg s)"
      unfolding assms(3) T take_append apply_writes_simps(3) by (simp add: committed_def)
    then show ?thesis by (rule that(2))
  qed
qed

lemma boot_idle:
  assumes "\<forall>b. length (d b) = BSIZE"
  shows "idle (binit (boot_bcache d n))"
proof -
  have "calm (binit (boot_bcache d n))" by (simp add: calm_def boot_bufs)
  then show ?thesis using boot_inv [OF assms] by (simp add: idle_def boot_attrs)
qed

definition boot_log :: logstate where
  "boot_log = \<lparr>l_start = 0, l_size = 0, l_outstanding = 0, l_committing = False, l_dev = 0,
     lh_n = 0, lh_block = replicate LOGSIZE 0\<rparr>"

text \<open>The super block on the disk locates the log.\<close>

definition sb_locates :: "(nat \<Rightarrow> block) \<Rightarrow> logstate \<Rightarrow> bool" where
  "sb_locates d lg \<longleftrightarrow>
     unat (sb_logstart (dec_superblock (take 28 (d 1)))) = l_start lg \<and>
     unat (sb_nlog (dec_superblock (take 28 (d 1)))) = l_size lg"

lemma readsb_ok:
  assumes "idle s" "dirty s = (\<lambda>_. False)" "1 < disksize s"
  shows "\<exists>s'. readsb pid 1 s = Ok (dec_superblock (take 28 (disk s 1)), s') \<and> wrotes s [] s'"
proof -
  have v: "view s 1 = disk s 1" using assms(1,2) by (intro clean_view) (auto simp: idle_def)
  have c: "card {b. dirty s b} < NBUF" using assms(2) by (simp add: NBUF_eq)
  obtain i s1 where 1: "bread pid 1 1 s = Ok (i, s1)" "bcache_inv s1" "calm s1"
    "locked_buf s1 i 1" "b_data (bufs s1 i) = view s 1" "same_blocks s s1" "held s1 = (\<lambda>c. c = 1)"
    by (rule idle_bread [OF assms(1,3) c])
  have "dirty s1 1 \<or> view s1 1 = disk s1 1" using 1(6) v by (simp add: same_blocks_def)
  then obtain s2 where 2: "brelse i s1 = Ok s2" "idle s2" "same_blocks s1 s2"
    using idle_brelse [OF 1(2-4,7)] by blast
  have "readsb pid 1 s = Ok (dec_superblock (take 28 (disk s 1)), s2)"
    unfolding readsb_def 1(1) using 1(5) v 2(1) by (simp add: Let_def)
  moreover have "wrotes s [] s2" using 2 1(6) by (simp add: wrotes_def same_blocks_def)
  ultimately show ?thesis by blast
qed

text \<open>A boot on a disk runs recovery on the log the super block locates.\<close>

lemma initlog_boot:
  assumes "sb_locates d lg" "log_shape lg n" "disk_ok lg n d" "1 < n"
  shows "\<exists>lg' s'. initlog pid 1 boot_log (binit (boot_bcache d n)) = Ok (lg', s') \<and> lh_n lg' = 0 \<and>
    l_start lg' = l_start lg \<and> l_size lg' = l_size lg \<and> idle s' \<and> log_shape lg' n \<and>
    disk s' = apply_writes (recover_trace (l_start lg) d) d \<and>
    wlog s' = rev (recover_trace (l_start lg) d)"
proof -
  let ?s = "binit (boot_bcache d n)"
  have s: "idle ?s" "dirty ?s = (\<lambda>_. False)" "disksize ?s = n" "disk ?s = d" "wlog ?s = []"
    using assms(3) boot_idle [of d n] by (simp_all add: disk_ok_def boot_attrs) (simp_all add: boot_bcache_def)
  obtain s1 where 1: "readsb pid 1 ?s = Ok (dec_superblock (take 28 (d 1)), s1)" "wrotes ?s [] s1"
    using readsb_ok [OF s(1,2), of pid] assms(4) s(3,4) by auto
  note w = wrotesD [OF 1(2), simplified]
  let ?lg = "boot_log\<lparr>l_start := l_start lg, l_size := l_size lg, l_dev := 1\<rparr>"
  have sh: "log_shape ?lg n" "disk_ok ?lg n d"
    using assms(2,3) by (simp_all add: log_shape_def boot_log_def disk_ok_def entries_ok_def home_def)
  have "dirty s1 = (\<lambda>_. False)" using w(5) s(2) by simp
  then obtain lg' s' where 2: "recover_from_log pid ?lg s1 = Ok (lg', s')" "lh_n lg' = 0"
    "l_start lg' = l_start lg" "l_size lg' = l_size lg" "log_shape lg' n"
    "wrotes s1 (recover_trace (l_start lg) d) s'"
    using recover_ok [OF w(1), of ?lg pid] sh w(2,3) s(3,4) by auto
  have "initlog pid 1 boot_log ?s = Ok (lg', s')"
    unfolding initlog_def 1(1) using 2(1) assms(1) by (simp add: fs_consts sb_locates_def)
  with 2 w s 1(2) show ?thesis by (auto simp: wrotes_def)
qed

text \<open>The disks a crash between \<open>s\<close> and \<open>s'\<close> can leave: the first \<open>k\<close> writes were done.\<close>

definition crash_disk :: "bstate \<Rightarrow> bstate \<Rightarrow> (nat \<Rightarrow> block) \<Rightarrow> bool" where
  "crash_disk s s' d \<longleftrightarrow>
     (\<exists>ws k. wlog s' = rev ws @ wlog s \<and> d = apply_writes (take k ws) (disk s))"

lemma wrotes_crash: "wrotes s ws s' \<Longrightarrow> crash_disk s s' d \<Longrightarrow> \<exists>k. d = apply_writes (take k ws) (disk s)"
  by (auto simp: crash_disk_def wrotes_def)

lemma crash_sb:
  assumes "sb_locates d lg" "1 \<notin> fst ` set ws"
  shows "sb_locates (apply_writes (take k ws) d) lg"
proof -
  have "1 \<notin> fst ` set (take k ws)" using assms(2) set_take_subset [of k ws] by blast
  then show ?thesis using assms(1) by (simp add: sb_locates_def apply_writes_other)
qed

section \<open>Logging a block\<close>

lemma log_index:
  "b \<in> set xs \<Longrightarrow> log_index xs b < length xs \<and> xs ! log_index xs b = b"
  "b \<notin> set xs \<Longrightarrow> log_index xs b = length xs"
  by (induction xs) auto

definition logged :: "logstate \<Rightarrow> nat list" where
  "logged lg = take (nat (lh_n lg)) (lh_block lg)"

lemma log_write_eq:
  assumes "log_inv lg s" "nat (lh_n lg) < LOGSIZE" "nat (lh_n lg) + 1 < l_size lg" "1 \<le> l_outstanding lg"
    "b_blockno (bufs s bp) = b"
  obtains lg' where "log_write bp lg s = Ok (lg', upd_buf bp (b_dirty_update (\<lambda>_. True)) s)"
    "logged lg' = (if b \<in> set (logged lg) then logged lg else logged lg @ [b])"
    "lh_n lg' = int (length (logged lg'))" "length (lh_block lg') = LOGSIZE"
    "l_start lg' = l_start lg" "l_size lg' = l_size lg" "l_dev lg' = l_dev lg"
    "l_outstanding lg' = l_outstanding lg" "l_committing lg' = l_committing lg"
proof -
  note i = log_invD [OF assms(1)]
  let ?n = "nat (lh_n lg)" and ?i = "log_index (logged lg) b"
  define lg1 where "lg1 = lg\<lparr>lh_block := (lh_block lg)[?i := b]\<rparr>"
  define lg2 where "lg2 = (if int ?i = lh_n lg then lg1\<lparr>lh_n := lh_n lg + 1\<rparr> else lg1)"
  have len: "length (lh_block lg) = LOGSIZE" using i(1) by (simp add: log_shape_def)
  have ll: "length (logged lg) = ?n" using len i(3) by (simp add: logged_def)
  have n: "int ?n = lh_n lg" using i(2) by simp
  have g: "\<not> (int LOGSIZE \<le> lh_n lg \<or> int (l_size lg) - 1 \<le> lh_n lg)" using assms(2,3) n by linarith
  have "log_write bp lg s = Ok (lg2, upd_buf bp (b_dirty_update (\<lambda>_. True)) s)"
    unfolding log_write_def Let_def assms(5) logged_def [symmetric] lg1_def [symmetric]
    using g assms(4) by (simp add: lg2_def lg1_def)
  moreover have "logged lg2 = (if b \<in> set (logged lg) then logged lg else logged lg @ [b])"
  proof (cases "b \<in> set (logged lg)")
    case True
    then have "?i < ?n" "lh_block lg ! ?i = b" using log_index(1) [OF True] ll by (auto simp: logged_def)
    then have "lg2 = lg" using n len i(3) by (simp add: lg2_def lg1_def list_update_same_conv)
    with True show ?thesis by simp
  next
    case False
    then have "?i = ?n" using log_index(2) ll by auto
    then have "lh_n lg2 = lh_n lg + 1" "lh_block lg2 = (lh_block lg)[?n := b]"
      using n by (simp_all add: lg2_def lg1_def)
    moreover have "nat (lh_n lg + 1) = Suc ?n" using i(2) by simp
    ultimately show ?thesis using False len assms(2)
      by (simp add: logged_def take_Suc_conv_app_nth)
  qed
  moreover have "lh_n lg2 = int (length (logged lg2))"
  proof -
    have "nat (lh_n lg2) \<le> LOGSIZE" "0 \<le> lh_n lg2" using assms(2) i(2) by (auto simp: lg2_def lg1_def)
    then show ?thesis using len by (auto simp: logged_def lg2_def lg1_def)
  qed
  ultimately show ?thesis
    by (rule that) (simp_all add: lg2_def lg1_def len)
qed

lemma mark_dirty:
  assumes "bcache_inv s" "locked_buf s bp b" "s' = upd_buf bp (b_dirty_update (\<lambda>_. True)) s"
  shows "bcache_inv s'" "locked_buf s' bp b" "view s' = view s" "held s' = held s"
    "dirty s' = (dirty s)(b := True)" "calm s \<Longrightarrow> calm s'" "others_kept s bp s'"
    "disk s' = disk s" "disksize s' = disksize s" "wlog s' = wlog s"
proof -
  note l = locked_bufD [OF assms(2)]
  note u = bcache_invD(1) [OF assms(1)]
  have ok: "buf_ok s (bufs s bp)" by (rule bcache_invD(2) [OF assms(1) l(1)])
  show "bcache_inv s'" unfolding assms(3)
    by (rule bcache_inv_upd [OF assms(1) l(1)]) (use ok l in \<open>simp_all add: buf_ok_def\<close>)
  show "locked_buf s' bp b" using l by (simp add: assms(3) locked_buf_def holds_def)
  show "calm s'" if "calm s" unfolding assms(3)
    by (rule calm_cong [OF that]) auto
  show "others_kept s bp s'" unfolding assms(3) by (rule others_kept_upd)
  show "view s' = view s" "held s' = held s" "dirty s' = (dirty s)(b := True)"
    unfolding assms(3) using l attrs_at [OF u l(1,2)]
    by (simp_all add: attrs_upd [OF u l(1) _ _ l(2)] fun_upd_idem_iff)
qed (simp_all add: assms(3))

lemma log_inv_logged:
  "log_inv lg s \<longleftrightarrow> log_shape lg (disksize s) \<and> 0 \<le> lh_n lg \<and> nat (lh_n lg) \<le> LOGSIZE \<and>
     nat (lh_n lg) < l_size lg \<and> (\<forall>b\<in>set (logged lg). home lg (disksize s) b) \<and>
     distinct (logged lg) \<and> dirty s = (\<lambda>b. b \<in> set (logged lg)) \<and> head_n (disk s (l_start lg)) = 0"
proof -
  have "(\<forall>i<nat (lh_n lg). home lg (disksize s) (lh_block lg ! i)) \<longleftrightarrow>
      (\<forall>b\<in>set (logged lg). home lg (disksize s) b)" if "nat (lh_n lg) \<le> length (lh_block lg)"
    using nth_image [OF that] unfolding logged_def by (metis (no_types, lifting) atLeastLessThan_iff image_iff zero_le)
  then show ?thesis by (auto simp: log_inv_def logged_def entries_ok_def log_shape_def)
qed

lemma log_write_ok:
  assumes "log_inv lg s" "bcache_inv s" "nat (lh_n lg) < LOGSIZE" "nat (lh_n lg) + 1 < l_size lg"
    "1 \<le> l_outstanding lg" "locked_buf s bp b" "home lg (disksize s) b"
  obtains lg' s' where "log_write bp lg s = Ok (lg', s')" "s' = upd_buf bp (b_dirty_update (\<lambda>_. True)) s"
    "log_inv lg' s'" "logged lg' = (if b \<in> set (logged lg) then logged lg else logged lg @ [b])"
    "l_start lg' = l_start lg" "l_size lg' = l_size lg" "l_dev lg' = l_dev lg"
    "l_outstanding lg' = l_outstanding lg" "l_committing lg' = l_committing lg"
proof -
  define s' where "s' = upd_buf bp (b_dirty_update (\<lambda>_. True)) s"
  note md = mark_dirty [OF assms(2,6) s'_def]
  obtain lg' where 1: "log_write bp lg s = Ok (lg', s')"
    "logged lg' = (if b \<in> set (logged lg) then logged lg else logged lg @ [b])"
    "lh_n lg' = int (length (logged lg'))" "length (lh_block lg') = LOGSIZE"
    "l_start lg' = l_start lg" "l_size lg' = l_size lg" "l_dev lg' = l_dev lg"
    "l_outstanding lg' = l_outstanding lg" "l_committing lg' = l_committing lg"
    unfolding s'_def by (rule log_write_eq [OF assms(1,3,4,5) locked_bufD(6) [OF assms(6)]])
  note i = assms(1) [unfolded log_inv_logged]
  have "length (logged lg) = nat (lh_n lg)" using i by (auto simp: logged_def log_shape_def)
  then have "nat (lh_n lg') \<le> nat (lh_n lg) + 1" using 1(2,3) by auto
  moreover have "dirty s' = (\<lambda>b. b \<in> set (logged lg'))"
    using i md(5) 1(2) by (auto simp: fun_eq_iff)
  ultimately have "log_inv lg' s'"
    using i 1 md(8,9) assms(3,4,7) unfolding log_inv_logged by (auto simp: log_shape_def home_def)
  then show ?thesis using that [OF 1(1) s'_def _ 1(2,5-9)] by blast
qed

lemma log_inv_fields [simp]:
  "log_inv (lg\<lparr>l_outstanding := k\<rparr>) s = log_inv lg s" "log_inv (lg\<lparr>l_committing := c\<rparr>) s = log_inv lg s"
  "logged (lg\<lparr>l_outstanding := k\<rparr>) = logged lg" "logged (lg\<lparr>l_committing := c\<rparr>) = logged lg"
  "home (lg\<lparr>l_outstanding := k\<rparr>) z b = home lg z b" "home (lg\<lparr>l_committing := c\<rparr>) z b = home lg z b"
  by (simp_all add: log_inv_def log_shape_def entries_ok_def home_def logged_def)

lemma log_inv_frame:
  "log_inv lg s \<Longrightarrow> dirty s' = dirty s \<Longrightarrow> disk s' = disk s \<Longrightarrow> disksize s' = disksize s \<Longrightarrow> log_inv lg s'"
  by (simp add: log_inv_def)

lemma commit_installs:
  assumes "idle s" "log_inv lg s" "0 < lh_n lg" "nat (lh_n lg) < NBUF"
  obtains s' where "commit pid lg s = Ok (lg\<lparr>lh_n := 0\<rparr>, s')" "idle s'" "log_inv (lg\<lparr>lh_n := 0\<rparr>) s'"
    "\<forall>b. home lg (disksize s) b \<longrightarrow> disk s' b = view s b" "disksize s' = disksize s"
    "wrotes s (commit_trace lg (view s) (disk s (l_start lg))) s'"
proof -
  let ?T = "commit_trace lg (view s) (disk s (l_start lg))"
  have inv: "bcache_inv s" "held s = (\<lambda>_. False)" using assms(1) by (auto simp: idle_def)
  note i = log_invD [OF assms(2)]
  obtain s' where 1: "commit pid lg s = Ok (lg\<lparr>lh_n := 0\<rparr>, s')" "wrotes s ?T s'"
    using commit_ok [OF assms] by blast
  note w = wrotesD [OF 1(2)]
  have d': "disk s' = apply_writes (recover_trace (l_start lg) (committed lg s)) (committed lg s)"
    unfolding w(3) commit_trace_eq [OF assms(2) inv(1)] by (simp add: committed_def)
  have "length (new_head lg s) = BSIZE"
    using bcache_invD(3) [OF inv(1)] i(2,3) by (intro length_store_head) auto
  moreover have "dirty s' = (\<lambda>_. False)" unfolding w(5) commit_trace_blocks [OF assms(2)] by auto
  ultimately have "log_inv (lg\<lparr>lh_n := 0\<rparr>) s'"
    using i(1) w(2) d' committed_disk(2) [OF assms(2) inv(1)]
    by (simp add: log_inv_def entries_ok_def log_shape_def head_cleared)
  moreover have "disk s' b = view s b" if "home lg (disksize s) b" for b
    using home_part_view [OF assms(2) inv that] log_part_not_home [OF assms(2), of b] that
    unfolding d' committed_disk(2) [OF assms(2) inv(1)] by auto
  ultimately show ?thesis using that [OF 1(1) w(1)] w(2) 1(2) by blast
qed

section \<open>Properties\<close>

text \<open>
  C1: Crash atomicity of a commit.  From a cache without held buffers whose
  dirty blocks are the logged ones, with an empty header on disk and a super
  block that is not itself being rewritten, commit() succeeds and empties the
  log.  Stop its disk writes at any point and boot on what is on the disk:
  initlog() succeeds, and the blocks outside the log are then either all as on
  the disk before the commit or all as the cache showed them, which includes
  every logged block.  When commit() returns, the disk holds the cache's view.
\<close>

theorem commit_crash_atomic:
  assumes "idle s" "log_inv lg s" "0 < lh_n lg" "nat (lh_n lg) < NBUF"
    "sb_locates (disk s) lg" "home lg (disksize s) 1" "\<not> dirty s 1"
  shows "\<exists>s'. commit pid lg s = Ok (lg\<lparr>lh_n := 0\<rparr>, s') \<and> log_inv (lg\<lparr>lh_n := 0\<rparr>) s' \<and>
    (\<forall>b. home lg (disksize s) b \<longrightarrow> disk s' b = view s b) \<and>
    (\<forall>d. crash_disk s s' d \<longrightarrow>
      (\<exists>lg2 s2. initlog pid 1 boot_log (binit (boot_bcache d (disksize s))) = Ok (lg2, s2) \<and>
        ((\<forall>b. home lg (disksize s) b \<longrightarrow> disk s2 b = disk s b) \<or>
         (\<forall>b. home lg (disksize s) b \<longrightarrow> disk s2 b = view s b))))"
proof -
  let ?T = "commit_trace lg (view s) (disk s (l_start lg))" and ?z = "disksize s"
  have inv: "bcache_inv s" "held s = (\<lambda>_. False)" using assms(1) by (auto simp: idle_def)
  note i = log_invD [OF assms(2)]
  obtain s' where 1: "commit pid lg s = Ok (lg\<lparr>lh_n := 0\<rparr>, s')" "log_inv (lg\<lparr>lh_n := 0\<rparr>) s'"
    "\<forall>b. home lg ?z b \<longrightarrow> disk s' b = view s b" "wrotes s ?T s'"
    by (rule commit_installs [OF assms(1-4)])
  have one: "1 \<notin> fst ` set ?T"
    using assms(6,7) log_part_not_home [OF assms(2), of 1] unfolding commit_trace_blocks [OF assms(2)] by auto
  have "\<exists>lg2 s2. initlog pid 1 boot_log (binit (boot_bcache d ?z)) = Ok (lg2, s2) \<and>
        ((\<forall>b. home lg ?z b \<longrightarrow> disk s2 b = disk s b) \<or> (\<forall>b. home lg ?z b \<longrightarrow> disk s2 b = view s b))"
    if cr: "crash_disk s s' d" for d
  proof -
    obtain k where d: "d = apply_writes (take k ?T) (disk s)" using wrotes_crash [OF 1(4) cr] by blast
    have sb: "sb_locates d lg" unfolding d by (rule crash_sb [OF assms(5) one])
    have n: "1 < ?z" using assms(6) by (simp add: home_def)
    have "disk_ok lg ?z d \<and>
        ((\<forall>b. home lg ?z b \<longrightarrow> apply_writes (recover_trace (l_start lg) d) d b = disk s b) \<or>
         (\<forall>b. home lg ?z b \<longrightarrow> apply_writes (recover_trace (l_start lg) d) d b = view s b))"
    proof (rule commit_trace_split [OF assms(2) inv(1) d])
      fix k'
      assume e: "d = apply_writes (take k' (log_part lg s)) (disk s)"
      show ?thesis using commit_crash_early [OF assms(2) inv(1) e] by blast
    next
      fix k'
      assume e: "d = apply_writes (take k' (recover_trace (l_start lg) (committed lg s))) (committed lg s)"
      show ?thesis using commit_crash_late [OF assms(2) inv e] by blast
    qed
    moreover from this obtain lg2 s2 where "initlog pid 1 boot_log (binit (boot_bcache d ?z)) = Ok (lg2, s2)"
      "disk s2 = apply_writes (recover_trace (l_start lg) d) d"
      using initlog_boot [OF sb i(1) _ n] by blast
    ultimately show ?thesis by auto
  qed
  then show ?thesis using 1(1-3) by blast
qed

text \<open>A disk with its log in blocks 2 to 5, and a transaction of one block.\<close>

definition demo_sb :: superblock where
  "demo_sb = \<lparr>sb_size = 20, sb_nblocks = 10, sb_ninodes = 8, sb_nlog = 4, sb_logstart = 2,
     sb_inodestart = 6, sb_bmapstart = 7\<rparr>"

definition demo_disk :: "nat \<Rightarrow> block" where
  "demo_disk b = (if b = 1 then enc_superblock demo_sb @ replicate (BSIZE - 28) 0 else replicate BSIZE 0)"

definition demo_log :: logstate where
  "demo_log = \<lparr>l_start = 2, l_size = 4, l_outstanding = 0, l_committing = False, l_dev = 1,
     lh_n = 1, lh_block = 9 # replicate (LOGSIZE - 1) 0\<rparr>"

definition demo_cache :: bstate where
  "demo_cache = upd_buf 0 (\<lambda>x. x\<lparr>b_dev := 1, b_blockno := 9, b_valid := True, b_dirty := True,
     b_data := replicate BSIZE 7\<rparr>) (binit (boot_bcache demo_disk 20))"

lemma demo_disk_length: "length (demo_disk b) = BSIZE"
  using csb.enc_width [of demo_sb] by (simp add: demo_disk_def BSIZE_def)

lemma demo_sb_locates: "sb_locates demo_disk demo_log"
  using csb.dec_enc [of demo_sb] csb.enc_width [of demo_sb]
  by (simp add: sb_locates_def demo_disk_def demo_log_def) (simp add: demo_sb_def)

lemma demo_head: "head_n (demo_disk 2) = 0"
  by (simp add: demo_disk_def head_n_def slot_def BSIZE_def dec32_def)

lemma demo_cache_ok: "idle demo_cache" "view demo_cache = demo_disk(9 := replicate BSIZE 7)"
  "dirty demo_cache = (\<lambda>b. b = 9)" "disk demo_cache = demo_disk" "disksize demo_cache = 20"
proof -
  let ?s = "binit (boot_bcache demo_disk 20)"
  let ?f = "\<lambda>x :: buf. x\<lparr>b_dev := 1, b_blockno := 9, b_valid := True, b_dirty := True, b_data := replicate BSIZE 7\<rparr>"
  have inv: "bcache_inv ?s" by (rule boot_inv) (simp add: demo_disk_length)
  have 0: "(0 :: nat) < NBUF" by (simp add: NBUF_eq)
  note b = boot_bufs [OF 0, of demo_disk 20]
  have d: "disk ?s = demo_disk" "disksize ?s = 20" by (simp_all add: boot_bcache_def)
  have r: "view demo_cache = (view ?s)(9 := replicate BSIZE 7)" "dirty demo_cache = (dirty ?s)(9 := True)"
    "held demo_cache = (held ?s)(9 := False)"
    using attrs_relabel [OF inv 0 b(4,2) boot_lookup, of ?f 9] b(5) by (simp_all add: demo_cache_def)
  have "bcache_inv demo_cache" unfolding demo_cache_def
    by (rule bcache_inv_upd [OF inv 0]) (use b d boot_lookup in \<open>simp_all add: buf_ok_def\<close>)
  moreover have "calm demo_cache"
    using boot_bufs [of _ demo_disk 20] b by (auto simp: calm_def demo_cache_def)
  ultimately show "idle demo_cache" using r(3) by (auto simp: idle_def boot_attrs)
  show "view demo_cache = demo_disk(9 := replicate BSIZE 7)" using r(1) by (simp add: boot_attrs)
  show "dirty demo_cache = (\<lambda>b. b = 9)" using r(2) by (auto simp: boot_attrs fun_eq_iff)
  show "disk demo_cache = demo_disk" "disksize demo_cache = 20" by (simp_all add: demo_cache_def boot_bcache_def)
qed

lemma demo_log_inv: "log_inv demo_log demo_cache"
  using demo_head
  by (simp add: log_inv_def demo_cache_ok log_shape_def demo_log_def entries_ok_def home_def LOGSIZE_eq)

theorem commit_crash_atomic_witness:
  "\<exists>s'. commit 1 demo_log demo_cache = Ok (demo_log\<lparr>lh_n := 0\<rparr>, s') \<and> disk s' 9 = replicate BSIZE 7"
proof -
  have "home demo_log (disksize demo_cache) 9" by (simp add: home_def demo_log_def demo_cache_ok)
  moreover have "0 < lh_n demo_log" "nat (lh_n demo_log) < NBUF" "sb_locates (disk demo_cache) demo_log"
    "home demo_log (disksize demo_cache) 1" "\<not> dirty demo_cache 1"
    using demo_sb_locates by (simp_all add: demo_cache_ok demo_log_def home_def NBUF_eq)
  moreover have "view demo_cache 9 = replicate BSIZE 7" by (simp add: demo_cache_ok)
  ultimately show ?thesis
    using commit_crash_atomic [OF demo_cache_ok(1) demo_log_inv, of 1] by metis
qed



text \<open>
  A transaction of one block is durable.  With the log empty and no
  operation running, begin_op(), bread(), an overwrite of the buffer,
  log_write(), brelse() and end_op() all succeed; afterwards the new data is
  on the disk at that block, every other block outside the log holds on disk
  what the cache showed before, and the log is empty again.
\<close>

theorem transaction_durable:
  assumes "idle s" "log_inv lg s" "lh_n lg = 0" "l_outstanding lg = 0" "\<not> l_committing lg"
    "1 < l_size lg" "home lg (disksize s) b" "length d = BSIZE"
  shows "\<exists>lg1 i s1 lg2 s2 s3 lg3 s4. begin_op lg = Ok lg1 \<and> bread pid 1 b s = Ok (i, s1) \<and>
    log_write i lg1 (set_data i d s1) = Ok (lg2, s2) \<and> brelse i s2 = Ok s3 \<and>
    end_op pid lg2 s3 = Ok (lg3, s4) \<and> log_inv lg3 s4 \<and> lh_n lg3 = 0 \<and> \<not> l_committing lg3 \<and>
    (\<forall>c. home lg (disksize s) c \<longrightarrow> disk s4 c = ((view s)(b := d)) c)"
proof -
  define lg1 where "lg1 = lg\<lparr>l_outstanding := 1\<rparr>"
  have nd: "dirty s = (\<lambda>_. False)" using assms(2,3) by (simp add: log_inv_logged logged_def)
  have b: "b < disksize s" using assms(7) by (simp add: home_def)
  have c: "card {b. dirty s b} < NBUF" by (simp add: nd NBUF_eq)
  obtain i s1 where 1: "bread pid 1 b s = Ok (i, s1)" "bcache_inv s1" "calm s1" "locked_buf s1 i b"
    "b_data (bufs s1 i) = view s b" "same_blocks s s1" "held s1 = (\<lambda>c. c = b)"
    by (rule idle_bread [OF assms(1) b c])
  note sd = set_data_ok [OF 1(2,4) assms(8)]
  let ?s1 = "set_data i d s1"
  have li: "log_inv lg1 ?s1" unfolding lg1_def log_inv_fields
    by (rule log_inv_frame [OF assms(2)]) (use 1(6) sd in \<open>simp_all add: same_blocks_def\<close>)
  have h1: "home lg1 (disksize ?s1) b" using assms(7) sd(8) 1(6) by (simp add: lg1_def same_blocks_def)
  obtain lg2 s2 where 2: "log_write i lg1 ?s1 = Ok (lg2, s2)" "s2 = upd_buf i (b_dirty_update (\<lambda>_. True)) ?s1"
    "log_inv lg2 s2" "logged lg2 = (if b \<in> set (logged lg1) then logged lg1 else logged lg1 @ [b])"
    "l_start lg2 = l_start lg1" "l_size lg2 = l_size lg1" "l_dev lg2 = l_dev lg1"
    "l_outstanding lg2 = l_outstanding lg1" "l_committing lg2 = l_committing lg1"
    by (rule log_write_ok [OF li sd(1) _ _ _ sd(2) h1])
      (use assms(3,6) in \<open>simp_all add: lg1_def LOGSIZE_eq\<close>)
  note md = mark_dirty [OF sd(1,2) 2(2)]
  have "calm s2" using 1(3) sd(10) md(6) by blast
  moreover have "held s2 = (\<lambda>c. c = b)" using md(4) sd(5) 1(7) by simp
  ultimately obtain s3 where 3: "brelse i s2 = Ok s3" "idle s3" "same_blocks s2 s3"
    using idle_brelse [OF md(1) _ md(2)] md(5) by auto
  have l2: "logged lg2 = [b]" using 2(4) assms(3) by (simp add: lg1_def logged_def)
  define lg3 where "lg3 = lg2\<lparr>l_outstanding := 0, l_committing := True\<rparr>"
  have li3: "log_inv lg3 s3" unfolding lg3_def log_inv_fields
    by (rule log_inv_frame [OF 2(3)]) (use 3(3) in \<open>simp_all add: same_blocks_def\<close>)
  have n3: "lh_n lg3 = 1"
    using log_invD(1,2,3) [OF 2(3)] arg_cong [OF l2, of length]
    by (simp add: lg3_def logged_def log_shape_def)
  obtain s4 where 4: "commit pid lg3 s3 = Ok (lg3\<lparr>lh_n := 0\<rparr>, s4)" "idle s4" "log_inv (lg3\<lparr>lh_n := 0\<rparr>) s4"
    "\<forall>b. home lg3 (disksize s3) b \<longrightarrow> disk s4 b = view s3 b" "disksize s4 = disksize s3"
    "wrotes s3 (commit_trace lg3 (view s3) (disk s3 (l_start lg3))) s4"
    by (rule commit_installs [OF 3(2) li3]) (simp_all add: n3 NBUF_eq)
  let ?lg = "lg3\<lparr>lh_n := 0, l_committing := False\<rparr>"
  have "begin_op lg = Ok lg1"
    using assms(3-5) by (simp add: begin_op_def lg1_def LOGSIZE_def MAXOPBLOCKS_def)
  moreover have "end_op pid lg2 s3 = Ok (?lg, s4)"
    using 4(1) 2(8,9) assms(5) by (simp add: end_op_def Let_def lg3_def lg1_def)
  moreover have "log_inv ?lg s4" using 4(3) by simp
  moreover have "disksize s3 = disksize s" "view s3 = (view s)(b := d)"
    using 3(3) md(3,9) sd(4,8) 1(6) by (simp_all add: same_blocks_def)
  moreover have "home lg3 z c = home lg z c" for z c
    using 2(5,6) by (simp add: home_def lg3_def lg1_def)
  ultimately show ?thesis using 1(1) 2(1) 3(1) 4(4)
    by (intro exI [of _ lg1] exI [of _ i] exI [of _ s1] exI [of _ lg2] exI [of _ s2] exI [of _ s3]
      exI [of _ ?lg] exI [of _ s4]) simp
qed

text \<open>The log as initlog() finds it on a fresh disk of src/mkfs.c.\<close>

definition mkfs_log :: logstate where
  "mkfs_log = boot_log\<lparr>l_start := 2, l_size := LOGSIZE, l_dev := 1\<rparr>"


end
