(* ===== verification/Txn.thy ===== *)
theory Txn
  imports Log
begin

text \<open>
  The contract the file system has with the buffer cache and the log: a
  transactional block store.

  \<open>blk\<close> is the content of every block as the cache shows it, \<open>hold\<close> the
  blocks whose buffers the thread has locked, \<open>tlog\<close> the blocks of the
  running transaction and \<open>touched\<close> the locked blocks whose data was changed
  and not logged since.  A buffer is named by its block number.  Releasing a
  touched block is refused: with the real cache such a change would neither be
  on disk nor be safe from eviction.  The simulation lemmas show that bread(),
  brelse(), log_write() and writes to \<open>b->data\<close> implement this store.
\<close>

section \<open>Specification\<close>

record txn =
  blk :: "nat \<Rightarrow> block"
  hold :: "nat list"
  touched :: "nat list"
  tlog :: "nat list"
  tcap :: nat     \<comment> \<open>blocks a transaction may have\<close>
  topen :: bool   \<comment> \<open>\<open>log.outstanding\<close> is positive\<close>
  tdsz :: nat     \<comment> \<open>number of blocks of the disk\<close>

definition tbread :: "nat \<Rightarrow> nat \<Rightarrow> 'a txn_scheme \<Rightarrow> 'a txn_scheme result" where
  "tbread dev b t =
     (if b \<in> set (hold t) then Blocks ''sleeplock''
      else if dev \<noteq> 1 then Panic ''iderw: request not for disk 1''
      else if tdsz t \<le> b then Panic ''iderw: block out of range''
      else Ok (t\<lparr>hold := b # hold t\<rparr>))"

definition tput :: "nat \<Rightarrow> block \<Rightarrow> 'a txn_scheme \<Rightarrow> 'a txn_scheme" where
  "tput b d t = t\<lparr>blk := (blk t)(b := d), touched := b # touched t\<rparr>"

definition tlog_write :: "nat \<Rightarrow> 'a txn_scheme \<Rightarrow> 'a txn_scheme result" where
  "tlog_write b t =
     (if tcap t \<le> length (tlog t) then Panic ''too big a transaction''
      else if \<not> topen t then Panic ''log_write outside of trans''
      else Ok (t\<lparr>tlog := (if b \<in> set (tlog t) then tlog t else tlog t @ [b]),
                 touched := removeAll b (touched t)\<rparr>))"

definition tbrelse :: "nat \<Rightarrow> 'a txn_scheme \<Rightarrow> 'a txn_scheme result" where
  "tbrelse b t =
     (if b \<notin> set (hold t) then Panic ''brelse''
      else if b \<in> set (touched t) then Panic ''brelse of an unlogged write''
      else Ok (t\<lparr>hold := removeAll b (hold t)\<rparr>))"

text \<open>
  begin_op() and end_op() of an operation that runs alone: the transaction is
  the operation's, and end_op() commits it.
\<close>

definition tbegin_op :: "'a txn_scheme \<Rightarrow> 'a txn_scheme" where
  "tbegin_op t = t\<lparr>topen := True\<rparr>"

definition tend_op :: "'a txn_scheme \<Rightarrow> 'a txn_scheme" where
  "tend_op t = t\<lparr>topen := False, tlog := []\<rparr>"

section \<open>The cache and the log implement it\<close>

definition tsim :: "logstate \<Rightarrow> bstate \<Rightarrow> txn \<Rightarrow> bool" where
  "tsim lg s t \<longleftrightarrow> bcache_inv s \<and> calm s \<and> log_inv lg s \<and> blk t = view s \<and>
     held s = (\<lambda>b. b \<in> set (hold t)) \<and> tlog t = logged lg \<and>
     tcap t = min LOGSIZE (l_size lg - 1) \<and> (topen t \<longleftrightarrow> 1 \<le> l_outstanding lg) \<and>
     tdsz t = disksize s \<and>
     (\<forall>b\<in>set (hold t). b \<in> set (touched t) \<or> dirty s b \<or> view s b = disk s b)"

lemma tsim_view: "tsim lg s t \<Longrightarrow> view s = blk t"
  by (simp add: tsim_def)

lemma tsim_bread:
  assumes "tsim lg s t" "tbread 1 b t = Ok t'" "b \<in> busy s \<or> card (busy s) < NBUF"
  obtains i s' where "bread pid 1 b s = Ok (i, s')" "tsim lg s' t'" "locked_buf s' i b"
    "b_data (bufs s' i) = blk t b" "others_kept s i s'" "busy s' = insert b (busy s)"
proof -
  note m = assms(1) [unfolded tsim_def]
  have b: "b < disksize s" "\<not> held s b" "t' = t\<lparr>hold := b # hold t\<rparr>"
    using assms(2) m by (auto simp: tbread_def split: if_splits)
  obtain i s' where
    1: "bread pid 1 b s = Ok (i, s')" "bcache_inv s'" "calm s'" "locked_buf s' i b"
    "b_data (bufs s' i) = view s b" "same_blocks s s'" "held s' = (held s)(b := True)"
    "busy s' = insert b (busy s)" "others_kept s i s'" "\<not> sl_locked (b_lock (bufs s i))"
    by (rule bread_calm [OF _ _ b(1,2) assms(3)]) (use m in auto)
  have "log_inv lg s'" by (rule log_inv_frame) (use m 1(6) in \<open>auto simp: same_blocks_def\<close>)
  moreover have "dirty s b \<or> view s b = disk s b" using clean_view [of s b] m b(2) by blast
  ultimately have "tsim lg s' t'"
    using m 1(2,3,6,7) b(3) by (auto simp: tsim_def same_blocks_def fun_eq_iff)
  then show ?thesis using that [OF 1(1) _ 1(4) _ 1(9,8)] 1(5) m by simp
qed

lemma tsim_put:
  assumes "tsim lg s t" "locked_buf s i b" "length d = BSIZE"
  shows "tsim lg (set_data i d s) (tput b d t)"
proof -
  note m = assms(1) [unfolded tsim_def]
  have inv: "bcache_inv s" using m by simp
  note sd = set_data_ok [OF inv assms(2,3)]
  have "log_inv lg (set_data i d s)" by (rule log_inv_frame) (use m sd in auto)
  then show ?thesis using m sd by (auto simp: tsim_def tput_def)
qed

lemma tsim_log_write:
  assumes "tsim lg s t" "locked_buf s i b" "tlog_write b t = Ok t'" "home lg (disksize s) b"
  obtains lg' s' where "log_write i lg s = Ok (lg', s')" "tsim lg' s' t'" "locked_buf s' i b"
    "others_kept s i s'"
proof -
  note m = assms(1) [unfolded tsim_def]
  have inv: "log_inv lg s" "bcache_inv s" using m by auto
  have n: "length (logged lg) = nat (lh_n lg)"
    using log_invD(1,3) [OF inv(1)] by (simp add: logged_def log_shape_def)
  have g: "length (tlog t) < tcap t" "topen t"
    and t': "t' = t\<lparr>tlog := (if b \<in> set (tlog t) then tlog t else tlog t @ [b]), touched := removeAll b (touched t)\<rparr>"
    using assms(3) by (auto simp: tlog_write_def split: if_splits)
  obtain lg' s' where 1: "log_write i lg s = Ok (lg', s')" "s' = upd_buf i (b_dirty_update (\<lambda>_. True)) s"
    "log_inv lg' s'" "logged lg' = (if b \<in> set (logged lg) then logged lg else logged lg @ [b])"
    "l_start lg' = l_start lg" "l_size lg' = l_size lg" "l_dev lg' = l_dev lg"
    "l_outstanding lg' = l_outstanding lg" "l_committing lg' = l_committing lg"
    by (rule log_write_ok [OF inv _ _ _ assms(2,4)]) (use g m n in auto)
  note md = mark_dirty [OF inv(2) assms(2) 1(2)]
  have "tsim lg' s' t'" using m md 1(3,4,6,8) by (auto simp: tsim_def t')
  then show ?thesis using that [OF 1(1) _ md(2,7)] by blast
qed

lemma tsim_brelse:
  assumes "tsim lg s t" "locked_buf s i b" "tbrelse b t = Ok t'"
  obtains s' where "brelse i s = Ok s'" "tsim lg s' t'" "others_kept s i s'"
proof -
  note m = assms(1) [unfolded tsim_def]
  have inv: "bcache_inv s" using m by simp
  have t': "t' = t\<lparr>hold := removeAll b (hold t)\<rparr>" "b \<notin> set (touched t)" "b \<in> set (hold t)"
    using assms(3) by (auto simp: tbrelse_def split: if_splits)
  then have "dirty s b \<or> view s b = disk s b" using m by auto
  from brelse_ok [OF inv assms(2) this] m obtain s' where
    1: "brelse i s = Ok s'" "bcache_inv s'" "same_blocks s s'" "held s' = (held s)(b := False)"
    "calm s'" "others_kept s i s'" by auto
  have "log_inv lg s'" by (rule log_inv_frame) (use m 1(3) in \<open>auto simp: same_blocks_def\<close>)
  then have "tsim lg s' t'" using m 1(2-5) by (auto simp: tsim_def t' same_blocks_def fun_eq_iff)
  then show ?thesis using that 1(1,6) by blast
qed

section \<open>Property\<close>

text \<open>
  C3: The buffer cache and the log implement the transactional store.  Whenever
  the store can read a block, replace its data, log it and release it, the
  sequence bread(), an update of \<open>b->data\<close>, log_write() and brelse() on a
  related cache and log succeeds (provided a buffer is free or the block
  cached, and the block lies outside the log) and ends in a related state.
\<close>

theorem txn_modify_refines:
  assumes "tsim lg s t" "tbread 1 b t = Ok t1" "tlog_write b (tput b d t1) = Ok t2" "tbrelse b t2 = Ok t3"
    "b \<in> busy s \<or> card (busy s) < NBUF" "home lg (disksize s) b" "length d = BSIZE"
  shows "\<exists>i s1 lg2 s2 s3. bread pid 1 b s = Ok (i, s1) \<and> b_data (bufs s1 i) = blk t b \<and>
    log_write i lg (set_data i d s1) = Ok (lg2, s2) \<and> brelse i s2 = Ok s3 \<and> tsim lg2 s3 t3"
proof -
  obtain i s1 where 1: "bread pid 1 b s = Ok (i, s1)" "tsim lg s1 t1" "locked_buf s1 i b"
    "b_data (bufs s1 i) = blk t b" "others_kept s i s1" "busy s1 = insert b (busy s)"
    by (rule tsim_bread [OF assms(1,2,5)])
  have "tdsz t1 = tdsz t" using assms(2) by (auto simp: tbread_def split: if_splits)
  then have z: "disksize s1 = disksize s" using 1(2) assms(1) by (simp add: tsim_def)
  note p = tsim_put [OF 1(2,3) assms(7)]
  have inv: "bcache_inv s1" using 1(2) by (simp add: tsim_def)
  note sd = set_data_ok [OF inv 1(3) assms(7)]
  obtain lg2 s2 where 2: "log_write i lg (set_data i d s1) = Ok (lg2, s2)" "tsim lg2 s2 t2"
    "locked_buf s2 i b" "others_kept (set_data i d s1) i s2"
    by (rule tsim_log_write [OF p sd(2) assms(3)]) (use assms(6) z sd(8) in auto)
  obtain s3 where 3: "brelse i s2 = Ok s3" "tsim lg2 s3 t3" "others_kept s2 i s3"
    by (rule tsim_brelse [OF 2(2,3) assms(4)])
  show ?thesis using 1(1,4) 2(1) 3(1,2) by blast
qed

text \<open>The store that corresponds to the demonstration disk of the log theory.\<close>

definition demo_txn :: txn where
  "demo_txn = \<lparr>blk = demo_disk, hold = [], touched = [], tlog = [], tcap = 3, topen = True, tdsz = 20\<rparr>"

lemma demo_tsim:
  "tsim (demo_log\<lparr>lh_n := 0, l_outstanding := 1\<rparr>) (binit (boot_bcache demo_disk 20)) demo_txn"
proof -
  let ?s = "binit (boot_bcache demo_disk 20)"
  have "idle ?s" by (rule boot_idle) (simp add: demo_disk_length)
  moreover have d: "disk ?s = demo_disk" "disksize ?s = 20" by (simp_all add: boot_bcache_def)
  moreover have "log_inv (demo_log\<lparr>lh_n := 0, l_outstanding := 1\<rparr>) ?s"
    unfolding log_inv_logged boot_attrs d using demo_head
    by (simp add: log_shape_def logged_def demo_log_def LOGSIZE_eq)
  ultimately show ?thesis
    by (simp add: tsim_def idle_def boot_attrs demo_txn_def logged_def demo_log_def LOGSIZE_eq)
qed

theorem txn_modify_refines_witness:
  "\<exists>i s1 lg2 s2 s3. bread 1 1 9 (binit (boot_bcache demo_disk 20)) = Ok (i, s1) \<and>
    log_write i (demo_log\<lparr>lh_n := 0, l_outstanding := 1\<rparr>) (set_data i (replicate BSIZE 5) s1) = Ok (lg2, s2) \<and>
    brelse i s2 = Ok s3 \<and> view s3 9 = replicate BSIZE 5"
proof -
  let ?s = "binit (boot_bcache demo_disk 20)" and ?lg = "demo_log\<lparr>lh_n := 0, l_outstanding := 1\<rparr>"
  let ?t1 = "demo_txn\<lparr>hold := [9]\<rparr>" and ?d = "replicate BSIZE 5"
  let ?t2 = "(tput 9 ?d ?t1)\<lparr>tlog := [9], touched := []\<rparr>"
  have "busy ?s = {}" by (simp add: busy_def boot_attrs)
  then have c: "9 \<in> busy ?s \<or> card (busy ?s) < NBUF" by (simp add: NBUF_eq)
  have "tbread 1 9 demo_txn = Ok ?t1" by (simp add: tbread_def demo_txn_def)
  moreover have "tlog_write 9 (tput 9 ?d ?t1) = Ok ?t2"
    by (simp add: tlog_write_def tput_def demo_txn_def)
  moreover have "tbrelse 9 ?t2 = Ok (?t2\<lparr>hold := []\<rparr>)" by (simp add: tbrelse_def tput_def)
  moreover have "home ?lg (disksize ?s) 9" by (simp add: home_def demo_log_def boot_bcache_def)
  ultimately obtain i s1 lg2 s2 s3 where "bread 1 1 9 ?s = Ok (i, s1)"
    "log_write i ?lg (set_data i ?d s1) = Ok (lg2, s2)" "brelse i s2 = Ok s3" "tsim lg2 s3 (?t2\<lparr>hold := []\<rparr>)"
    using txn_modify_refines [OF demo_tsim, of 9 ?t1 ?d ?t2 "?t2\<lparr>hold := []\<rparr>" 1] c by auto
  moreover from this(4) have "view s3 = blk (?t2\<lparr>hold := []\<rparr>)" by (rule tsim_view)
  then have "view s3 9 = ?d" by (simp add: tput_def)
  ultimately show ?thesis by blast
qed

lemma tsim_begin_op:
  assumes "tsim lg s t" "tlog t = []" "l_outstanding lg = 0" "\<not> l_committing lg"
  shows "begin_op lg = Ok (lg\<lparr>l_outstanding := 1\<rparr>)" "tsim (lg\<lparr>l_outstanding := 1\<rparr>) s (tbegin_op t)"
proof -
  note m = assms(1) [unfolded tsim_def]
  have inv: "log_inv lg s" and "logged lg = []" using m assms(2) by auto
  then have "lh_n lg = 0" using log_invD(1,2,3) [OF inv]
    by (auto simp: logged_def log_shape_def LOGSIZE_eq)
  then show "begin_op lg = Ok (lg\<lparr>l_outstanding := 1\<rparr>)"
    using assms(3,4) by (simp add: begin_op_def LOGSIZE_def MAXOPBLOCKS_def)
  show "tsim (lg\<lparr>l_outstanding := 1\<rparr>) s (tbegin_op t)"
    using m by (simp add: tsim_def tbegin_op_def)
qed

text \<open>
  Committing may only change the blocks of the log itself, which no client of
  the store reads.
\<close>

lemma tsim_end_op:
  assumes "tsim lg s t" "hold t = []" "l_outstanding lg = 1" "\<not> l_committing lg" "length (tlog t) < NBUF"
  obtains lg' s' where "end_op pid lg s = Ok (lg', s')" "tsim lg' s' ((tend_op t)\<lparr>blk := view s'\<rparr>)"
    "\<forall>b. home lg (disksize s) b \<longrightarrow> view s' b = blk t b \<and> disk s' b = blk t b"
    "l_outstanding lg' = 0" "\<not> l_committing lg'"
proof -
  note m = assms(1) [unfolded tsim_def]
  have inv: "log_inv lg s" "bcache_inv s" "held s = (\<lambda>_. False)" and id: "idle s"
    using m assms(2) by (auto simp: idle_def)
  define lg1 where "lg1 = lg\<lparr>l_outstanding := 0, l_committing := True\<rparr>"
  have li: "log_inv lg1 s" "logged lg1 = logged lg" "\<And>b. home lg1 (disksize s) b = home lg (disksize s) b"
    using inv(1) by (simp_all add: lg1_def)
  have n: "length (logged lg) = nat (lh_n lg)"
    using log_invD(1,3) [OF inv(1)] by (simp add: logged_def log_shape_def)
  have e: "end_op pid lg s = bind_r (commit pid lg1 s) (\<lambda>(lg, s). Ok (lg\<lparr>l_committing := False\<rparr>, s))"
    using assms(3,4) by (simp add: end_op_def lg1_def)
  show ?thesis
  proof (cases "0 < lh_n lg")
    case True
    then have pre: "0 < lh_n lg1" "nat (lh_n lg1) < NBUF" using n assms(5) m by (simp_all add: lg1_def)
    obtain s' where c: "commit pid lg1 s = Ok (lg1\<lparr>lh_n := 0\<rparr>, s')" "idle s'" "log_inv (lg1\<lparr>lh_n := 0\<rparr>) s'"
      "\<forall>b. home lg1 (disksize s) b \<longrightarrow> disk s' b = view s b" "disksize s' = disksize s"
      "wrotes s (commit_trace lg1 (view s) (disk s (l_start lg1))) s'"
      by (rule commit_installs [OF id li(1) pre])
    have cl: "dirty s' = (\<lambda>_. False)" using c(3) by (simp add: log_inv_logged logged_def)
    have v: "view s' b = disk s' b" for b
      by (rule clean_view) (use c(2) cl in \<open>auto simp: idle_def\<close>)
    show ?thesis
    proof (rule that)
      show "end_op pid lg s = Ok (lg1\<lparr>lh_n := 0, l_committing := False\<rparr>, s')" using e c(1) by simp
      show "tsim (lg1\<lparr>lh_n := 0, l_committing := False\<rparr>) s' ((tend_op t)\<lparr>blk := view s'\<rparr>)"
        using c(2,5) m assms(2) log_inv_fields(2) [where lg = "lg1\<lparr>lh_n := 0\<rparr>" and c = False] c(3)
        by (simp add: tsim_def tend_op_def idle_def logged_def lg1_def)
      show "\<forall>b. home lg (disksize s) b \<longrightarrow> view s' b = blk t b \<and> disk s' b = blk t b"
        using c(4) li(3) v m by auto
    qed (simp_all add: lg1_def)
  next
    case False
    then have "logged lg = []" using n by simp
    then have cl: "dirty s = (\<lambda>_. False)" using inv(1) by (simp add: log_inv_logged)
    have v: "view s b = disk s b" for b by (rule clean_view) (use inv cl in auto)
    show ?thesis
    proof (rule that)
      show "end_op pid lg s = Ok (lg1\<lparr>l_committing := False\<rparr>, s)" using e False by (simp add: commit_def lg1_def)
      show "tsim (lg1\<lparr>l_committing := False\<rparr>) s ((tend_op t)\<lparr>blk := view s\<rparr>)"
        using m assms(2) \<open>logged lg = []\<close> by (simp add: tsim_def tend_op_def lg1_def)
      show "\<forall>b. home lg (disksize s) b \<longrightarrow> view s b = blk t b \<and> disk s b = blk t b" using v m by auto
    qed (simp_all add: lg1_def)
  qed
qed



end
