(* ===== verification/Kstring.thy ===== *)
theory Kstring
  imports Prelude
begin

text \<open>
  src/string.c, the kernel's byte and string routines, over an explicit byte
  memory indexed by 64-bit addresses.  Pointer arithmetic wraps at 64 bits; the
  \<open>while(n-- > 0)\<close> loops run \<open>n\<close> times, so they recurse on the
  count.  The last section relates the pointer routines to functions on byte
  lists, which the file system theories use for names.
\<close>

section \<open>Model\<close>

type_synonym memory = "u64 \<Rightarrow> u8"

text \<open>The x86 string stores of src/x86.h: \<open>rep stosb\<close>, \<open>rep stosl\<close>.\<close>

fun stosb :: "memory \<Rightarrow> u64 \<Rightarrow> u8 \<Rightarrow> nat \<Rightarrow> memory" where
  "stosb m a c 0 = m"
| "stosb m a c (Suc n) = stosb (m(a := c)) (a + 1) c n"

definition store32 :: "memory \<Rightarrow> u64 \<Rightarrow> u32 \<Rightarrow> memory" where
  "store32 m a v = m(a := ucast v, a + 1 := ucast (drop_bit 8 v),
     a + 2 := ucast (drop_bit 16 v), a + 3 := ucast (drop_bit 24 v))"

fun stosl :: "memory \<Rightarrow> u64 \<Rightarrow> u32 \<Rightarrow> nat \<Rightarrow> memory" where
  "stosl m a v 0 = m"
| "stosl m a v (Suc n) = stosl (store32 m a v) (a + 4) v n"

unbundle bit_operations_syntax

text \<open>
  memset: the count is a \<open>uint64\<close> in src/string.c; stosl and stosb take it
  as an \<open>int\<close>, which is \<open>rep\<close>'s counter register zero-extended.
\<close>

definition memset :: "memory \<Rightarrow> u64 \<Rightarrow> u32 \<Rightarrow> u64 \<Rightarrow> memory" where
  "memset m dst c n =
     (if dst mod 4 = 0 \<and> n mod 4 = 0 then
        (let c = c AND 0xFF in
         stosl m dst (push_bit 24 c OR push_bit 16 c OR push_bit 8 c OR c)
           (unat (ucast (n div 4) :: u32)))
      else stosb m dst (ucast c) (unat (ucast n :: u32)))"

fun memcmp_loop :: "memory \<Rightarrow> u64 \<Rightarrow> u64 \<Rightarrow> nat \<Rightarrow> int" where
  "memcmp_loop m s1 s2 0 = 0"
| "memcmp_loop m s1 s2 (Suc n) =
     (if m s1 \<noteq> m s2 then uint (m s1) - uint (m s2)
      else memcmp_loop m (s1 + 1) (s2 + 1) n)"

definition memcmp :: "memory \<Rightarrow> u64 \<Rightarrow> u64 \<Rightarrow> u32 \<Rightarrow> int" where
  "memcmp m v1 v2 n = memcmp_loop m v1 v2 (unat n)"

text \<open>memmove: \<open>*--d = *--s\<close> from the top when the ranges overlap, else \<open>*d++ = *s++\<close>.\<close>

fun copy_down :: "memory \<Rightarrow> u64 \<Rightarrow> u64 \<Rightarrow> nat \<Rightarrow> memory" where
  "copy_down m d s 0 = m"
| "copy_down m d s (Suc n) = copy_down (m(d - 1 := m (s - 1))) (d - 1) (s - 1) n"

fun copy_up :: "memory \<Rightarrow> u64 \<Rightarrow> u64 \<Rightarrow> nat \<Rightarrow> memory" where
  "copy_up m d s 0 = m"
| "copy_up m d s (Suc n) = copy_up (m(d := m s)) (d + 1) (s + 1) n"

definition memmove :: "memory \<Rightarrow> u64 \<Rightarrow> u64 \<Rightarrow> u32 \<Rightarrow> memory" where
  "memmove m dst src n =
     (if src < dst \<and> src + ucast n > dst
      then copy_down m (dst + ucast n) (src + ucast n) (unat n)
      else copy_up m dst src (unat n))"

definition memcpy :: "memory \<Rightarrow> u64 \<Rightarrow> u64 \<Rightarrow> u32 \<Rightarrow> memory" where
  "memcpy m dst src n = memmove m dst src n"

fun strncmp_loop :: "memory \<Rightarrow> u64 \<Rightarrow> u64 \<Rightarrow> nat \<Rightarrow> int" where
  "strncmp_loop m p q 0 = 0"
| "strncmp_loop m p q (Suc n) =
     (if m p \<noteq> 0 \<and> m p = m q then strncmp_loop m (p + 1) (q + 1) n
      else uint (m p) - uint (m q))"

definition strncmp :: "memory \<Rightarrow> u64 \<Rightarrow> u64 \<Rightarrow> u32 \<Rightarrow> int" where
  "strncmp m p q n = strncmp_loop m p q (unat n)"

text \<open>
  strncpy: the first loop copies up to and including the terminator, and the
  second fills what is left of the count with zeros.  A count that is not
  positive (\<open>int n\<close>) copies nothing.
\<close>

fun strncpy_loop :: "memory \<Rightarrow> u64 \<Rightarrow> u64 \<Rightarrow> nat \<Rightarrow> memory" where
  "strncpy_loop m s t 0 = m"
| "strncpy_loop m s t (Suc n) =
     (let m' = m(s := m t) in
      if m t \<noteq> 0 then strncpy_loop m' (s + 1) (t + 1) n else stosb m' (s + 1) 0 n)"

definition strncpy :: "memory \<Rightarrow> u64 \<Rightarrow> u64 \<Rightarrow> int \<Rightarrow> memory" where
  "strncpy m s t n = strncpy_loop m s t (nat n)"

fun safestrcpy_loop :: "memory \<Rightarrow> u64 \<Rightarrow> u64 \<Rightarrow> nat \<Rightarrow> memory \<times> u64" where
  "safestrcpy_loop m s t 0 = (m, s)"
| "safestrcpy_loop m s t (Suc n) =
     (let m' = m(s := m t) in
      if m t \<noteq> 0 then safestrcpy_loop m' (s + 1) (t + 1) n else (m', s + 1))"

definition safestrcpy :: "memory \<Rightarrow> u64 \<Rightarrow> u64 \<Rightarrow> int \<Rightarrow> memory" where
  "safestrcpy m s t n =
     (if n \<le> 0 then m
      else (let (m', s') = safestrcpy_loop m s t (nat (n - 1)) in m'(s' := 0)))"

text \<open>strlen counts up to the first zero byte; without one the loop does not end.\<close>

partial_function (option) strlen_from :: "memory \<Rightarrow> u64 \<Rightarrow> u32 \<Rightarrow> u32 option" where
  "strlen_from m s n = (if m (s + scast n) = 0 then Some n else strlen_from m s (n + 1))"

definition strlen :: "memory \<Rightarrow> u64 \<Rightarrow> u32 option" where
  "strlen m s = strlen_from m s 0"

text \<open>
  What the routines compute, said without loops: the C string at an address
  (at most \<open>n\<close> bytes of it), and a byte list stored at an address.
\<close>

fun cstr :: "memory \<Rightarrow> u64 \<Rightarrow> nat \<Rightarrow> u8 list" where
  "cstr m p 0 = []"
| "cstr m p (Suc n) = (if m p = 0 then [] else m p # cstr m (p + 1) n)"

definition bytes_at :: "memory \<Rightarrow> u64 \<Rightarrow> u8 list \<Rightarrow> bool" where
  "bytes_at m p bs \<longleftrightarrow> (\<forall>k < length bs. m (p + of_nat k) = bs ! k)"

definition cname :: "nat \<Rightarrow> u8 list \<Rightarrow> u8 list" where
  "cname n bs = takeWhile (\<lambda>b. b \<noteq> 0) (take n bs)"

section \<open>Fills and copies\<close>

lemma unat_minus_one_64: "unat (- 1 :: u64) = 2 ^ 64 - 1"
  by (simp add: unsigned_minus_1_eq_mask mask_eq_exp_minus_1)

lemma word_offset_Suc:
  fixes x d :: u64
  assumes "n < 2 ^ 64 - 1"
  shows "unat (x - (d + 1)) < n \<longleftrightarrow> x \<noteq> d \<and> unat (x - d) < Suc n"
proof (cases "x = d")
  case True
  then show ?thesis using assms by (simp add: unat_minus_one_64)
next
  case False
  then have "unat (x - d - 1) = unat (x - d) - 1" and "0 < unat (x - d)"
    by (auto simp: unat_minus_one unat_gt_0)
  moreover have "x - (d + 1) = x - d - 1" by simp
  ultimately have "unat (x - (d + 1)) = unat (x - d) - 1" by (simp only:)
  then show ?thesis using False \<open>0 < unat (x - d)\<close> by auto
qed

lemma unat_offset_Suc:
  fixes a s :: u64
  assumes "a \<noteq> s"
  shows "unat (a - s) = Suc (unat (a - (s + 1)))"
proof -
  have "0 < unat (a - s)" and "unat (a - s - 1) = unat (a - s) - 1"
    using assms by (auto simp: unat_minus_one unat_gt_0)
  then show ?thesis by (simp add: diff_diff_eq)
qed

lemma stosb_eq:
  assumes "n < 2 ^ 64"
  shows "stosb m a c n = (\<lambda>x. if unat (x - a) < n then c else m x)"
  using assms
proof (induction n arbitrary: m a)
  case (Suc n)
  then show ?case by (auto simp: fun_eq_iff word_offset_Suc)
qed simp

lemma stosb_add: "stosb m a c (k + n) = stosb (stosb m a c k) (a + of_nat k) c n"
  by (induction k arbitrary: m a) (simp_all add: algebra_simps)

lemma store32_fill:
  assumes "ucast v = c" "ucast (drop_bit 8 v) = c" "ucast (drop_bit 16 v) = c"
    "ucast (drop_bit 24 v) = (c :: u8)"
  shows "store32 m a v = stosb m a c 4"
  using assms by (simp add: store32_def numeral_eq_Suc add.assoc)

lemma stosl_fill:
  assumes "\<And>m a. store32 m a v = stosb m a c 4"
  shows "stosl m a v n = stosb m a c (4 * n)"
proof (induction n arbitrary: m a)
  case (Suc n)
  have "stosb m a c (4 * Suc n) = stosb m a c (4 + 4 * n)"
    by simp
  also have "\<dots> = stosb (stosb m a c 4) (a + 4) c (4 * n)"
    by (subst stosb_add) simp
  finally show ?case using Suc assms by simp
qed simp

lemma splat_byte:
  fixes c :: u32
  defines "v \<equiv> push_bit 24 (c AND 0xFF) OR push_bit 16 (c AND 0xFF) OR push_bit 8 (c AND 0xFF)
    OR (c AND 0xFF)"
  shows "ucast v = (ucast c :: u8)" "ucast (drop_bit 8 v) = (ucast c :: u8)"
    "ucast (drop_bit 16 v) = (ucast c :: u8)" "ucast (drop_bit 24 v) = (ucast c :: u8)"
proof -
  have ff: "(0xFF :: u32) = mask 8" by (simp add: mask_eq_exp_minus_1)
  show "ucast v = (ucast c :: u8)" "ucast (drop_bit 8 v) = (ucast c :: u8)"
    "ucast (drop_bit 16 v) = (ucast c :: u8)" "ucast (drop_bit 24 v) = (ucast c :: u8)"
    unfolding v_def ff by (auto intro!: bit_word_eqI simp: bit_simps)
qed

lemma copy_up_eq:
  assumes "n < 2 ^ 64" and "\<And>i j. i < j \<Longrightarrow> j < n \<Longrightarrow> s + of_nat j \<noteq> d + of_nat i"
  shows "copy_up m d s n = (\<lambda>a. if unat (a - d) < n then m (s + (a - d)) else m a)"
  using assms
proof (induction n arbitrary: m d s)
  case (Suc n)
  have "s + 1 + of_nat j \<noteq> d + 1 + of_nat i" if "i < j" "j < n" for i j
    using Suc.prems(2)[of "Suc i" "Suc j"] that by (simp add: algebra_simps)
  then have IH: "copy_up m' (d + 1) (s + 1) n =
      (\<lambda>a. if unat (a - (d + 1)) < n then m' (s + 1 + (a - (d + 1))) else m' a)" for m'
    using Suc.prems(1) by (intro Suc.IH) auto
  have read: "s + (a - d) \<noteq> d" if "a \<noteq> d" "unat (a - d) < Suc n" for a
    using Suc.prems(2)[of 0 "unat (a - d)"] that by (simp add: unat_gt_0)
  show ?case
  proof
    fix a
    show "copy_up m d s (Suc n) a = (if unat (a - d) < Suc n then m (s + (a - d)) else m a)"
      using Suc.prems(1) read[of a] by (cases "a = d") (simp_all add: IH word_offset_Suc)
  qed
qed simp

lemma copy_down_eq:
  assumes "n < 2 ^ 64" and "\<And>i j. j < i \<Longrightarrow> i < n \<Longrightarrow> s + of_nat j \<noteq> d + of_nat i"
  shows "copy_down m (d + of_nat n) (s + of_nat n) n =
    (\<lambda>a. if unat (a - d) < n then m (s + (a - d)) else m a)"
  using assms
proof (induction n arbitrary: m)
  case (Suc n)
  have top: "unat (a - d) = n \<longleftrightarrow> a = d + of_nat n" for a
  proof
    assume "unat (a - d) = n"
    then have "(of_nat (unat (a - d)) :: u64) = of_nat n" by (simp only:)
    then show "a = d + of_nat n" by (simp add: algebra_simps)
  next
    assume "a = d + of_nat n"
    then show "unat (a - d) = n" using Suc.prems(1) by (simp add: unat_of_nat)
  qed
  have read: "s + (a - d) \<noteq> d + of_nat n" if "unat (a - d) < n" for a
    using Suc.prems(2)[of "unat (a - d)" n] that by simp
  have "copy_down m (d + of_nat (Suc n)) (s + of_nat (Suc n)) (Suc n) =
      copy_down (m(d + of_nat n := m (s + of_nat n))) (d + of_nat n) (s + of_nat n) n"
    by simp
  also have "\<dots> = (\<lambda>a. if unat (a - d) < n then (m(d + of_nat n := m (s + of_nat n))) (s + (a - d))
      else (m(d + of_nat n := m (s + of_nat n))) a)"
    using Suc.prems by (intro Suc.IH) auto
  also have "\<dots> = (\<lambda>a. if unat (a - d) < Suc n then m (s + (a - d)) else m a)"
    using read top by (auto simp: fun_eq_iff less_Suc_eq)
  finally show ?case .
qed simp

lemma of_nat_add_eq_iff:
  fixes s d :: u64
  assumes "unat s + i < 2 ^ 64" "unat d + j < 2 ^ 64"
  shows "s + of_nat i = d + of_nat j \<longleftrightarrow> unat s + i = unat d + j"
proof -
  have "unat (s + of_nat i) = unat s + i" "unat (d + of_nat j) = unat d + j"
    using assms by (simp_all add: unat_word_ariths unat_of_nat)
  then show ?thesis by (metis word_unat_eq_iff)
qed

lemma unat_less_32: "unat (n :: u32) < 2 ^ 32"
  using unsigned_less[of n] by simp

lemma unat_ucast_32_64: "unat (ucast (n :: u32) :: u64) = unat n"
  using unat_less_32[of n] by (simp add: unsigned_ucast_eq take_bit_nat_eq_self_iff)

lemma ucast_32_64_of_nat: "(ucast (n :: u32) :: u64) = of_nat (unat n)"
  by simp

lemma scast_of_nat_31:
  assumes "i < 2 ^ 31"
  shows "(scast (of_nat i :: u32) :: u64) = of_nat i"
proof -
  have "sint (of_nat i :: u32) = int i"
    using assms by (simp add: sint_uint uint_nat unat_of_nat signed_take_bit_int_eq_self)
  then show ?thesis by (simp add: scast_eq)
qed

section \<open>Strings\<close>

lemma strncmp_loop_0_iff: "strncmp_loop m p q n = 0 \<longleftrightarrow> cstr m p n = cstr m q n"
  by (induction n arbitrary: p q) (auto simp: word_uint_eq_iff)

lemma memcmp_loop_0_iff:
  "memcmp_loop m p q n = 0 \<longleftrightarrow> (\<forall>k<n. m (p + of_nat k) = m (q + of_nat k))"
proof (induction n arbitrary: p q)
  case (Suc n)
  have "(\<forall>k<Suc n. m (p + of_nat k) = m (q + of_nat k)) \<longleftrightarrow>
      m p = m q \<and> (\<forall>k<n. m (p + 1 + of_nat k) = m (q + 1 + of_nat k))"
    by (auto simp: less_Suc_eq_0_disj add.assoc)
  then show ?case using Suc by (simp add: word_uint_eq_iff)
qed simp

lemma cstr_bytes_at:
  assumes "bytes_at m p bs" and "n \<le> length bs"
  shows "cstr m p n = cname n bs"
  using assms
proof (induction n arbitrary: p bs)
  case (Suc n)
  then obtain b bs' where bs: "bs = b # bs'" by (cases bs) auto
  have "bytes_at m (p + 1) bs'"
    using Suc.prems(1) unfolding bytes_at_def bs by (auto simp: add.assoc dest: spec[of _ "Suc _"])
  moreover have "m p = b"
    using Suc.prems(1) unfolding bytes_at_def bs by (auto dest: spec[of _ 0])
  ultimately show ?case
    using Suc.IH[of "p + 1" bs'] Suc.prems(2) by (simp add: bs cname_def)
qed (simp add: cname_def)

lemma strlen_from_stop:
  assumes "\<forall>k<j. m (s + of_nat (i + k)) \<noteq> 0" and "m (s + of_nat (i + j)) = 0" and "i + j < 2 ^ 31"
  shows "strlen_from m s (of_nat i) = Some (of_nat (i + j))"
  using assms
proof (induction j arbitrary: i)
  case 0
  then show ?case by (subst strlen_from.simps) (simp add: scast_of_nat_31)
next
  case (Suc j)
  then have "m (s + of_nat i) \<noteq> 0" by (auto dest: spec[of _ 0])
  moreover have "strlen_from m s (of_nat (Suc i)) = Some (of_nat (Suc i + j))"
  proof (rule Suc.IH)
    show "\<forall>k<j. m (s + of_nat (Suc i + k)) \<noteq> 0"
    proof (intro allI impI)
      fix k
      assume "k < j"
      then show "m (s + of_nat (Suc i + k)) \<noteq> 0"
        using Suc.prems(1)[rule_format, of "Suc k"] by (simp add: ac_simps)
    qed
  qed (use Suc.prems in auto)
  ultimately show ?case
    using Suc.prems(3) by (subst strlen_from.simps) (simp add: scast_of_nat_31 add.commute)
qed

lemma cstr_frame: "\<forall>k<n. m' (p + of_nat k) = m (p + of_nat k) \<Longrightarrow> cstr m' p n = cstr m p n"
proof (induction n arbitrary: p)
  case (Suc n)
  have "m' (p + 1 + of_nat k) = m (p + 1 + of_nat k)" if "k < n" for k
    using Suc.prems[rule_format, of "Suc k"] that by (simp add: add.assoc)
  moreover have "m' p = m p"
    using Suc.prems[rule_format, of 0] by simp
  ultimately show ?case using Suc.IH[of "p + 1"] by simp
qed simp

lemma length_cstr: "length (cstr m p n) \<le> n"
  by (induction n arbitrary: p) (auto simp: le_SucI)

lemma cstr_nonzero: "0 \<notin> set (cstr m p n)"
  by (induction n arbitrary: p) auto

lemma cname_pad: "cname n (take n (cstr m t n @ replicate n 0)) = cstr m t n"
proof -
  let ?c = "cstr m t n"
  have "take n (?c @ replicate n 0) = ?c @ replicate (n - length ?c) 0"
    using length_cstr[of m t n] by (simp add: min_def)
  moreover have "takeWhile (\<lambda>b. b \<noteq> 0) (?c @ replicate k 0) = ?c" for k
    using cstr_nonzero[of m t n] by (subst takeWhile_append2) auto
  ultimately show ?thesis by (simp add: cname_def)
qed

lemma unat_of_int_31:
  assumes "0 \<le> n" "n < 2 ^ 31"
  shows "unat (of_int n :: u32) = nat n"
  using assms by (simp add: unat_eq_nat_uint uint_word_of_int take_bit_int_eq_self)

lemma strncpy_loop_eq:
  assumes "n < 2 ^ 64" and "\<And>i j. i < n \<Longrightarrow> j < n \<Longrightarrow> s + of_nat i \<noteq> t + of_nat j"
  shows "strncpy_loop m s t n =
    (\<lambda>a. if unat (a - s) < n
         then (if unat (a - s) < length (cstr m t n) then cstr m t n ! unat (a - s) else 0)
         else m a)"
  using assms
proof (induction n arbitrary: m s t)
  case (Suc n)
  let ?m = "m(s := m t)"
  have apart: "s + 1 + of_nat i \<noteq> t + 1 + of_nat j" if "i < n" "j < n" for i j
    using Suc.prems(2)[of "Suc i" "Suc j"] that by (simp add: algebra_simps)
  have "t + 1 + of_nat k \<noteq> s" if "k < n" for k
    using Suc.prems(2)[of 0 "Suc k"] that by (simp add: algebra_simps)
  then have src: "cstr ?m (t + 1) n = cstr m (t + 1) n"
    by (intro cstr_frame) auto
  have IH: "strncpy_loop ?m (s + 1) (t + 1) n =
      (\<lambda>a. if unat (a - (s + 1)) < n
         then (if unat (a - (s + 1)) < length (cstr m (t + 1) n)
           then cstr m (t + 1) n ! unat (a - (s + 1)) else 0)
         else ?m a)"
    unfolding src[symmetric] by (rule Suc.IH[OF _ apart]) (use Suc.prems(1) in auto)
  show ?case
  proof
    fix a
    have step: "a \<noteq> s \<Longrightarrow> unat (a - s) = Suc (unat (a - (s + 1)))"
      by (rule unat_offset_Suc)
    show "strncpy_loop m s t (Suc n) a =
      (if unat (a - s) < Suc n
         then (if unat (a - s) < length (cstr m t (Suc n)) then cstr m t (Suc n) ! unat (a - s) else 0)
         else m a)"
    proof (cases "a = s")
      case True
      then show ?thesis using Suc.prems(1) by (simp add: stosb_eq IH word_offset_Suc)
    next
      case False
      then show ?thesis using Suc.prems(1) by (simp add: stosb_eq IH step)
    qed
  qed
qed simp

section \<open>Properties\<close>

text \<open>
  C11: memmove copies the \<open>n\<close> source bytes to the destination and changes
  nothing else, whether or not the two ranges overlap, as long as neither range
  runs past the end of the address space.
\<close>

theorem memmove_copies:
  assumes "unat src + unat n < 2 ^ 64" and "unat dst + unat n \<le> 2 ^ 64"
  shows "memmove m dst src n = (\<lambda>a. if unat (a - dst) < unat n then m (src + (a - dst)) else m a)"
proof -
  have n: "unat n < 2 ^ 64" using assms(1) by simp
  have eq: "src + of_nat j = dst + of_nat i \<longleftrightarrow> unat src + j = unat dst + i"
    if "i < unat n" "j < unat n" for i j
    using assms that by (intro of_nat_add_eq_iff) auto
  have top: "unat (src + ucast n) = unat src + unat n"
    using assms(1) by (simp add: unat_word_ariths unat_ucast_32_64)
  show ?thesis
  proof (cases "src < dst \<and> src + ucast n > dst")
    case True
    then have "memmove m dst src n =
        copy_down m (dst + of_nat (unat n)) (src + of_nat (unat n)) (unat n)"
      by (simp add: memmove_def)
    also have "\<dots> = (\<lambda>a. if unat (a - dst) < unat n then m (src + (a - dst)) else m a)"
      using True eq n by (intro copy_down_eq) (auto simp: word_less_nat_alt)
    finally show ?thesis .
  next
    case False
    then have "memmove m dst src n = copy_up m dst src (unat n)"
      by (auto simp: memmove_def)
    also have "\<dots> = (\<lambda>a. if unat (a - dst) < unat n then m (src + (a - dst)) else m a)"
      using False eq n top by (intro copy_up_eq) (auto simp: word_less_nat_alt)
    finally show ?thesis .
  qed
qed

theorem memmove_copies_witness:
  "memmove (\<lambda>a. ucast a) 0x1002 0x1000 4 =
     (\<lambda>a. if unat (a - 0x1002) < 4 then ucast (a - 2) else ucast a)"
  using memmove_copies[of "0x1000" 4 "0x1002" "\<lambda>a. ucast a"] by (simp add: fun_eq_iff)

text \<open>
  memset sets exactly the \<open>n\<close> bytes from \<open>dst\<close> to the low byte of
  \<open>c\<close>: the doubleword path taken for aligned ranges writes the same bytes
  as the byte path.
\<close>

theorem memset_fills:
  assumes "unat n < 2 ^ 32"
  shows "memset m dst c n = (\<lambda>a. if unat (a - dst) < unat n then ucast c else m a)"
proof -
  have trunc: "unat (ucast n :: u32) = unat n"
    using assms by (simp add: unsigned_ucast_eq take_bit_nat_eq_self)
  have quarter: "4 * unat (ucast (n div 4) :: u32) = unat n" if "n mod 4 = 0"
  proof -
    have "unat (n div 4) = unat n div 4" "unat (n mod 4) = unat n mod 4"
      by (simp_all add: unat_div unat_mod)
    moreover from this have "unat n mod 4 = 0" using that by simp
    moreover from this have "4 * (unat n div 4) = unat n"
      using mult_div_mod_eq[of 4 "unat n"] by simp
    ultimately show ?thesis using assms by (simp add: unsigned_ucast_eq take_bit_nat_eq_self)
  qed
  show ?thesis
  proof (cases "dst mod 4 = 0 \<and> n mod 4 = 0")
    case True
    show ?thesis
      unfolding memset_def if_P[OF True] Let_def stosl_fill[OF store32_fill[OF splat_byte]]
      using quarter[OF True[THEN conjunct2]] assms by (simp add: stosb_eq)
  next
    case False
    show ?thesis
      unfolding memset_def if_not_P[OF False] trunc using assms by (simp add: stosb_eq)
  qed
qed

text \<open>
  C12: strncpy between two disjoint ranges leaves at the destination the source's
  C string followed by zeros up to the count, changes nothing outside the count,
  and strncmp then finds source and destination equal.
\<close>

theorem strncpy_pads_and_compares:
  assumes "0 \<le> n" and "n < 2 ^ 31"
    and "\<And>i j. i < nat n \<Longrightarrow> j < nat n \<Longrightarrow> s + of_nat i \<noteq> t + of_nat j"
  shows "strncpy m s t n =
      (\<lambda>a. if unat (a - s) < nat n
           then (cstr m t (nat n) @ replicate (nat n) 0) ! unat (a - s) else m a) \<and>
    strncmp (strncpy m s t n) s t (of_int n) = 0"
proof -
  let ?m = "strncpy m s t n" and ?n = "nat n"
  have eq: "?m = (\<lambda>a. if unat (a - s) < ?n
         then (if unat (a - s) < length (cstr m t ?n) then cstr m t ?n ! unat (a - s) else 0)
         else m a)"
    unfolding strncpy_def using assms by (intro strncpy_loop_eq) auto
  then have padded: "?m = (\<lambda>a. if unat (a - s) < ?n
      then (cstr m t ?n @ replicate ?n 0) ! unat (a - s) else m a)"
    by (auto simp: fun_eq_iff nth_append)
  have "unat (t + of_nat k - s) \<ge> ?n" if "k < ?n" for k
  proof (rule ccontr)
    assume "\<not> ?thesis"
    then have "s + of_nat (unat (t + of_nat k - s)) \<noteq> t + of_nat k"
      using assms(3)[of "unat (t + of_nat k - s)" k] that by simp
    then show False by simp
  qed
  then have t: "cstr ?m t ?n = cstr m t ?n"
    by (intro cstr_frame) (auto simp: eq not_le[symmetric])
  have "bytes_at ?m s (take ?n (cstr m t ?n @ replicate ?n 0))"
    using assms(2) by (auto simp: bytes_at_def padded unat_of_nat simp del: take_append)
  then have "cstr ?m s ?n = cname ?n (take ?n (cstr m t ?n @ replicate ?n 0))"
    by (rule cstr_bytes_at) simp
  also have "\<dots> = cstr m t ?n"
    by (rule cname_pad)
  finally have "strncmp_loop ?m s t ?n = 0"
    using t by (simp add: strncmp_loop_0_iff)
  moreover have "unat (of_int n :: u32) = ?n"
    using assms(1,2) by (simp add: unat_of_int_31)
  ultimately show ?thesis using padded by (simp add: strncmp_def)
qed

theorem strncpy_pads_and_compares_witness:
  "strncmp (strncpy (\<lambda>a. if a = 0x2000 then 65 else 0) 0x1000 0x2000 14) 0x1000 0x2000 14 = 0"
proof -
  have "(0x1000 :: u64) + of_nat i \<noteq> 0x2000 + of_nat j" if "i < nat 14" "j < nat 14" for i j
    using that by (subst of_nat_add_eq_iff) auto
  from strncpy_pads_and_compares[of 14, OF _ _ this, THEN conjunct2] show ?thesis by simp
qed

text \<open>
  C13: strlen of a terminated string returns the index of its first zero byte
  (for strings of less than \<open>2 ^ 31\<close> bytes, the range of its \<open>int\<close> result).
\<close>

theorem strlen_first_zero:
  assumes "\<forall>k < j. m (s + of_nat k) \<noteq> 0" and "m (s + of_nat j) = 0" and "j < 2 ^ 31"
  shows "strlen m s = Some (of_nat j)"
  using strlen_from_stop[of j m s 0] assms by (simp add: strlen_def)

theorem strlen_first_zero_witness:
  "strlen (\<lambda>a. if a = 0x1002 then 0 else 7) 0x1000 = Some 2"
proof -
  have "\<forall>k < (2 :: nat). (if 0x1000 + of_nat k = (0x1002 :: u64) then 0 else 7) \<noteq> (0 :: u8)"
    by (auto simp: less_2_cases_iff)
  from strlen_first_zero[of 2 "\<lambda>a. if a = 0x1002 then 0 else 7" "0x1000", OF this]
  show ?thesis by simp
qed

end
