(* ===== verification/Fs.thy ===== *)
theory Fs
  imports Txn Kstring
begin

text \<open>
  src/fs.c: block allocation, inodes, file contents, directories and path names,
  over the transactional block store of theory \<open>Txn\<close>.

  \<open>fs\<close> extends the store with the in-memory super block and the inode cache;
  \<open>fpid\<close> and \<open>fcwd\<close> are \<open>proc->pid\<close> and \<open>proc->cwd\<close> of the calling
  process.  An inode pointer is an index of \<open>icache.inode\<close>, a null pointer is
  \<open>None\<close>.  Byte buffers passed to readi() and writei() are byte lists, C strings
  byte lists without the terminating zero.  Offsets and sizes are 32-bit words
  where the code compares sums that may wrap; after these guards no sum wraps
  and the loops run on natural numbers.
\<close>

section \<open>State\<close>

definition IPB :: nat where "IPB = BSIZE div 64"

definition BPB :: nat where "BPB = BSIZE * 8"

definition T_DIR :: u16 where "T_DIR = 1"

definition T_FILE :: u16 where "T_FILE = 2"

definition T_DEV :: u16 where "T_DEV = 3"

record inode =
  i_dev :: nat
  i_inum :: nat
  i_ref :: int
  i_lock :: sleeplock
  i_valid :: bool      \<comment> \<open>I_VALID of \<open>flags\<close>\<close>
  i_d :: dinode        \<comment> \<open>\<open>type\<close> to \<open>addrs\<close>, the copy of the disk inode\<close>

record fs = txn +
  sb :: superblock
  inodes :: "nat \<Rightarrow> inode"
  fpid :: int
  fcwd :: nat

definition IBLOCK :: "nat \<Rightarrow> superblock \<Rightarrow> nat" where
  "IBLOCK i p = i div IPB + unat (sb_inodestart p)"

definition BBLOCK :: "nat \<Rightarrow> superblock \<Rightarrow> nat" where
  "BBLOCK b p = b div BPB + unat (sb_bmapstart p)"

definition upd_inode :: "nat \<Rightarrow> (inode \<Rightarrow> inode) \<Rightarrow> fs \<Rightarrow> fs" where
  "upd_inode i f s = s\<lparr>inodes := (inodes s)(i := f (inodes s i))\<rparr>"

definition upd_dinode :: "nat \<Rightarrow> (dinode \<Rightarrow> dinode) \<Rightarrow> fs \<Rightarrow> fs" where
  "upd_dinode i f = upd_inode i (i_d_update f)"

section \<open>Blocks\<close>

definition fs_readsb :: "nat \<Rightarrow> fs \<Rightarrow> fs result" where
  "fs_readsb dev s =
     bind_r (tbread dev 1 s) (\<lambda>s.
       tbrelse 1 (s\<lparr>sb := dec_superblock (take 28 (blk s 1))\<rparr>))"

definition bzero :: "nat \<Rightarrow> nat \<Rightarrow> fs \<Rightarrow> fs result" where
  "bzero dev bno s =
     bind_r (tbread dev bno s) (\<lambda>s.
     bind_r (tlog_write bno (tput bno (replicate BSIZE 0) s)) (\<lambda>s.
     tbrelse bno s))"

definition bitmap_bit :: "block \<Rightarrow> nat \<Rightarrow> bool" where
  "bitmap_bit d bi \<longleftrightarrow> and (d ! (bi div 8)) (push_bit (bi mod 8) 1) \<noteq> 0"

definition bitmap_set :: "nat \<Rightarrow> block \<Rightarrow> block" where
  "bitmap_set bi d = d[bi div 8 := or (d ! (bi div 8)) (push_bit (bi mod 8) 1)]"

definition bitmap_clear :: "nat \<Rightarrow> block \<Rightarrow> block" where
  "bitmap_clear bi d = d[bi div 8 := and (d ! (bi div 8)) (not (push_bit (bi mod 8) 1))]"

fun balloc_from :: "nat list \<Rightarrow> nat \<Rightarrow> fs \<Rightarrow> (nat \<times> fs) result" where
  "balloc_from [] dev s = Panic ''balloc: out of blocks''"
| "balloc_from (b # bs) dev s =
     (let bp = BBLOCK b (sb s) in
      bind_r (tbread dev bp s) (\<lambda>s.
        case find (\<lambda>bi. \<not> bitmap_bit (blk s bp) bi) [0..<min BPB (unat (sb_size (sb s)) - b)] of
          Some bi \<Rightarrow>
            bind_r (tlog_write bp (tput bp (bitmap_set bi (blk s bp)) s)) (\<lambda>s.
            bind_r (tbrelse bp s) (\<lambda>s.
            bind_r (bzero dev (b + bi) s) (\<lambda>s. Ok (b + bi, s))))
        | None \<Rightarrow> bind_r (tbrelse bp s) (balloc_from bs dev)))"

definition balloc :: "nat \<Rightarrow> fs \<Rightarrow> (nat \<times> fs) result" where
  "balloc dev s =
     balloc_from (map (\<lambda>k. k * BPB) [0..<(unat (sb_size (sb s)) + BPB - 1) div BPB]) dev s"

definition bfree :: "nat \<Rightarrow> nat \<Rightarrow> fs \<Rightarrow> fs result" where
  "bfree dev b s =
     bind_r (fs_readsb dev s) (\<lambda>s.
       let bp = BBLOCK b (sb s); bi = b mod BPB in
       bind_r (tbread dev bp s) (\<lambda>s.
         if \<not> bitmap_bit (blk s bp) bi then Panic ''freeing free block''
         else bind_r (tlog_write bp (tput bp (bitmap_clear bi (blk s bp)) s)) (tbrelse bp)))"

section \<open>Inodes\<close>

definition iinit :: "nat \<Rightarrow> fs \<Rightarrow> fs result" where
  "iinit dev s =
     fs_readsb dev (s\<lparr>inodes := (\<lambda>i. if i < NINODE then (inodes s i)\<lparr>i_lock := initsleeplock\<rparr> else inodes s i)\<rparr>)"

definition iget :: "nat \<Rightarrow> nat \<Rightarrow> fs \<Rightarrow> (nat \<times> fs) result" where
  "iget dev inum s =
     (case find (\<lambda>i. 0 < i_ref (inodes s i) \<and> i_dev (inodes s i) = dev \<and> i_inum (inodes s i) = inum)
             [0..<NINODE] of
        Some i \<Rightarrow> Ok (i, upd_inode i (\<lambda>ip. ip\<lparr>i_ref := i_ref ip + 1\<rparr>) s)
      | None \<Rightarrow>
         (case find (\<lambda>i. i_ref (inodes s i) = 0) [0..<NINODE] of
            None \<Rightarrow> Panic ''iget: no inodes''
          | Some i \<Rightarrow>
              Ok (i, upd_inode i (\<lambda>ip. ip\<lparr>i_dev := dev, i_inum := inum, i_ref := 1, i_valid := False\<rparr>) s)))"

definition zero_dinode :: dinode where
  "zero_dinode = \<lparr>d_type = 0, d_major = 0, d_minor = 0, d_nlink = 0, d_size = 0,
     d_addrs = replicate (NDIRECT + 1) 0\<rparr>"

fun ialloc_from :: "nat list \<Rightarrow> nat \<Rightarrow> u16 \<Rightarrow> fs \<Rightarrow> (nat \<times> fs) result" where
  "ialloc_from [] dev type s = Panic ''ialloc: no inodes''"
| "ialloc_from (inum # inums) dev type s =
     (let bp = IBLOCK inum (sb s) in
      bind_r (tbread dev bp s) (\<lambda>s.
        if d_type (dec_dinode (slot 64 (inum mod IPB) (blk s bp))) = 0 then
          bind_r (tlog_write bp (tput bp
              (set_slot 64 (inum mod IPB) (enc_dinode (zero_dinode\<lparr>d_type := type\<rparr>)) (blk s bp)) s)) (\<lambda>s.
          bind_r (tbrelse bp s) (iget dev inum))
        else bind_r (tbrelse bp s) (ialloc_from inums dev type)))"

definition ialloc :: "nat \<Rightarrow> u16 \<Rightarrow> fs \<Rightarrow> (nat \<times> fs) result" where
  "ialloc dev type s = ialloc_from [1..<unat (sb_ninodes (sb s))] dev type s"

definition iupdate :: "nat \<Rightarrow> fs \<Rightarrow> fs result" where
  "iupdate ip s =
     (let i = inodes s ip; bp = IBLOCK (i_inum i) (sb s) in
      bind_r (tbread (i_dev i) bp s) (\<lambda>s.
      bind_r (tlog_write bp (tput bp (set_slot 64 (i_inum i mod IPB) (enc_dinode (i_d i)) (blk s bp)) s))
        (tbrelse bp)))"

definition idup :: "nat \<Rightarrow> fs \<Rightarrow> nat \<times> fs" where
  "idup ip s = (ip, upd_inode ip (\<lambda>i. i\<lparr>i_ref := i_ref i + 1\<rparr>) s)"

definition ilock :: "nat option \<Rightarrow> fs \<Rightarrow> fs result" where
  "ilock ip0 s =
     (case ip0 of
        None \<Rightarrow> Panic ''ilock''
      | Some ip \<Rightarrow>
          if i_ref (inodes s ip) < 1 then Panic ''ilock''
          else bind_r (acquiresleep (fpid s) (i_lock (inodes s ip))) (\<lambda>l.
            let s = upd_inode ip (\<lambda>i. i\<lparr>i_lock := l\<rparr>) s in
            if i_valid (inodes s ip) then Ok s
            else
              let i = inodes s ip; bp = IBLOCK (i_inum i) (sb s) in
              bind_r (tbread (i_dev i) bp s) (\<lambda>s.
                let s = upd_inode ip (\<lambda>i. i\<lparr>i_d := dec_dinode (slot 64 (i_inum i mod IPB) (blk s bp))\<rparr>) s in
                bind_r (tbrelse bp s) (\<lambda>s.
                  let s = upd_inode ip (\<lambda>i. i\<lparr>i_valid := True\<rparr>) s in
                  if d_type (i_d (inodes s ip)) = 0 then Panic ''ilock: no type'' else Ok s))))"

definition iunlock :: "nat option \<Rightarrow> fs \<Rightarrow> fs result" where
  "iunlock ip0 s =
     (case ip0 of
        None \<Rightarrow> Panic ''iunlock''
      | Some ip \<Rightarrow>
          if \<not> holdingsleep (i_lock (inodes s ip)) \<or> i_ref (inodes s ip) < 1 then Panic ''iunlock''
          else Ok (upd_inode ip (\<lambda>i. i\<lparr>i_lock := releasesleep (i_lock i)\<rparr>) s))"

section \<open>Inode content\<close>

definition addr_of :: "nat \<Rightarrow> nat \<Rightarrow> fs \<Rightarrow> nat" where
  "addr_of ip k s = unat (d_addrs (i_d (inodes s ip)) ! k)"

definition set_addr :: "nat \<Rightarrow> nat \<Rightarrow> nat \<Rightarrow> fs \<Rightarrow> fs" where
  "set_addr ip k a = upd_dinode ip (\<lambda>d. d\<lparr>d_addrs := (d_addrs d)[k := word_of_nat a]\<rparr>)"

text \<open>Entry \<open>k\<close> of \<open>addrs\<close>, allocated when it is zero.\<close>

definition inode_addr :: "nat \<Rightarrow> nat \<Rightarrow> fs \<Rightarrow> (nat \<times> fs) result" where
  "inode_addr ip k s =
     (if addr_of ip k s = 0 then
        bind_r (balloc (i_dev (inodes s ip)) s) (\<lambda>(a, s). Ok (a, set_addr ip k a s))
      else Ok (addr_of ip k s, s))"

definition bmap :: "nat \<Rightarrow> nat \<Rightarrow> fs \<Rightarrow> (nat \<times> fs) result" where
  "bmap ip bn s =
     (if bn < NDIRECT then inode_addr ip bn s
      else if bn - NDIRECT < NINDIRECT then
        let bn = bn - NDIRECT; dev = i_dev (inodes s ip) in
        bind_r (inode_addr ip NDIRECT s) (\<lambda>(bp, s).
        bind_r (tbread dev bp s) (\<lambda>s.
          let addr = unat (dec32 (slot 4 bn (blk s bp))) in
          if addr = 0 then
            bind_r (balloc dev s) (\<lambda>(addr, s).
            bind_r (tlog_write bp (tput bp (set_slot 4 bn (enc32 (word_of_nat addr)) (blk s bp)) s)) (\<lambda>s.
            bind_r (tbrelse bp s) (\<lambda>s. Ok (addr, s))))
          else bind_r (tbrelse bp s) (\<lambda>s. Ok (addr, s))))
      else Panic ''bmap: out of range'')"

definition itrunc_direct :: "nat \<Rightarrow> nat \<Rightarrow> fs \<Rightarrow> fs result" where
  "itrunc_direct ip i s =
     (if addr_of ip i s \<noteq> 0 then
        bind_r (bfree (i_dev (inodes s ip)) (addr_of ip i s) s) (\<lambda>s. Ok (set_addr ip i 0 s))
      else Ok s)"

definition itrunc_indirect :: "nat \<Rightarrow> nat \<Rightarrow> nat \<Rightarrow> fs \<Rightarrow> fs result" where
  "itrunc_indirect dev bp j s =
     (let a = unat (dec32 (slot 4 j (blk s bp))) in if a \<noteq> 0 then bfree dev a s else Ok s)"

definition itrunc :: "nat \<Rightarrow> fs \<Rightarrow> fs result" where
  "itrunc ip s =
     bind_r (fold_r (itrunc_direct ip) [0..<NDIRECT] s) (\<lambda>s.
     bind_r
       (let bp = addr_of ip NDIRECT s; dev = i_dev (inodes s ip) in
        if bp \<noteq> 0 then
          bind_r (tbread dev bp s) (\<lambda>s.
          bind_r (fold_r (itrunc_indirect dev bp) [0..<NINDIRECT] s) (\<lambda>s.
          bind_r (tbrelse bp s) (\<lambda>s.
          bind_r (bfree dev bp s) (\<lambda>s. Ok (set_addr ip NDIRECT 0 s)))))
        else Ok s) (\<lambda>s.
     iupdate ip (upd_dinode ip (\<lambda>d. d\<lparr>d_size := 0\<rparr>) s)))"

definition iput :: "nat \<Rightarrow> fs \<Rightarrow> fs result" where
  "iput ip s =
     (let i = inodes s ip in
      bind_r
        (if i_ref i = 1 \<and> i_valid i \<and> d_nlink (i_d i) = 0 then
           bind_r (itrunc ip s) (\<lambda>s.
           bind_r (iupdate ip (upd_dinode ip (\<lambda>d. d\<lparr>d_type := 0\<rparr>) s)) (\<lambda>s.
           Ok (upd_inode ip (\<lambda>i. i\<lparr>i_valid := False\<rparr>) s)))
         else Ok s)
        (\<lambda>s. Ok (upd_inode ip (\<lambda>i. i\<lparr>i_ref := i_ref i - 1\<rparr>) s)))"

definition iunlockput :: "nat \<Rightarrow> fs \<Rightarrow> fs result" where
  "iunlockput ip s = bind_r (iunlock (Some ip) s) (iput ip)"

record stat =
  st_dev :: nat
  st_ino :: nat
  st_type :: u16
  st_nlink :: u16
  st_size :: u32

definition stati :: "nat \<Rightarrow> fs \<Rightarrow> stat" where
  "stati ip s =
     (let i = inodes s ip in
      \<lparr>st_dev = i_dev i, st_ino = i_inum i, st_type = d_type (i_d i), st_nlink = d_nlink (i_d i),
       st_size = d_size (i_d i)\<rparr>)"

text \<open>The loop of readi(): \<open>n\<close> bytes are left to copy from offset \<open>off\<close>.\<close>

function readi_loop :: "nat \<Rightarrow> nat \<Rightarrow> nat \<Rightarrow> fs \<Rightarrow> (u8 list \<times> fs) result" where
  "readi_loop ip off n s =
     (if n = 0 then Ok ([], s)
      else
        let dev = i_dev (inodes s ip) in
        bind_r (bmap ip (off div BSIZE) s) (\<lambda>(bp, s).
        bind_r (tbread dev bp s) (\<lambda>s.
          let m = min n (BSIZE - off mod BSIZE);
              bytes = take m (drop (off mod BSIZE) (blk s bp)) in
          bind_r (tbrelse bp s) (\<lambda>s.
          bind_r (readi_loop ip (off + m) (n - m) s) (\<lambda>(rest, s). Ok (bytes @ rest, s))))))"
  by pat_completeness auto
termination by (relation "measure (\<lambda>(ip, off, n, s). n)") (auto simp: BSIZE_def)

text \<open>readi() returns the bytes it copied, or \<open>None\<close> for -1.\<close>

definition readi :: "nat \<Rightarrow> u32 \<Rightarrow> u32 \<Rightarrow> fs \<Rightarrow> (u8 list option \<times> fs) result" where
  "readi ip off n s =
     (let size = d_size (i_d (inodes s ip)) in
      if size < off \<or> off + n < off then Ok (None, s)
      else
        let n = (if size < off + n then size - off else n) in
        bind_r (readi_loop ip (unat off) (unat n) s) (\<lambda>(bytes, s). Ok (Some bytes, s)))"

function writei_loop :: "nat \<Rightarrow> u8 list \<Rightarrow> nat \<Rightarrow> nat \<Rightarrow> fs \<Rightarrow> fs result" where
  "writei_loop ip src off n s =
     (if n = 0 then Ok s
      else
        let dev = i_dev (inodes s ip) in
        bind_r (bmap ip (off div BSIZE) s) (\<lambda>(bp, s).
        bind_r (tbread dev bp s) (\<lambda>s.
          let m = min n (BSIZE - off mod BSIZE) in
          bind_r (tlog_write bp (tput bp (splice (off mod BSIZE) (take m src) (blk s bp)) s)) (\<lambda>s.
          bind_r (tbrelse bp s) (\<lambda>s.
          writei_loop ip (drop m src) (off + m) (n - m) s)))))"
  by pat_completeness auto
termination by (relation "measure (\<lambda>(ip, src, off, n, s). n)") (auto simp: BSIZE_def)

text \<open>writei() returns the number of bytes written, or \<open>None\<close> for -1.\<close>

definition writei :: "nat \<Rightarrow> u8 list \<Rightarrow> u32 \<Rightarrow> u32 \<Rightarrow> fs \<Rightarrow> (u32 option \<times> fs) result" where
  "writei ip src off n s =
     (if d_size (i_d (inodes s ip)) < off \<or> off + n < off then Ok (None, s)
      else if word_of_nat (MAXFILE * BSIZE) < off + n then Ok (None, s)
      else
        bind_r (writei_loop ip src (unat off) (unat n) s) (\<lambda>s.
          let off = off + n in
          if 0 < n \<and> d_size (i_d (inodes s ip)) < off then
            bind_r (iupdate ip (upd_dinode ip (\<lambda>d. d\<lparr>d_size := off\<rparr>) s)) (\<lambda>s. Ok (Some n, s))
          else Ok (Some n, s)))"

section \<open>Directories\<close>

text \<open>strncmp(s, t, DIRSIZ) = 0: equal up to the first zero or the DIRSIZ-th byte.\<close>

definition namecmp :: "u8 list \<Rightarrow> u8 list \<Rightarrow> bool" where
  "namecmp a b \<longleftrightarrow> takeWhile (\<lambda>c. c \<noteq> 0) (take DIRSIZ a) = takeWhile (\<lambda>c. c \<noteq> 0) (take DIRSIZ b)"

text \<open>The entry of a directory at offset \<open>off\<close>, and the scan of the loops over it.\<close>

definition read_dirent :: "string \<Rightarrow> nat \<Rightarrow> nat \<Rightarrow> fs \<Rightarrow> (dirent \<times> fs) result" where
  "read_dirent msg dp off s =
     bind_r (readi dp (word_of_nat off) 16 s) (\<lambda>(r, s).
       case r of
         None \<Rightarrow> Panic msg
       | Some bytes \<Rightarrow> if length bytes \<noteq> 16 then Panic msg else Ok (dec_dirent bytes, s))"

function dirlookup_loop :: "nat \<Rightarrow> u8 list \<Rightarrow> nat \<Rightarrow> nat \<Rightarrow> fs \<Rightarrow> ((nat \<times> nat) option \<times> fs) result" where
  "dirlookup_loop dp name off sz s =
     (if off < sz then
        bind_r (read_dirent ''dirlookup read'' dp off s) (\<lambda>(de, s).
          if de_inum de \<noteq> 0 \<and> namecmp name (de_name de) then
            bind_r (iget (i_dev (inodes s dp)) (unat (de_inum de)) s) (\<lambda>(ip, s). Ok (Some (ip, off), s))
          else dirlookup_loop dp name (off + 16) sz s)
      else Ok (None, s))"
  by pat_completeness auto
termination by (relation "measure (\<lambda>(dp, name, off, sz, s). sz - off)") auto

text \<open>The inode of the entry and its offset.\<close>

definition dirlookup :: "nat \<Rightarrow> u8 list \<Rightarrow> fs \<Rightarrow> ((nat \<times> nat) option \<times> fs) result" where
  "dirlookup dp name s =
     (if d_type (i_d (inodes s dp)) \<noteq> T_DIR then Panic ''dirlookup not DIR''
      else dirlookup_loop dp name 0 (unat (d_size (i_d (inodes s dp)))) s)"

function dirlink_slot :: "nat \<Rightarrow> nat \<Rightarrow> nat \<Rightarrow> fs \<Rightarrow> (nat \<times> fs) result" where
  "dirlink_slot dp off sz s =
     (if off < sz then
        bind_r (read_dirent ''dirlink read'' dp off s) (\<lambda>(de, s).
          if de_inum de = 0 then Ok (off, s) else dirlink_slot dp (off + 16) sz s)
      else Ok (off, s))"
  by pat_completeness auto
termination by (relation "measure (\<lambda>(dp, off, sz, s). sz - off)") auto

text \<open>strncpy(de.name, name, DIRSIZ).\<close>

definition dirname :: "u8 list \<Rightarrow> u8 list" where
  "dirname name = take DIRSIZ (name @ replicate DIRSIZ 0)"

definition dirlink :: "nat \<Rightarrow> u8 list \<Rightarrow> nat \<Rightarrow> fs \<Rightarrow> (int \<times> fs) result" where
  "dirlink dp name inum s =
     bind_r (dirlookup dp name s) (\<lambda>(r, s).
       case r of
         Some (ip, _) \<Rightarrow> bind_r (iput ip s) (\<lambda>s. Ok (-1, s))
       | None \<Rightarrow>
           bind_r (dirlink_slot dp 0 (unat (d_size (i_d (inodes s dp)))) s) (\<lambda>(off, s).
             let de = \<lparr>de_inum = word_of_nat inum, de_name = dirname name\<rparr> in
             bind_r (writei dp (enc_dirent de) (word_of_nat off) 16 s) (\<lambda>(r, s).
               if r \<noteq> Some 16 then Panic ''dirlink'' else Ok (0, s))))"

section \<open>Paths\<close>

definition slash :: u8 where "slash = 47"

text \<open>The rest of the path and the element's first DIRSIZ bytes.\<close>

definition skipelem :: "u8 list \<Rightarrow> (u8 list \<times> u8 list) option" where
  "skipelem path =
     (let path = dropWhile (\<lambda>c. c = slash) path in
      if path = [] then None
      else
        let elem = takeWhile (\<lambda>c. c \<noteq> slash) path;
            path = dropWhile (\<lambda>c. c \<noteq> slash) path
        in Some (dropWhile (\<lambda>c. c = slash) path, take DIRSIZ elem))"

lemma length_skipelem: "skipelem path = Some (rest, name) \<Longrightarrow> length rest < length path"
proof -
  assume a: "skipelem path = Some (rest, name)"
  define p where "p = dropWhile (\<lambda>c. c = slash) path"
  have p: "p \<noteq> []" "rest = dropWhile (\<lambda>c. c = slash) (dropWhile (\<lambda>c. c \<noteq> slash) p)"
    using a by (auto simp: skipelem_def Let_def p_def split: if_splits)
  then obtain x xs where x: "p = x # xs" "x \<noteq> slash"
    using hd_dropWhile [of "\<lambda>c. c = slash" path] by (cases p) (auto simp: p_def)
  have "length rest \<le> length xs"
    using p(2) x length_dropWhile_le [of "\<lambda>c. c = slash" "dropWhile (\<lambda>c. c \<noteq> slash) xs"]
      length_dropWhile_le [of "\<lambda>c. c \<noteq> slash" xs] by simp
  moreover have "length p \<le> length path" by (simp add: p_def length_dropWhile_le)
  ultimately show ?thesis by (simp add: x(1))
qed

function namex_loop :: "u8 list \<Rightarrow> bool \<Rightarrow> nat \<Rightarrow> u8 list \<Rightarrow> fs \<Rightarrow> ((nat \<times> u8 list) option \<times> fs) result" where
  "namex_loop path nameiparent ip name s =
     (case skipelem path of
        None \<Rightarrow>
          if nameiparent then bind_r (iput ip s) (\<lambda>s. Ok (None, s)) else Ok (Some (ip, name), s)
      | Some (path, name) \<Rightarrow>
          bind_r (ilock (Some ip) s) (\<lambda>s.
            if d_type (i_d (inodes s ip)) \<noteq> T_DIR then
              bind_r (iunlockput ip s) (\<lambda>s. Ok (None, s))
            else if nameiparent \<and> path = [] then
              bind_r (iunlock (Some ip) s) (\<lambda>s. Ok (Some (ip, name), s))
            else
              bind_r (dirlookup ip name s) (\<lambda>(r, s).
              bind_r (iunlockput ip s) (\<lambda>s.
                case r of
                  None \<Rightarrow> Ok (None, s)
                | Some (next, _) \<Rightarrow> namex_loop path nameiparent next name s))))"
  by pat_completeness auto
termination
  by (relation "measure (\<lambda>(path, np, ip, name, s). length path)") (auto dest: length_skipelem)

definition namex :: "u8 list \<Rightarrow> bool \<Rightarrow> fs \<Rightarrow> ((nat \<times> u8 list) option \<times> fs) result" where
  "namex path nameiparent s =
     bind_r (if path \<noteq> [] \<and> hd path = slash then iget ROOTDEV ROOTINO s else Ok (idup (fcwd s) s))
       (\<lambda>(ip, s). namex_loop path nameiparent ip [] s)"

definition namei :: "u8 list \<Rightarrow> fs \<Rightarrow> (nat option \<times> fs) result" where
  "namei path s = bind_r (namex path False s) (\<lambda>(r, s). Ok (map_option fst r, s))"

definition nameiparent :: "u8 list \<Rightarrow> fs \<Rightarrow> ((nat \<times> u8 list) option \<times> fs) result" where
  "nameiparent path s = namex path True s"

end
