(* ===== verification/FsBlocks.thy ===== *)
theory FsBlocks
  imports Fs
begin

text \<open>
  Lemmas on the block allocator and the inode table of theory \<open>Fs\<close>: the exact
  effect of every operation on the store, the bitmap as a set of used blocks,
  the inode cache.
\<close>

section \<open>Modifying a block\<close>

definition logadd :: "nat \<Rightarrow> nat list \<Rightarrow> nat list" where
  "logadd b l = (if b \<in> set l then l else l @ [b])"

definition room :: "nat \<Rightarrow> 'a txn_scheme \<Rightarrow> bool" where
  "room k s \<longleftrightarrow> touched s = [] \<and> topen s \<and> length (tlog s) + k \<le> tcap s"

lemma length_logadd: "length (logadd b l) \<le> Suc (length l)"
  by (simp add: logadd_def)

lemma set_logadd [simp]: "set (logadd b l) = insert b (set l)"
  by (auto simp: logadd_def)

lemma roomD: "room k s \<Longrightarrow> touched s = []" "room k s \<Longrightarrow> topen s"
    "room k s \<Longrightarrow> length (tlog s) + k \<le> tcap s"
  by (auto simp: room_def)

lemma room_mono: "room k s \<Longrightarrow> j \<le> k \<Longrightarrow> room j s"
  by (auto simp: room_def)

text \<open>Reading a block and releasing it changes nothing.\<close>

lemma tbread_Ok:
  "dev = 1 \<Longrightarrow> b \<notin> set (hold s) \<Longrightarrow> b < tdsz s \<Longrightarrow> tbread dev b s = Ok (s\<lparr>hold := b # hold s\<rparr>)"
  by (simp add: tbread_def)

lemma tbrelse_Ok:
  "b \<notin> set (hold s) \<Longrightarrow> b \<notin> set (touched s) \<Longrightarrow> tbrelse b (s\<lparr>hold := b # hold s\<rparr>) = Ok s"
  by (simp add: tbrelse_def)

lemma tlog_write_Ok:
  assumes "room (Suc k) s"
  shows "tlog_write b (tput b d (s\<lparr>hold := h\<rparr>)) =
    Ok (s\<lparr>hold := h, blk := (blk s)(b := d), tlog := logadd b (tlog s)\<rparr>)"
  using assms by (simp add: tlog_write_def tput_def logadd_def room_def)

lemma modify_Ok:
  assumes "b \<notin> set (hold s)" "b < tdsz s" "room (Suc k) s"
  shows "bind_r (tlog_write b (tput b d (s\<lparr>hold := b # hold s\<rparr>))) (tbrelse b) =
    Ok (s\<lparr>blk := (blk s)(b := d), tlog := logadd b (tlog s)\<rparr>)"
  using assms by (simp add: tlog_write_Ok [OF assms(3)] tbrelse_def roomD)

lemma room_log:
  "room (Suc k) s \<Longrightarrow> room k (s\<lparr>blk := x, tlog := logadd b (tlog s)\<rparr>)"
  using length_logadd [of b "tlog s"] by (auto simp: room_def)

section \<open>The free map\<close>

lemma bitmap_bit_iff: "bitmap_bit d i \<longleftrightarrow> bit (d ! (i div 8)) (i mod 8)"
  by (simp add: bitmap_bit_def bit_iff_and_push_bit_not_eq_0)

lemma bitmap_set_length [simp]: "length (bitmap_set i d) = length d" "length (bitmap_clear i d) = length d"
  by (simp_all add: bitmap_set_def bitmap_clear_def)

lemma bitmap_set_bit:
  assumes "i div 8 < length d" "j div 8 < length d"
  shows "bitmap_bit (bitmap_set i d) j \<longleftrightarrow> j = i \<or> bitmap_bit d j"
proof (cases "j div 8 = i div 8")
  case True
  then have "j = i \<longleftrightarrow> j mod 8 = i mod 8" by (metis div_mult_mod_eq)
  with True assms show ?thesis
    by (auto simp: bitmap_bit_iff bitmap_set_def bit_simps)
next
  case False
  then show ?thesis using assms by (auto simp: bitmap_bit_iff bitmap_set_def)
qed

lemma bitmap_clear_bit:
  assumes "i div 8 < length d" "j div 8 < length d"
  shows "bitmap_bit (bitmap_clear i d) j \<longleftrightarrow> j \<noteq> i \<and> bitmap_bit d j"
proof (cases "j div 8 = i div 8")
  case True
  then have "j = i \<longleftrightarrow> j mod 8 = i mod 8" by (metis div_mult_mod_eq)
  with True assms show ?thesis
    by (auto simp: bitmap_bit_iff bitmap_clear_def bit_simps)
next
  case False
  then show ?thesis using assms by (auto simp: bitmap_bit_iff bitmap_clear_def)
qed

lemma bitmap_clear_set:
  assumes "i div 8 < length d" "\<not> bitmap_bit d i"
  shows "bitmap_clear i (bitmap_set i d) = d"
proof -
  have "and (or (d ! (i div 8)) (push_bit (i mod 8) 1)) (not (push_bit (i mod 8) 1)) = d ! (i div 8)"
    using assms(2) by (intro bit_word_eqI) (auto simp: bitmap_bit_iff bit_simps)
  then show ?thesis using assms(1) by (simp add: bitmap_clear_def bitmap_set_def)
qed

text \<open>Block \<open>b\<close> is marked in use on the disk.\<close>

definition used :: "fs \<Rightarrow> nat \<Rightarrow> bool" where
  "used s b \<longleftrightarrow> bitmap_bit (blk s (BBLOCK b (sb s))) (b mod BPB)"

lemma find_upt:
  assumes "j < m" "P j" "\<forall>i<j. \<not> P i"
  shows "find P [0..<m] = Some j"
  using assms by (auto simp: find_Some_iff intro!: exI [of _ j])

lemma find_upt_None: "\<forall>i<m. \<not> P i \<Longrightarrow> find P [0..<m] = None"
  by (simp add: find_None_iff)

lemma BBLOCK_base: "bi < BPB \<Longrightarrow> BBLOCK (k * BPB) p = BBLOCK (k * BPB + bi) p"
  by (simp add: BBLOCK_def BPB_def BSIZE_def)

lemma used_base: "bi < BPB \<Longrightarrow> bitmap_bit (blk s (BBLOCK (k * BPB) (sb s))) bi = used s (k * BPB + bi)"
  by (simp add: used_def BBLOCK_base)

text \<open>
  The bitmap can be read: its blocks are on the disk, whole and not held.
  \<open>nblk s\<close> is \<open>sb.size\<close>.
\<close>

abbreviation nblk :: "fs \<Rightarrow> nat" where
  "nblk s \<equiv> unat (sb_size (sb s))"

definition bitmap_ok :: "fs \<Rightarrow> bool" where
  "bitmap_ok s \<longleftrightarrow> (\<forall>b<nblk s. BBLOCK b (sb s) < tdsz s \<and> BBLOCK b (sb s) \<notin> set (hold s) \<and>
     length (blk s (BBLOCK b (sb s))) = BSIZE) \<and> nblk s \<le> tdsz s"

lemma bzero_Ok:
  assumes "b \<notin> set (hold s)" "b < tdsz s" "room (Suc k) s"
  shows "bzero 1 b s = Ok (s\<lparr>blk := (blk s)(b := replicate BSIZE 0), tlog := logadd b (tlog s)\<rparr>)"
  using modify_Ok [OF assms, of "replicate BSIZE 0"] assms(1,2) by (simp add: bzero_def tbread_Ok)

lemma balloc_scan_miss:
  assumes "bitmap_ok s" "touched s = []" "k * BPB < nblk s" "\<forall>c<nblk s. k * BPB \<le> c \<longrightarrow> c < k * BPB + BPB \<longrightarrow> used s c"
  shows "balloc_from (k * BPB # bs) 1 s = balloc_from bs 1 s"
proof -
  let ?bp = "BBLOCK (k * BPB) (sb s)"
  have bp: "?bp \<notin> set (hold s)" "?bp < tdsz s" using assms(1,3) by (auto simp: bitmap_ok_def)
  have "find (\<lambda>bi. \<not> bitmap_bit (blk s ?bp) bi) [0..<min BPB (nblk s - k * BPB)] = None"
    by (rule find_upt_None) (use assms(4) in \<open>auto simp: used_base\<close>)
  then show ?thesis
    using bp assms(2) by (simp add: tbread_Ok tbrelse_Ok Let_def)
qed

lemma balloc_scan_hit:
  assumes "bitmap_ok s" "room 2 s" "b < nblk s" "\<not> used s b" "\<forall>c<b. used s c" "b \<notin> set (hold s)"
    "b \<noteq> BBLOCK b (sb s)"
  shows "balloc_from (b div BPB * BPB # bs) 1 s =
    Ok (b, s\<lparr>blk := (blk s)(BBLOCK b (sb s) := bitmap_set (b mod BPB) (blk s (BBLOCK b (sb s))),
                          b := replicate BSIZE 0),
            tlog := logadd b (logadd (BBLOCK b (sb s)) (tlog s))\<rparr>)"
proof -
  let ?k = "b div BPB" and ?bi = "b mod BPB"
  let ?bp = "BBLOCK (?k * BPB) (sb s)"
  have BPB: "?bi < BPB" by (simp add: BPB_def BSIZE_def)
  have b: "?k * BPB + ?bi = b" by simp
  have e: "?bp = BBLOCK b (sb s)" using BBLOCK_base [of ?bi ?k "sb s"] BPB by simp
  have bp: "?bp \<notin> set (hold s)" "?bp < tdsz s" using assms(1,3) unfolding e by (auto simp: bitmap_ok_def)
  have f: "find (\<lambda>bi. \<not> bitmap_bit (blk s ?bp) bi) [0..<min BPB (nblk s - ?k * BPB)] = Some ?bi"
  proof (rule find_upt)
    show "?bi < min BPB (nblk s - ?k * BPB)" unfolding min_less_iff_conj using assms(3) BPB b by linarith
    show "\<not> bitmap_bit (blk s ?bp) ?bi" using assms(4) BPB by (simp add: used_base)
    show "\<forall>i<?bi. \<not> \<not> bitmap_bit (blk s ?bp) i"
    proof (intro allI impI)
      fix i
      assume i: "i < ?bi"
      have "i < BPB" "?k * BPB + i < b" using i BPB b by linarith+
      then show "\<not> \<not> bitmap_bit (blk s ?bp) i" using assms(5) by (simp add: used_base)
    qed
  qed
  let ?s1 = "s\<lparr>blk := (blk s)(?bp := bitmap_set ?bi (blk s ?bp)), tlog := logadd ?bp (tlog s)\<rparr>"
  have r: "room (Suc 1) s" using assms(2) by (simp add: numeral_2_eq_2)
  have z: "bzero 1 b ?s1 = Ok (?s1\<lparr>blk := (blk ?s1)(b := replicate BSIZE 0), tlog := logadd b (tlog ?s1)\<rparr>)"
    by (rule bzero_Ok [where k = 0]) (use assms room_log [OF r] in \<open>auto simp: bitmap_ok_def\<close>)
  have "tbread 1 ?bp s = Ok (s\<lparr>hold := ?bp # hold s\<rparr>)" using bp by (simp add: tbread_Ok)
  moreover note m = modify_Ok [OF bp r, of "bitmap_set ?bi (blk s ?bp)"]
  ultimately show ?thesis using f z b unfolding e
    by (auto simp: Let_def bind_r_assoc [symmetric] e)
qed

lemma balloc_from_ok:
  assumes "bitmap_ok s" "room 2 s" "b < nblk s" "\<not> used s b" "\<forall>c<b. used s c" "b \<notin> set (hold s)"
    "b \<noteq> BBLOCK b (sb s)" "k \<le> b div BPB" "b div BPB < K"
  shows "balloc_from (map (\<lambda>k. k * BPB) [k..<K]) 1 s =
    Ok (b, s\<lparr>blk := (blk s)(BBLOCK b (sb s) := bitmap_set (b mod BPB) (blk s (BBLOCK b (sb s))),
                          b := replicate BSIZE 0),
            tlog := logadd b (logadd (BBLOCK b (sb s)) (tlog s))\<rparr>)"
  using assms(8)
proof (induction "b div BPB - k" arbitrary: k)
  case 0
  then have k: "k = b div BPB" by simp
  have "[k..<K] = k # [Suc k..<K]" using assms(9) k by (simp add: upt_conv_Cons)
  then show ?case using balloc_scan_hit [OF assms(1-7)] by (simp only: k list.map)
next
  case (Suc n)
  then have lt: "k < b div BPB" by simp
  then have u: "[k..<K] = k # [Suc k..<K]" using assms(9) by (simp add: upt_conv_Cons)
  have "Suc k * BPB \<le> b div BPB * BPB" using lt by (intro mult_le_mono1) simp
  then have le: "k * BPB + BPB \<le> b"
    using div_times_less_eq_dividend [of b BPB] unfolding mult_Suc by linarith
  have "balloc_from (k * BPB # map (\<lambda>k. k * BPB) [Suc k..<K]) 1 s =
      balloc_from (map (\<lambda>k. k * BPB) [Suc k..<K]) 1 s"
    by (rule balloc_scan_miss) (use assms le roomD(1) in \<open>auto simp: BPB_def BSIZE_def\<close>)
  moreover have "balloc_from (map (\<lambda>k. k * BPB) [Suc k..<K]) 1 s =
    Ok (b, s\<lparr>blk := (blk s)(BBLOCK b (sb s) := bitmap_set (b mod BPB) (blk s (BBLOCK b (sb s))),
                          b := replicate BSIZE 0),
            tlog := logadd b (logadd (BBLOCK b (sb s)) (tlog s))\<rparr>)"
    by (rule Suc.hyps(1)) (use Suc.hyps(2) lt in simp_all)
  ultimately show ?case by (simp only: u list.map)
qed

lemma balloc_ok:
  assumes "bitmap_ok s" "room 2 s" "b < nblk s" "\<not> used s b" "\<forall>c<b. used s c" "b \<notin> set (hold s)"
    "b \<noteq> BBLOCK b (sb s)"
  shows "balloc 1 s =
    Ok (b, s\<lparr>blk := (blk s)(BBLOCK b (sb s) := bitmap_set (b mod BPB) (blk s (BBLOCK b (sb s))),
                          b := replicate BSIZE 0),
            tlog := logadd b (logadd (BBLOCK b (sb s)) (tlog s))\<rparr>)"
  unfolding balloc_def
proof (rule balloc_from_ok [OF assms])
  have "b div BPB * BPB + BPB \<le> nblk s + BPB - 1"
    using assms(3) div_times_less_eq_dividend [of b BPB] by linarith
  then have "(b div BPB + 1) * BPB div BPB \<le> (nblk s + BPB - 1) div BPB"
    by (intro div_le_mono) simp
  moreover have "0 < BPB" by (simp add: BPB_def BSIZE_def)
  ultimately show "b div BPB < (nblk s + BPB - 1) div BPB" by simp
qed simp

lemma balloc_from_full:
  assumes "bitmap_ok s" "touched s = []" "\<forall>b<nblk s. used s b" "\<forall>k\<in>set ks. k * BPB < nblk s"
  shows "balloc_from (map (\<lambda>k. k * BPB) ks) 1 s = Panic ''balloc: out of blocks''"
  using assms(4)
proof (induction ks)
  case (Cons k ks)
  have "balloc_from (map (\<lambda>k. k * BPB) (k # ks)) 1 s = balloc_from (map (\<lambda>k. k * BPB) ks) 1 s"
    unfolding list.map by (rule balloc_scan_miss) (use assms Cons.prems in auto)
  with Cons show ?case by simp
qed simp

lemma balloc_full:
  assumes "bitmap_ok s" "touched s = []" "\<forall>b<nblk s. used s b"
  shows "balloc 1 s = Panic ''balloc: out of blocks''"
  unfolding balloc_def
proof (rule balloc_from_full [OF assms], intro ballI)
  fix k
  assume "k \<in> set [0..<(nblk s + BPB - 1) div BPB]"
  then have "Suc k * BPB \<le> (nblk s + BPB - 1) div BPB * BPB" by (intro mult_le_mono1) simp
  also have "\<dots> \<le> nblk s + BPB - 1" by (rule div_times_less_eq_dividend)
  finally have "k * BPB + BPB \<le> nblk s + BPB - 1" by simp
  moreover have "0 < BPB" by (simp add: BPB_def BSIZE_def)
  ultimately show "k * BPB < nblk s" by linarith
qed

text \<open>The in-memory super block is the one on disk, in a readable block.\<close>

definition sb_synced :: "fs \<Rightarrow> bool" where
  "sb_synced s \<longleftrightarrow> sb s = dec_superblock (take 28 (blk s 1)) \<and> 1 < tdsz s \<and> 1 \<notin> set (hold s)"

lemma fs_readsb_ok: "sb_synced s \<Longrightarrow> touched s = [] \<Longrightarrow> fs_readsb 1 s = Ok s"
proof -
  assume s: "sb_synced s" "touched s = []"
  then have "tbread 1 1 s = Ok (s\<lparr>hold := 1 # hold s\<rparr>)" by (intro tbread_Ok) (auto simp: sb_synced_def)
  moreover have "tbrelse 1 (s\<lparr>hold := 1 # hold s\<rparr>) = Ok s"
    by (rule tbrelse_Ok) (use s in \<open>auto simp: sb_synced_def\<close>)
  moreover have "dec_superblock (take 28 (blk s 1)) = sb s" using s(1) by (simp add: sb_synced_def)
  ultimately show ?thesis by (simp add: fs_readsb_def del: One_nat_def)
qed

lemma bfree_ok:
  assumes "sb_synced s" "bitmap_ok s" "room 1 s" "b < nblk s" "used s b"
  shows "bfree 1 b s =
    Ok (s\<lparr>blk := (blk s)(BBLOCK b (sb s) := bitmap_clear (b mod BPB) (blk s (BBLOCK b (sb s)))),
            tlog := logadd (BBLOCK b (sb s)) (tlog s)\<rparr>)"
proof -
  let ?bp = "BBLOCK b (sb s)"
  have bp: "?bp \<notin> set (hold s)" "?bp < tdsz s" using assms(2,4) by (auto simp: bitmap_ok_def)
  have "room (Suc 0) s" using assms(3) by simp
  note m = modify_Ok [OF bp this, of "bitmap_clear (b mod BPB) (blk s ?bp)"]
  have "tbread 1 ?bp s = Ok (s\<lparr>hold := ?bp # hold s\<rparr>)" using bp by (simp add: tbread_Ok)
  then show ?thesis unfolding bfree_def
    using fs_readsb_ok [OF assms(1) roomD(1) [OF assms(3)]] m assms(5) by (simp add: Let_def used_def)
qed

lemma bfree_free_panics:
  assumes "sb_synced s" "bitmap_ok s" "touched s = []" "b < nblk s" "\<not> used s b"
  shows "bfree 1 b s = Panic ''freeing free block''"
proof -
  let ?bp = "BBLOCK b (sb s)"
  have bp: "?bp \<notin> set (hold s)" "?bp < tdsz s" using assms(2,4) by (auto simp: bitmap_ok_def)
  then have "tbread 1 ?bp s = Ok (s\<lparr>hold := ?bp # hold s\<rparr>)" by (simp add: tbread_Ok)
  then show ?thesis unfolding bfree_def
    using fs_readsb_ok [OF assms(1,3)] assms(5) by (simp add: Let_def used_def)
qed

lemma bitmap_index: "b mod BPB div 8 < BSIZE"
  by (simp add: BPB_def BSIZE_def less_mult_imp_div_less)

lemma BBLOCK_same: "BBLOCK c p = BBLOCK b p \<Longrightarrow> c mod BPB = b mod BPB \<longleftrightarrow> c = b"
  by (metis BBLOCK_def add_right_cancel div_mult_mod_eq)

text \<open>The bitmap after setting or clearing one bit.\<close>

lemma used_set:
  assumes "bitmap_ok s" "b < nblk s" "c < nblk s"
    "blk s' (BBLOCK c (sb s)) = (if BBLOCK c (sb s) = BBLOCK b (sb s)
       then bitmap_set (b mod BPB) (blk s (BBLOCK b (sb s))) else blk s (BBLOCK c (sb s)))" "sb s' = sb s"
  shows "used s' c \<longleftrightarrow> used s c \<or> c = b"
proof (cases "BBLOCK c (sb s) = BBLOCK b (sb s)")
  case True
  have "length (blk s (BBLOCK b (sb s))) = BSIZE" using assms(1,2) by (simp add: bitmap_ok_def)
  then show ?thesis using True assms(4,5) bitmap_set_bit [of "b mod BPB" "blk s (BBLOCK b (sb s))" "c mod BPB"]
      BBLOCK_same [OF True] by (auto simp: used_def bitmap_index)
next
  case False
  then show ?thesis using assms(4,5) by (auto simp: used_def)
qed

lemma used_clear:
  assumes "bitmap_ok s" "b < nblk s" "c < nblk s"
    "blk s' (BBLOCK c (sb s)) = (if BBLOCK c (sb s) = BBLOCK b (sb s)
       then bitmap_clear (b mod BPB) (blk s (BBLOCK b (sb s))) else blk s (BBLOCK c (sb s)))" "sb s' = sb s"
  shows "used s' c \<longleftrightarrow> used s c \<and> c \<noteq> b"
proof (cases "BBLOCK c (sb s) = BBLOCK b (sb s)")
  case True
  have "length (blk s (BBLOCK b (sb s))) = BSIZE" using assms(1,2) by (simp add: bitmap_ok_def)
  then show ?thesis using True assms(4,5) bitmap_clear_bit [of "b mod BPB" "blk s (BBLOCK b (sb s))" "c mod BPB"]
      BBLOCK_same [OF True] by (auto simp: used_def bitmap_index)
next
  case False
  then show ?thesis using assms(4,5) by (auto simp: used_def)
qed

text \<open>
  The allocator's state: the bitmap and the super block are readable, held
  blocks and the blocks of the super block and of the bitmap are in use.
\<close>

definition alloc_ok :: "fs \<Rightarrow> bool" where
  "alloc_ok s \<longleftrightarrow> bitmap_ok s \<and> sb_synced s \<and> (\<forall>b<nblk s. b \<in> set (hold s) \<longrightarrow> used s b) \<and>
     (\<forall>b<nblk s. b = 1 \<or> (\<exists>c<nblk s. b = BBLOCK c (sb s)) \<longrightarrow> used s b) \<and>
     (\<forall>c<nblk s. BBLOCK c (sb s) \<noteq> 1)"

lemma balloc_succeeds:
  assumes "alloc_ok s" "room 2 s" "\<exists>b<nblk s. \<not> used s b"
  obtains b s' where "balloc 1 s = Ok (b, s')" "b < nblk s" "\<not> used s b"
    "s' = s\<lparr>blk := (blk s)(BBLOCK b (sb s) := bitmap_set (b mod BPB) (blk s (BBLOCK b (sb s))),
                          b := replicate BSIZE 0),
            tlog := logadd b (logadd (BBLOCK b (sb s)) (tlog s))\<rparr>"
    "\<forall>c<nblk s. used s' c \<longleftrightarrow> used s c \<or> c = b" "alloc_ok s'"
proof -
  define b where "b = (LEAST b. b < nblk s \<and> \<not> used s b)"
  have b: "b < nblk s" "\<not> used s b" using LeastI_ex [OF assms(3)] by (auto simp: b_def)
  have min: "\<forall>c<b. used s c"
  proof (intro allI impI)
    fix c
    assume "c < b"
    then show "used s c" using not_less_Least [of c "\<lambda>b. b < nblk s \<and> \<not> used s b"] b(1) by (auto simp: b_def)
  qed
  note ok = assms(1) [unfolded alloc_ok_def]
  have nb: "b \<noteq> BBLOCK c (sb s)" if "c < nblk s" for c using ok b that by blast
  have ne: "b \<noteq> 1" "b \<notin> set (hold s)" using ok b by auto
  define s' where "s' = s\<lparr>blk := (blk s)(BBLOCK b (sb s) := bitmap_set (b mod BPB) (blk s (BBLOCK b (sb s))),
                          b := replicate BSIZE 0), tlog := logadd b (logadd (BBLOCK b (sb s)) (tlog s))\<rparr>"
  have 1: "balloc 1 s = Ok (b, s')" unfolding s'_def
    by (rule balloc_ok) (use ok assms(2) b min ne nb in auto)
  have u: "used s' c \<longleftrightarrow> used s c \<or> c = b" if "c < nblk s" for c
    by (rule used_set [OF _ b(1) that]) (use ok nb [OF that] in \<open>auto simp: s'_def\<close>)
  have "alloc_ok s'"
    using ok u b nb ne by (auto simp: alloc_ok_def bitmap_ok_def sb_synced_def s'_def)
  then show ?thesis using that [OF 1 b s'_def] u by blast
qed

lemma bfree_succeeds:
  assumes "alloc_ok s" "room 1 s" "b < nblk s" "used s b" "b \<notin> set (hold s)" "b \<noteq> 1"
    "\<forall>c<nblk s. b \<noteq> BBLOCK c (sb s)"
  obtains s' where "bfree 1 b s = Ok s'"
    "s' = s\<lparr>blk := (blk s)(BBLOCK b (sb s) := bitmap_clear (b mod BPB) (blk s (BBLOCK b (sb s)))),
            tlog := logadd (BBLOCK b (sb s)) (tlog s)\<rparr>"
    "\<forall>c<nblk s. used s' c \<longleftrightarrow> used s c \<and> c \<noteq> b" "alloc_ok s'"
proof -
  note ok = assms(1) [unfolded alloc_ok_def]
  define s' where "s' = s\<lparr>blk := (blk s)(BBLOCK b (sb s) := bitmap_clear (b mod BPB) (blk s (BBLOCK b (sb s)))),
            tlog := logadd (BBLOCK b (sb s)) (tlog s)\<rparr>"
  have 1: "bfree 1 b s = Ok s'" unfolding s'_def
    by (rule bfree_ok) (use ok assms in auto)
  have u: "used s' c \<longleftrightarrow> used s c \<and> c \<noteq> b" if "c < nblk s" for c
    by (rule used_clear [OF _ assms(3) that]) (use ok in \<open>auto simp: s'_def\<close>)
  have e: "sb s' = sb s" "hold s' = hold s" "tdsz s' = tdsz s" by (simp_all add: s'_def)
  have "blk s' 1 = blk s 1" using ok assms(3) by (auto simp: s'_def)
  then have "sb_synced s'" using ok e by (simp add: sb_synced_def)
  moreover have "bitmap_ok s'" using ok assms(3) by (auto simp: bitmap_ok_def s'_def)
  ultimately have "alloc_ok s'" using ok u assms(5-7) unfolding alloc_ok_def e by auto
  then show ?thesis using that [OF 1 s'_def] u by blast
qed

section \<open>Properties of the allocator\<close>


text \<open>A small file system: blocks 0 to 8 in use, inode 1 a file.\<close>

definition demo_dinode :: dinode where
  "demo_dinode = zero_dinode\<lparr>d_type := T_FILE, d_nlink := 1\<rparr>"

definition demo_blk :: "nat \<Rightarrow> block" where
  "demo_blk b =
     (if b = 7 then 255 # 1 # replicate 510 0
      else if b = 6 then set_slot 64 1 (enc_dinode demo_dinode) (replicate BSIZE 0)
      else demo_disk b)"

definition demo_fs :: fs where
  "demo_fs = \<lparr>blk = demo_blk, hold = [], touched = [], tlog = [], tcap = 10, topen = True, tdsz = 20,
     sb = demo_sb,
     inodes = (\<lambda>i. \<lparr>i_dev = 0, i_inum = 0, i_ref = 0, i_lock = initsleeplock, i_valid = False, i_d = zero_dinode\<rparr>),
     fpid = 1, fcwd = 0\<rparr>"

lemma demo_BBLOCK: "b < 20 \<Longrightarrow> BBLOCK b demo_sb = 7"
  by (simp add: BBLOCK_def BPB_def BSIZE_def demo_sb_def)

lemma demo_sb_size [simp]: "sb_size demo_sb = 20"
  by (simp add: demo_sb_def)

lemma demo_sb_fields [simp]: "sb demo_fs = demo_sb" "tdsz demo_fs = 20"
  "hold demo_fs = []" "touched demo_fs = []" "blk demo_fs = demo_blk"
  by (simp_all add: demo_fs_def)

lemma demo_used: "b < 20 \<Longrightarrow> used demo_fs b \<longleftrightarrow> b < 9"
proof -
  have "\<forall>b\<in>set [0..<20]. bitmap_bit (255 # 1 # replicate 510 0) b \<longleftrightarrow> b < 9"
    by (simp add: upt_rec bitmap_bit_iff del: set_upt)
  then show "b < 20 \<Longrightarrow> used demo_fs b \<longleftrightarrow> b < 9"
    by (simp add: used_def demo_BBLOCK demo_blk_def BPB_def BSIZE_def)
qed

lemma demo_alloc_ok: "alloc_ok demo_fs"
proof -
  have "dec_superblock (take 28 (demo_blk 1)) = demo_sb"
    using csb.dec_enc [of demo_sb] csb.enc_width [of demo_sb] by (simp add: demo_blk_def demo_disk_def)
  then have "sb_synced demo_fs" by (simp add: sb_synced_def)
  moreover have "bitmap_ok demo_fs" by (simp add: bitmap_ok_def demo_BBLOCK demo_blk_def BSIZE_def)
  ultimately show ?thesis by (auto simp: alloc_ok_def demo_used demo_BBLOCK)
qed


end
