(* ===== verification/FsInode.thy ===== *)
theory FsInode
  imports FsBlocks
begin

text \<open>
  Lemmas on the inode cache and on the inode blocks of theory \<open>Fs\<close>: reference
  counts, one cache entry per inode, and that iupdate() and ilock() are inverse
  on the disk.
\<close>

section \<open>The inode cache\<close>

definition icache_ok :: "fs \<Rightarrow> bool" where
  "icache_ok s \<longleftrightarrow> (\<forall>i<NINODE. 0 \<le> i_ref (inodes s i)) \<and>
     (\<forall>i<NINODE. \<forall>j<NINODE. 0 < i_ref (inodes s i) \<longrightarrow> 0 < i_ref (inodes s j) \<longrightarrow>
        i_dev (inodes s i) = i_dev (inodes s j) \<longrightarrow> i_inum (inodes s i) = i_inum (inodes s j) \<longrightarrow> i = j)"

text \<open>Entry \<open>i\<close> is in use for the inode.\<close>

definition caches :: "fs \<Rightarrow> nat \<Rightarrow> nat \<Rightarrow> nat \<Rightarrow> bool" where
  "caches s i dev inum \<longleftrightarrow> i < NINODE \<and> 0 < i_ref (inodes s i) \<and> i_dev (inodes s i) = dev \<and> i_inum (inodes s i) = inum"

definition refs :: "fs \<Rightarrow> nat \<Rightarrow> nat \<Rightarrow> int" where
  "refs s dev inum = (\<Sum>i\<leftarrow>[0..<NINODE]. if caches s i dev inum then i_ref (inodes s i) else 0)"

lemma inodes_upd_inode [simp]: "inodes (upd_inode i f s) j = (if j = i then f (inodes s i) else inodes s j)"
  by (simp add: upd_inode_def)

lemma upd_inode_simps [simp]:
  "blk (upd_inode i f s) = blk s" "hold (upd_inode i f s) = hold s" "touched (upd_inode i f s) = touched s"
  "tlog (upd_inode i f s) = tlog s" "tcap (upd_inode i f s) = tcap s" "topen (upd_inode i f s) = topen s"
  "tdsz (upd_inode i f s) = tdsz s" "sb (upd_inode i f s) = sb s" "fpid (upd_inode i f s) = fpid s"
  "fcwd (upd_inode i f s) = fcwd s"
  by (simp_all add: upd_inode_def)

lemma icache_okD: "icache_ok s \<Longrightarrow> caches s i dev inum \<Longrightarrow> caches s j dev inum \<Longrightarrow> i = j"
  by (auto simp: icache_ok_def caches_def)

lemma find_caches:
  assumes "icache_ok s" "caches s i dev inum"
  shows "find (\<lambda>i. 0 < i_ref (inodes s i) \<and> i_dev (inodes s i) = dev \<and> i_inum (inodes s i) = inum) [0..<NINODE] = Some i"
proof (rule find_upt)
  show "\<forall>j<i. \<not> (0 < i_ref (inodes s j) \<and> i_dev (inodes s j) = dev \<and> i_inum (inodes s j) = inum)"
  proof (intro allI impI notI)
    fix j
    assume "j < i" "0 < i_ref (inodes s j) \<and> i_dev (inodes s j) = dev \<and> i_inum (inodes s j) = inum"
    with assms(2) have "caches s j dev inum" by (simp add: caches_def)
    with icache_okD [OF assms this] \<open>j < i\<close> show False by simp
  qed
qed (use assms(2) in \<open>auto simp: caches_def\<close>)

lemma iget_cached:
  assumes "icache_ok s" "caches s i dev inum"
  shows "iget dev inum s = Ok (i, upd_inode i (\<lambda>ip. ip\<lparr>i_ref := i_ref ip + 1\<rparr>) s)"
  unfolding iget_def find_caches [OF assms] by simp

lemma iget_fresh:
  assumes "\<forall>i. \<not> caches s i dev inum" "i < NINODE" "i_ref (inodes s i) = 0"
    "\<forall>j<i. i_ref (inodes s j) \<noteq> 0"
  shows "iget dev inum s = Ok (i, upd_inode i (\<lambda>ip. ip\<lparr>i_dev := dev, i_inum := inum, i_ref := 1, i_valid := False\<rparr>) s)"
proof -
  have "find (\<lambda>i. 0 < i_ref (inodes s i) \<and> i_dev (inodes s i) = dev \<and> i_inum (inodes s i) = inum) [0..<NINODE] = None"
    by (rule find_upt_None) (use assms(1) in \<open>auto simp: caches_def\<close>)
  moreover have "find (\<lambda>i. i_ref (inodes s i) = 0) [0..<NINODE] = Some i"
    by (rule find_upt) (use assms(2-4) in auto)
  ultimately show ?thesis by (simp add: iget_def)
qed

lemma iget_full:
  assumes "\<forall>i. \<not> caches s i dev inum" "\<forall>i<NINODE. i_ref (inodes s i) \<noteq> 0"
  shows "iget dev inum s = Panic ''iget: no inodes''"
proof -
  have "find (\<lambda>i. 0 < i_ref (inodes s i) \<and> i_dev (inodes s i) = dev \<and> i_inum (inodes s i) = inum) [0..<NINODE] = None"
    by (rule find_upt_None) (use assms(1) in \<open>auto simp: caches_def\<close>)
  moreover have "find (\<lambda>i. i_ref (inodes s i) = 0) [0..<NINODE] = None"
    by (rule find_upt_None) (use assms(2) in auto)
  ultimately show ?thesis by (simp add: iget_def)
qed

lemma refs_one:
  assumes "icache_ok s" "caches s i dev inum"
  shows "refs s dev inum = i_ref (inodes s i)"
proof -
  have "(if caches s j dev inum then i_ref (inodes s j) else 0) = (if j = i then i_ref (inodes s i) else 0)" for j
  proof (cases "caches s j dev inum")
    case True
    then show ?thesis using icache_okD [OF assms True] assms(2) by simp
  next
    case False
    then show ?thesis using assms(2) by auto
  qed
  then have "refs s dev inum = (\<Sum>j\<leftarrow>[0..<NINODE]. if j = i then i_ref (inodes s i) else 0)"
    by (simp add: refs_def)
  also have "\<dots> = i_ref (inodes s i)"
    using assms(2) by (subst sum_list_distinct_conv_sum_set) (auto simp: caches_def)
  finally show ?thesis .
qed

lemma refs_none: "\<forall>i. \<not> caches s i dev inum \<Longrightarrow> refs s dev inum = 0"
  by (simp add: refs_def)

text \<open>
  The effect of iget(): one more reference to the inode, the others as before.
\<close>

lemma iget_ok:
  assumes "icache_ok s" "iget dev inum s = Ok (i, s')"
  shows "icache_ok s'" "caches s' i dev inum" "refs s' dev inum = refs s dev inum + 1"
    "\<forall>j. j \<noteq> i \<longrightarrow> inodes s' j = inodes s j"
    "caches s i dev inum \<or> i_ref (inodes s i) = 0 \<and> \<not> i_valid (inodes s' i)"
    "blk s' = blk s" "hold s' = hold s" "tlog s' = tlog s" "sb s' = sb s"
proof -
  have "icache_ok s' \<and> caches s' i dev inum \<and> refs s' dev inum = refs s dev inum + 1 \<and>
    (\<forall>j. j \<noteq> i \<longrightarrow> inodes s' j = inodes s j) \<and>
    (caches s i dev inum \<or> i_ref (inodes s i) = 0 \<and> \<not> i_valid (inodes s' i)) \<and>
    blk s' = blk s \<and> hold s' = hold s \<and> tlog s' = tlog s \<and> sb s' = sb s"
  proof (cases "\<exists>j. caches s j dev inum")
    case True
    then obtain j where j: "caches s j dev inum" by blast
    have s': "i = j" "s' = upd_inode j (\<lambda>ip. ip\<lparr>i_ref := i_ref ip + 1\<rparr>) s"
      using iget_cached [OF assms(1) j] assms(2) by auto
    have ok: "icache_ok s'" using assms(1) j unfolding s'(2)
      by (auto simp: icache_ok_def caches_def)
    have c: "caches s' j dev inum" using j by (simp add: s' caches_def)
    show ?thesis using refs_one [OF ok c] refs_one [OF assms(1) j] ok c j by (simp add: s')
  next
    case False
    then have f: "find (\<lambda>i. 0 < i_ref (inodes s i) \<and> i_dev (inodes s i) = dev \<and> i_inum (inodes s i) = inum) [0..<NINODE] = None"
      by (intro find_upt_None) (auto simp: caches_def)
    then obtain k where k: "find (\<lambda>i. i_ref (inodes s i) = 0) [0..<NINODE] = Some k"
      using assms(2) by (auto simp: iget_def split: option.splits)
    then have k0: "k < NINODE" "i_ref (inodes s k) = 0" by (auto simp: find_Some_iff)
    have s': "i = k" "s' = upd_inode k (\<lambda>ip. ip\<lparr>i_dev := dev, i_inum := inum, i_ref := 1, i_valid := False\<rparr>) s"
      using assms(2) f k by (auto simp: iget_def)
    have ok: "icache_ok s'" using assms(1) False unfolding s'(2)
      by (auto simp: icache_ok_def caches_def)
    have c: "caches s' k dev inum" using k0 by (simp add: s' caches_def)
    show ?thesis using refs_one [OF ok c] refs_none [of s dev inum] False k0 ok c by (simp add: s')
  qed
  then show "icache_ok s'" "caches s' i dev inum" "refs s' dev inum = refs s dev inum + 1"
    "\<forall>j. j \<noteq> i \<longrightarrow> inodes s' j = inodes s j"
    "caches s i dev inum \<or> i_ref (inodes s i) = 0 \<and> \<not> i_valid (inodes s' i)"
    "blk s' = blk s" "hold s' = hold s" "tlog s' = tlog s" "sb s' = sb s" by blast+
qed

lemma iput_keeps:
  assumes "\<not> (i_ref (inodes s ip) = 1 \<and> i_valid (inodes s ip) \<and> d_nlink (i_d (inodes s ip)) = 0)"
  shows "iput ip s = Ok (upd_inode ip (\<lambda>i. i\<lparr>i_ref := i_ref i - 1\<rparr>) s)"
  using assms by (auto simp: iput_def Let_def)

lemma refs_frame:
  assumes "\<And>j. j < NINODE \<Longrightarrow> caches s' j d n = caches s j d n"
    "\<And>j. caches s j d n \<Longrightarrow> i_ref (inodes s' j) = i_ref (inodes s j)"
  shows "refs s' d n = refs s d n"
  unfolding refs_def by (rule arg_cong [where f = sum_list], rule map_cong) (use assms in auto)

section \<open>Inode blocks\<close>

text \<open>The block of inode \<open>inum\<close> can be read, and its bytes decode to the inode.\<close>

definition iblock_ok :: "fs \<Rightarrow> nat \<Rightarrow> bool" where
  "iblock_ok s inum \<longleftrightarrow> IBLOCK inum (sb s) < tdsz s \<and> IBLOCK inum (sb s) \<notin> set (hold s) \<and>
     length (blk s (IBLOCK inum (sb s))) = BSIZE"

definition disk_inode :: "fs \<Rightarrow> nat \<Rightarrow> dinode" where
  "disk_inode s inum = dec_dinode (slot 64 (inum mod IPB) (blk s (IBLOCK inum (sb s))))"

lemma IPB_slot: "64 * Suc (i mod IPB) \<le> BSIZE"
proof -
  have "i mod 8 < 8" by simp
  then have "Suc (i mod 8) \<le> 8" by (rule Suc_leI)
  then have "64 * Suc (i mod 8) \<le> 64 * 8" by (intro mult_le_mono) auto
  then show ?thesis by (simp add: IPB_def BSIZE_def)
qed

lemma IBLOCK_same: "IBLOCK i p = IBLOCK j p \<Longrightarrow> i mod IPB = j mod IPB \<longleftrightarrow> i = j"
  by (metis IBLOCK_def add_right_cancel div_mult_mod_eq)

lemma iupdate_ok:
  assumes "iblock_ok s (i_inum (inodes s ip))" "i_dev (inodes s ip) = 1" "room (Suc k) s"
  shows "iupdate ip s = Ok (s\<lparr>blk := (blk s)(IBLOCK (i_inum (inodes s ip)) (sb s) :=
        set_slot 64 (i_inum (inodes s ip) mod IPB) (enc_dinode (i_d (inodes s ip)))
          (blk s (IBLOCK (i_inum (inodes s ip)) (sb s)))),
      tlog := logadd (IBLOCK (i_inum (inodes s ip)) (sb s)) (tlog s)\<rparr>)"
proof -
  let ?bp = "IBLOCK (i_inum (inodes s ip)) (sb s)"
  have bp: "?bp \<notin> set (hold s)" "?bp < tdsz s" using assms(1) by (auto simp: iblock_ok_def)
  have "tbread 1 ?bp s = Ok (s\<lparr>hold := ?bp # hold s\<rparr>)" using bp by (simp add: tbread_Ok)
  then show ?thesis
    unfolding iupdate_def Let_def assms(2)
    using modify_Ok [OF bp assms(3)] by simp
qed

lemma disk_inode_store:
  assumes "length (blk s (IBLOCK i (sb s))) = BSIZE" "wf_dinode d" "sb s' = sb s"
    "blk s' = (blk s)(IBLOCK i (sb s) := set_slot 64 (i mod IPB) (enc_dinode d) (blk s (IBLOCK i (sb s))))"
  shows "disk_inode s' j = (if j = i then d else disk_inode s j)"
proof (cases "IBLOCK j (sb s) = IBLOCK i (sb s)")
  case True
  then show ?thesis
    using cdi.stored_slot [OF assms(2), of "i mod IPB" "blk s (IBLOCK i (sb s))"]
      cdi.other_slot [OF assms(2), of "i mod IPB" "blk s (IBLOCK i (sb s))" "j mod IPB"]
      assms(1) IPB_slot IBLOCK_same [OF True] by (auto simp: disk_inode_def assms(3,4))
next
  case False
  then show ?thesis by (auto simp: disk_inode_def assms(3,4))
qed

lemma ilock_load:
  assumes "0 < i_ref (inodes s ip)" "\<not> sl_locked (i_lock (inodes s ip))" "\<not> i_valid (inodes s ip)"
    "iblock_ok s (i_inum (inodes s ip))" "i_dev (inodes s ip) = 1" "touched s = []"
    "d_type (disk_inode s (i_inum (inodes s ip))) \<noteq> 0"
  shows "ilock (Some ip) s = Ok (upd_inode ip (\<lambda>i. i\<lparr>i_lock := \<lparr>sl_locked = True, sl_pid = fpid s\<rparr>,
      i_d := disk_inode s (i_inum i), i_valid := True\<rparr>) s)"
proof -
  let ?bp = "IBLOCK (i_inum (inodes s ip)) (sb s)"
  have bp: "?bp \<notin> set (hold s)" "?bp < tdsz s" using assms(4) by (auto simp: iblock_ok_def)
  then show ?thesis
    using assms(1-3,5-7)
    by (simp add: ilock_def acquiresleep_free Let_def tbread_def tbrelse_def upd_inode_def disk_inode_def)
qed

text \<open>An iput() of what iget() returned undoes the reference.\<close>

lemma caches_frame:
  assumes "\<forall>j. i_ref (inodes s2 j) = i_ref (inodes s j)"
    "\<forall>j. 0 < i_ref (inodes s j) \<longrightarrow> inodes s2 j = inodes s j" "icache_ok s"
  shows "icache_ok s2" "refs s2 d n = refs s d n"
proof -
  have c: "caches s2 j d n = caches s j d n" for j d n
    using assms(1,2) by (auto simp: caches_def)
  show "refs s2 d n = refs s d n" by (rule refs_frame) (simp_all add: c assms(1))
  show "icache_ok s2" unfolding icache_ok_def
  proof (intro conjI allI impI)
    fix i assume "i < NINODE"
    then show "0 \<le> i_ref (inodes s2 i)" using assms(1,3) by (simp add: icache_ok_def)
  next
    fix i j assume "i < NINODE" "j < NINODE" "0 < i_ref (inodes s2 i)" "0 < i_ref (inodes s2 j)"
      "i_dev (inodes s2 i) = i_dev (inodes s2 j)" "i_inum (inodes s2 i) = i_inum (inodes s2 j)"
    then have "caches s2 i (i_dev (inodes s2 i)) (i_inum (inodes s2 i))"
      "caches s2 j (i_dev (inodes s2 i)) (i_inum (inodes s2 i))" by (simp_all add: caches_def)
    then show "i = j" using icache_okD [OF assms(3)] unfolding c by blast
  qed
qed

lemma iget_iput:
  assumes ok: "icache_ok s" and 1: "iget dev inum s = Ok (i, s1)"
  shows "\<exists>s2. iput i s1 = Ok s2 \<and> icache_ok s2 \<and> (\<forall>d n. refs s2 d n = refs s d n) \<and> blk s2 = blk s"
proof (cases "caches s i dev inum")
  case True
  then have s1: "s1 = upd_inode i (\<lambda>ip. ip\<lparr>i_ref := i_ref ip + 1\<rparr>) s" using iget_cached [OF ok True] 1 by simp
  have "0 < i_ref (inodes s i)" using True by (simp add: caches_def)
  then have 2: "iput i s1 = Ok (upd_inode i (\<lambda>ip. ip\<lparr>i_ref := i_ref ip - 1\<rparr>) s1)"
    by (intro iput_keeps) (simp add: s1)
  show ?thesis unfolding 2
    using caches_frame [OF _ _ ok, of "upd_inode i (\<lambda>ip. ip\<lparr>i_ref := i_ref ip - 1\<rparr>) s1"] by (simp add: s1)
next
  case False
  note g = iget_ok [OF ok 1]
  have r: "i_ref (inodes s i) = 0" "\<not> i_valid (inodes s1 i)" using g(5) False by auto
  have "i_ref (inodes s1 i) = 1" using 1 r(1) by (auto simp: iget_def find_Some_iff split: option.splits)
  moreover have 2: "iput i s1 = Ok (upd_inode i (\<lambda>ip. ip\<lparr>i_ref := i_ref ip - 1\<rparr>) s1)"
    by (intro iput_keeps) (simp add: r)
  ultimately show ?thesis unfolding 2
    using caches_frame [OF _ _ ok, of "upd_inode i (\<lambda>ip. ip\<lparr>i_ref := i_ref ip - 1\<rparr>) s1"] g(4,6) r(1) by simp
qed

lemma iget_fails:
  assumes ok: "icache_ok s" and 1: "\<forall>x. iget dev inum s \<noteq> Ok x"
  shows "iget dev inum s = Panic ''iget: no inodes''" "i < NINODE \<Longrightarrow> i_ref (inodes s i) \<noteq> 0" "\<not> caches s i dev inum"
proof -
  show nc: "\<not> caches s i dev inum" for i using iget_cached [OF ok, of i dev inum] 1 by blast
  have "find (\<lambda>i. i_ref (inodes s i) = 0) [0..<NINODE] = None"
  proof (rule ccontr)
    assume "find (\<lambda>i. i_ref (inodes s i) = 0) [0..<NINODE] \<noteq> None"
    then obtain k where "find (\<lambda>i. i_ref (inodes s i) = 0) [0..<NINODE] = Some k" by blast
    then show False using 1 by (auto simp: iget_def split: option.splits)
  qed
  then have r: "\<forall>i<NINODE. i_ref (inodes s i) \<noteq> 0" by (auto simp: find_None_iff)
  then show "i < NINODE \<Longrightarrow> i_ref (inodes s i) \<noteq> 0" by blast
  show "iget dev inum s = Panic ''iget: no inodes''" by (rule iget_full) (use nc r in auto)
qed

section \<open>Properties\<close>

text \<open>
  C5: The inode cache has one entry per inode.  In a cache where no two entries
  in use are for the same inode, iget() either panics, and then every entry is
  in use and none is for this inode, or returns the one entry for it with one
  more reference; the other entries and the disk are as before and the cache
  still has one entry per inode; and an iput() of the result succeeds without
  freeing the inode and makes the reference count of every inode what it was.
\<close>

theorem iget_iput_balanced:
  assumes "icache_ok s"
  shows "case iget dev inum s of
      Ok (i, s1) \<Rightarrow> icache_ok s1 \<and> caches s1 i dev inum \<and> refs s1 dev inum = refs s dev inum + 1 \<and>
        (\<forall>j. j \<noteq> i \<longrightarrow> inodes s1 j = inodes s j) \<and> blk s1 = blk s \<and>
        (\<exists>s2. iput i s1 = Ok s2 \<and> icache_ok s2 \<and> (\<forall>d n. refs s2 d n = refs s d n) \<and> blk s2 = blk s)
    | Panic m \<Rightarrow> m = ''iget: no inodes'' \<and> (\<forall>i<NINODE. i_ref (inodes s i) \<noteq> 0 \<and> \<not> caches s i dev inum)
    | Blocks m \<Rightarrow> False"
proof (cases "\<exists>i s1. iget dev inum s = Ok (i, s1)")
  case True
  then obtain i s1 where 1: "iget dev inum s = Ok (i, s1)" by blast
  then show ?thesis using iget_ok [OF assms 1] iget_iput [OF assms 1] by simp
next
  case False
  then have n: "\<forall>x. iget dev inum s \<noteq> Ok x" by auto
  show ?thesis unfolding iget_fails(1) [OF assms n] using iget_fails(2,3) [OF assms n] by simp
qed

lemma demo_inodes [simp]: "i_ref (inodes demo_fs i) = 0"
  by (simp add: demo_fs_def)

theorem iget_iput_balanced_witness:
  "\<exists>i s1 s2. icache_ok demo_fs \<and> iget 1 2 demo_fs = Ok (i, s1) \<and> refs s1 1 2 = refs demo_fs 1 2 + 1 \<and>
     iput i s1 = Ok s2 \<and> refs s2 1 2 = refs demo_fs 1 2"
proof -
  have ok: "icache_ok demo_fs" by (simp add: icache_ok_def)
  have "\<exists>i s1. iget 1 2 demo_fs = Ok (i, s1)"
    using iget_fails(2) [OF ok, of 1 2 1] by (fastforce simp: NINODE_def)
  then obtain i s1 where 1: "iget 1 2 demo_fs = Ok (i, s1)" by blast
  then show ?thesis using iget_iput_balanced [OF ok, of 1 2] ok by auto
qed

text \<open>
  C6: iupdate() followed by a load is the identity.  When the block of the inode
  can be read and the transaction has room, iupdate() succeeds and changes the
  on-disk copy of this inode to the one in memory and of no other inode; and in
  every later state with that disk, an entry that iget() has recycled for this
  inode number loads the same type, link count, size and addresses in ilock().
\<close>

theorem iupdate_ilock_roundtrip:
  assumes "iblock_ok s (i_inum (inodes s ip))" "i_dev (inodes s ip) = 1" "room 1 s"
    "wf_dinode (i_d (inodes s ip))" "d_type (i_d (inodes s ip)) \<noteq> 0"
  shows "\<exists>s'. iupdate ip s = Ok s' \<and>
      (\<forall>j. disk_inode s' j = (if j = i_inum (inodes s ip) then i_d (inodes s ip) else disk_inode s j)) \<and>
      (\<forall>t jp. blk t = blk s' \<longrightarrow> sb t = sb s' \<longrightarrow> tdsz t = tdsz s' \<longrightarrow> hold t = [] \<longrightarrow> touched t = [] \<longrightarrow>
         0 < i_ref (inodes t jp) \<longrightarrow> \<not> sl_locked (i_lock (inodes t jp)) \<longrightarrow> \<not> i_valid (inodes t jp) \<longrightarrow>
         i_dev (inodes t jp) = 1 \<longrightarrow> i_inum (inodes t jp) = i_inum (inodes s ip) \<longrightarrow>
         (\<exists>t'. ilock (Some jp) t = Ok t' \<and> i_d (inodes t' jp) = i_d (inodes s ip) \<and> i_valid (inodes t' jp)))"
proof -
  let ?n = "i_inum (inodes s ip)" and ?d = "i_d (inodes s ip)"
  let ?s' = "s\<lparr>blk := (blk s)(IBLOCK ?n (sb s) := set_slot 64 (?n mod IPB) (enc_dinode ?d) (blk s (IBLOCK ?n (sb s)))),
    tlog := logadd (IBLOCK ?n (sb s)) (tlog s)\<rparr>"
  have u: "iupdate ip s = Ok ?s'" using iupdate_ok [of s ip 0] assms(1-3) by simp
  have d: "disk_inode ?s' j = (if j = ?n then ?d else disk_inode s j)" for j
    by (rule disk_inode_store) (use assms(1,4) in \<open>auto simp: iblock_ok_def\<close>)
  have "iblock_ok ?s' ?n"
    using assms(1) cdi.enc_width [OF assms(4)] IPB_slot [of ?n] by (simp add: iblock_ok_def)
  have "\<exists>t'. ilock (Some jp) t = Ok t' \<and> i_d (inodes t' jp) = ?d \<and> i_valid (inodes t' jp)"
    if t: "blk t = blk ?s'" "sb t = sb ?s'" "tdsz t = tdsz ?s'" "hold t = []" "touched t = []" "0 < i_ref (inodes t jp)"
      "\<not> sl_locked (i_lock (inodes t jp))" "\<not> i_valid (inodes t jp)" "i_dev (inodes t jp) = 1"
      "i_inum (inodes t jp) = ?n" for t jp
  proof -
    have e: "disk_inode t ?n = ?d" using d [of ?n] t(1,2) by (simp add: disk_inode_def)
    have b: "iblock_ok t (i_inum (inodes t jp))"
      using \<open>iblock_ok ?s' ?n\<close> t(1-4) unfolding t(10) by (simp add: iblock_ok_def)
    show ?thesis using ilock_load [OF t(6-8) b t(9,5)] assms(5) by (simp add: t(10) e)
  qed
  with u d show ?thesis by blast
qed

text \<open>The file system of the examples with inode 1 in entry 0, its size changed.\<close>

definition demo_open :: fs where
  "demo_open = upd_inode 0 (\<lambda>i. \<lparr>i_dev = 1, i_inum = 1, i_ref = 1, i_lock = \<lparr>sl_locked = True, sl_pid = 1\<rparr>,
     i_valid = True, i_d = demo_dinode\<lparr>d_size := 7\<rparr>\<rparr>) demo_fs"

lemma demo_open_simps [simp]:
  "inodes demo_open 0 = \<lparr>i_dev = 1, i_inum = 1, i_ref = 1, i_lock = \<lparr>sl_locked = True, sl_pid = 1\<rparr>,
     i_valid = True, i_d = demo_dinode\<lparr>d_size := 7\<rparr>\<rparr>"
  "sb demo_open = demo_sb" "tdsz demo_open = 20" "hold demo_open = []" "blk demo_open = demo_blk" "touched demo_open = []"
  by (simp_all add: demo_open_def)

lemma demo_IBLOCK: "IBLOCK (Suc 0) demo_sb = 6"
  by (simp add: IBLOCK_def IPB_def BSIZE_def demo_sb_def)

theorem iupdate_ilock_roundtrip_witness:
  "\<exists>s'. iupdate 0 demo_open = Ok s' \<and> disk_inode s' 1 = demo_dinode\<lparr>d_size := 7\<rparr>"
proof -
  have wf: "wf_dinode demo_dinode" "wf_dinode (demo_dinode\<lparr>d_size := 7\<rparr>)"
    by (simp_all add: wf_dinode_def demo_dinode_def zero_dinode_def)
  have "length (demo_blk 6) = BSIZE"
    using cdi.enc_width [OF wf(1)] by (simp add: demo_blk_def BSIZE_def)
  then have "iblock_ok demo_open 1" by (simp add: iblock_ok_def demo_IBLOCK)
  moreover have "room 1 demo_open" by (simp add: room_def) (simp add: demo_open_def demo_fs_def)
  moreover have "d_type (demo_dinode\<lparr>d_size := 7\<rparr>) \<noteq> 0" by (simp add: demo_dinode_def T_FILE_def)
  ultimately show ?thesis using iupdate_ilock_roundtrip [of demo_open 0] wf(2) by auto
qed

end
