(* ===== verification/Queues.thy ===== *)
theory Queues
  imports Prelude
begin

text \<open>
  Bounded first-in first-out queues, the interface of the ring buffers of the
  kernel (src/pipe.c, src/console.c, src/ai.c): a queue with its content as an abstract list, the
  two loops their clients run over it, and what these loops do to the content.
\<close>

section \<open>The loops of the clients\<close>

text \<open>Put elements until the queue is full; the elements that did not fit are returned.\<close>

fun fill :: "('q \<Rightarrow> bool) \<Rightarrow> ('a \<Rightarrow> 'q \<Rightarrow> 'q) \<Rightarrow> 'a list \<Rightarrow> 'q \<Rightarrow> 'a list \<times> 'q" where
  "fill isfull put [] q = ([], q)"
| "fill isfull put (x # xs) q = (if isfull q then (x # xs, q) else fill isfull put xs (put x q))"

text \<open>Take at most \<open>n\<close> elements, stopping when the queue is empty.\<close>

fun drain :: "('q \<Rightarrow> bool) \<Rightarrow> ('q \<Rightarrow> 'a \<times> 'q) \<Rightarrow> nat \<Rightarrow> 'q \<Rightarrow> 'a list \<times> 'q" where
  "drain isempty get 0 q = ([], q)"
| "drain isempty get (Suc n) q =
     (if isempty q then ([], q)
      else let (x, q) = get q; (xs, q) = drain isempty get n q in (x # xs, q))"

section \<open>The interface\<close>

locale fifo =
  fixes ok :: "'q \<Rightarrow> bool" and content :: "'q \<Rightarrow> 'a list" and cap :: nat
    and put :: "'a \<Rightarrow> 'q \<Rightarrow> 'q" and get :: "'q \<Rightarrow> 'a \<times> 'q"
    and isfull :: "'q \<Rightarrow> bool" and isempty :: "'q \<Rightarrow> bool"
  assumes content_cap: "ok q \<Longrightarrow> length (content q) \<le> cap"
    and full_iff: "ok q \<Longrightarrow> isfull q \<longleftrightarrow> length (content q) = cap"
    and empty_iff: "ok q \<Longrightarrow> isempty q \<longleftrightarrow> content q = []"
    and put_ok: "ok q \<Longrightarrow> length (content q) < cap \<Longrightarrow> ok (put x q)"
    and put_content: "ok q \<Longrightarrow> length (content q) < cap \<Longrightarrow> content (put x q) = content q @ [x]"
    and get_ok: "ok q \<Longrightarrow> content q \<noteq> [] \<Longrightarrow> ok (snd (get q))"
    and get_content: "ok q \<Longrightarrow> content q \<noteq> [] \<Longrightarrow> content q = fst (get q) # content (snd (get q))"
begin

lemma fill_spec:
  "ok q \<Longrightarrow> fill isfull put xs q = (ys, q') \<Longrightarrow>
     ok q' \<and> content q' = content q @ take (cap - length (content q)) xs \<and>
     ys = drop (cap - length (content q)) xs"
proof (induction xs arbitrary: q)
  case (Cons x xs)
  show ?case
  proof (cases "isfull q")
    case True
    then show ?thesis using Cons.prems full_iff by auto
  next
    case False
    then have l: "length (content q) < cap" using content_cap [OF Cons.prems(1)] full_iff [OF Cons.prems(1)] by simp
    then have "cap - length (content q) = Suc (cap - length (content (put x q)))"
      using put_content [OF Cons.prems(1) l, of x] by simp
    then show ?thesis
      using Cons.IH [OF put_ok [OF Cons.prems(1) l, of x]] Cons.prems(2) False put_content [OF Cons.prems(1) l, of x]
      by simp
  qed
qed simp

lemma fill_content: "ok q \<Longrightarrow> fill isfull put xs q = (ys, q') \<Longrightarrow> content q' @ ys = content q @ xs"
  using fill_spec [of q xs ys q'] by simp

lemma fill_rest: "ok q \<Longrightarrow> fill isfull put xs q = (ys, q') \<Longrightarrow> ys \<noteq> [] \<Longrightarrow> length (content q') = cap"
  using fill_spec [of q xs ys q'] content_cap [of q] by (auto simp: min_def)

lemma drain_spec:
  "ok q \<Longrightarrow> drain isempty get n q = (ys, q') \<Longrightarrow>
     ok q' \<and> ys = take n (content q) \<and> content q' = drop n (content q)"
proof (induction n arbitrary: q ys)
  case (Suc n)
  show ?case
  proof (cases "isempty q")
    case True
    then show ?thesis using Suc.prems empty_iff by auto
  next
    case False
    then have l: "content q \<noteq> []" using empty_iff [OF Suc.prems(1)] by simp
    obtain x r where g: "get q = (x, r)" by (cases "get q")
    obtain xs where d: "drain isempty get n r = (xs, q')" "ys = x # xs"
      using Suc.prems(2) False g by (auto split: prod.splits)
    show ?thesis
      using Suc.IH [OF _ d(1)] get_ok [OF Suc.prems(1) l] get_content [OF Suc.prems(1) l] d(2) g by simp
  qed
qed simp

lemma drain_content: "ok q \<Longrightarrow> drain isempty get n q = (ys, q') \<Longrightarrow> ys @ content q' = content q"
  using drain_spec [of q n ys q'] by simp

text \<open>What is put into an empty queue comes out unchanged and in order.\<close>

lemma fill_drain:
  assumes "ok q" "content q = []" "length xs \<le> cap" "length xs \<le> n" "fill isfull put xs q = (ys, q')"
  shows "ys = [] \<and> fst (drain isempty get n q') = xs"
  using fill_spec [OF assms(1,5)] drain_spec [of q' n] assms(2-4)
  by (cases "drain isempty get n q'") simp

end

end
