(* ===== verification/Pipe.thy ===== *)
theory Pipe
  imports Queues Locks
begin

text \<open>
  src/pipe.c: a pipe is a ring of \<open>PIPESIZE\<close> bytes indexed by two 32-bit
  counters that are never reset and wrap around.  pipewrite() and piperead()
  hold the pipe's lock except while they sleep, so one run of either from
  entry or wakeup to return or sleep() is one step; the step relation
  interleaves the runs of a writer and a reader, closing the two ends and
  kill().  pipealloc() is in theory \<open>File\<close> with the file table it uses.
\<close>

section \<open>The ring\<close>

definition PIPESIZE :: nat where
  "PIPESIZE = 512"

record pipe =
  pdata :: "u8 list"
  nread :: u32
  nwrite :: u32
  readopen :: bool
  writeopen :: bool

text \<open>The fields pipealloc() sets; \<open>d\<close> is what the allocated page holds.\<close>

definition new_pipe :: "u8 list \<Rightarrow> pipe" where
  "new_pipe d = \<lparr>pdata = d, nread = 0, nwrite = 0, readopen = True, writeopen = True\<rparr>"

definition pipe_full :: "pipe \<Rightarrow> bool" where
  "pipe_full p \<longleftrightarrow> nwrite p = nread p + word_of_nat PIPESIZE"

definition pipe_empty :: "pipe \<Rightarrow> bool" where
  "pipe_empty p \<longleftrightarrow> nread p = nwrite p"

definition pipe_put :: "u8 \<Rightarrow> pipe \<Rightarrow> pipe" where
  "pipe_put c p = p\<lparr>pdata := (pdata p)[unat (nwrite p) mod PIPESIZE := c], nwrite := nwrite p + 1\<rparr>"

definition pipe_get :: "pipe \<Rightarrow> u8 \<times> pipe" where
  "pipe_get p = (pdata p ! (unat (nread p) mod PIPESIZE), p\<lparr>nread := nread p + 1\<rparr>)"

section \<open>pipeclose, pipewrite, piperead\<close>

text \<open>\<open>None\<close>: both ends are closed and the page is freed.\<close>

definition pipeclose :: "bool \<Rightarrow> pipe \<Rightarrow> pipe option" where
  "pipeclose writable p =
     (let p = (if writable then p\<lparr>writeopen := False\<rparr> else p\<lparr>readopen := False\<rparr>) in
      if \<not> readopen p \<and> \<not> writeopen p then None else Some p)"

text \<open>
  A run of pipewrite() over the bytes still to write ends in a return of \<open>n\<close>
  (\<open>Wrote\<close>), a return of -1 (\<open>Refused\<close>) or in sleep() on \<open>nwrite\<close>
  (\<open>WaitSpace\<close>), with the bytes not yet written.  It wakes the readers unless
  it is refused.
\<close>

datatype wout = Wrote | Refused | WaitSpace

definition pipewrite :: "bool \<Rightarrow> u8 list \<Rightarrow> pipe \<Rightarrow> wout \<times> u8 list \<times> pipe" where
  "pipewrite killed bs p =
     (let (rest, p) = fill pipe_full pipe_put bs p in
      if rest = [] then (Wrote, rest, p)
      else if \<not> readopen p \<or> killed then (Refused, rest, p)
      else (WaitSpace, rest, p))"

text \<open>
  A run of piperead() returns the bytes it copied (\<open>Read\<close>), returns -1
  because the process was killed (\<open>ReadKilled\<close>) or sleeps on \<open>nread\<close>
  (\<open>WaitData\<close>).  It wakes the writers when it returns bytes.
\<close>

datatype rout = Read | ReadKilled | WaitData

definition piperead :: "bool \<Rightarrow> nat \<Rightarrow> pipe \<Rightarrow> rout \<times> u8 list \<times> pipe" where
  "piperead killed n p =
     (if pipe_empty p \<and> writeopen p then
        if killed then (ReadKilled, [], p) else (WaitData, [], p)
      else let (bs, p) = drain pipe_empty pipe_get n p in (Read, bs, p))"

section \<open>A writer and a reader\<close>

text \<open>
  A process inside pipewrite() has bytes left; one inside piperead() asks for a
  number of bytes.  The flag says that it is asleep and not yet woken.  The
  last two fields record the history: the bytes accepted from the writer's
  calls, and the bytes returned to the reader.
\<close>

record pipe_sys =
  pp :: pipe
  wcall :: "(u8 list \<times> bool) option"
  rcall :: "(nat \<times> bool) option"
  wkilled :: bool
  rkilled :: bool
  asked :: "u8 list"
  got :: "u8 list"

definition wake_up :: "('a \<times> bool) option \<Rightarrow> ('a \<times> bool) option" where
  "wake_up c = map_option (\<lambda>(x, _). (x, False)) c"

definition run_write :: "u8 list \<Rightarrow> pipe_sys \<Rightarrow> pipe_sys" where
  "run_write bs s =
     (case pipewrite (wkilled s) bs (pp s) of
        (Wrote, rest, p) \<Rightarrow> s\<lparr>pp := p, wcall := None, rcall := wake_up (rcall s)\<rparr>
      | (Refused, rest, p) \<Rightarrow> s\<lparr>pp := p, wcall := None, asked := take (length (asked s) - length rest) (asked s)\<rparr>
      | (WaitSpace, rest, p) \<Rightarrow> s\<lparr>pp := p, wcall := Some (rest, True), rcall := wake_up (rcall s)\<rparr>)"

definition run_read :: "nat \<Rightarrow> pipe_sys \<Rightarrow> pipe_sys" where
  "run_read n s =
     (case piperead (rkilled s) n (pp s) of
        (Read, bs, p) \<Rightarrow> s\<lparr>pp := p, rcall := None, wcall := wake_up (wcall s), got := got s @ bs\<rparr>
      | (ReadKilled, bs, p) \<Rightarrow> s\<lparr>rcall := None\<rparr>
      | (WaitData, bs, p) \<Rightarrow> s\<lparr>rcall := Some (n, True)\<rparr>)"

inductive pipe_step :: "pipe_sys \<Rightarrow> pipe_sys \<Rightarrow> bool" where
  write_call: "writeopen (pp s) \<Longrightarrow> wcall s = None \<Longrightarrow> pipe_step s (run_write bs (s\<lparr>asked := asked s @ bs\<rparr>))"
| write_resume: "wcall s = Some (bs, False) \<Longrightarrow> pipe_step s (run_write bs s)"
| read_call: "readopen (pp s) \<Longrightarrow> rcall s = None \<Longrightarrow> pipe_step s (run_read n s)"
| read_resume: "rcall s = Some (n, False) \<Longrightarrow> pipe_step s (run_read n s)"
| close_write:
    "writeopen (pp s) \<Longrightarrow> wcall s = None \<Longrightarrow> pipeclose True (pp s) = Some p \<Longrightarrow>
     pipe_step s (s\<lparr>pp := p, rcall := wake_up (rcall s)\<rparr>)"
| close_read:
    "readopen (pp s) \<Longrightarrow> rcall s = None \<Longrightarrow> pipeclose False (pp s) = Some p \<Longrightarrow>
     pipe_step s (s\<lparr>pp := p, wcall := wake_up (wcall s)\<rparr>)"
| kill_writer: "pipe_step s (s\<lparr>wkilled := True, wcall := wake_up (wcall s)\<rparr>)"
| kill_reader: "pipe_step s (s\<lparr>rkilled := True, rcall := wake_up (rcall s)\<rparr>)"

inductive pipe_reach :: "pipe_sys \<Rightarrow> bool" where
  pipe_start: "length d = PIPESIZE \<Longrightarrow>
    pipe_reach \<lparr>pp = new_pipe d, wcall = None, rcall = None, wkilled = False, rkilled = False, asked = [], got = []\<rparr>"
| pipe_next: "pipe_reach s \<Longrightarrow> pipe_step s s' \<Longrightarrow> pipe_reach s'"

section \<open>The ring is a queue\<close>

definition pipe_len :: "pipe \<Rightarrow> nat" where
  "pipe_len p = unat (nwrite p - nread p)"

definition pipe_content :: "pipe \<Rightarrow> u8 list" where
  "pipe_content p = map (\<lambda>k. pdata p ! ((unat (nread p) + k) mod PIPESIZE)) [0..<pipe_len p]"

definition pipe_ok :: "pipe \<Rightarrow> bool" where
  "pipe_ok p \<longleftrightarrow> length (pdata p) = PIPESIZE \<and> pipe_len p \<le> PIPESIZE"

lemma length_pipe_content [simp]: "length (pipe_content p) = pipe_len p"
  by (simp add: pipe_content_def)

text \<open>The counters wrap at a multiple of the ring's size.\<close>

lemma unat_add_mod_ring: "unat (a + b :: u32) mod PIPESIZE = (unat a + unat b) mod PIPESIZE"
  by (simp add: unat_word_ariths PIPESIZE_def mod_mod_cancel)

lemma nwrite_mod: "unat (nwrite p) mod PIPESIZE = (unat (nread p) + pipe_len p) mod PIPESIZE"
  using unat_add_mod_ring [of "nread p" "nwrite p - nread p"] by (simp add: pipe_len_def)

lemma pipe_full_iff: "pipe_ok p \<Longrightarrow> pipe_full p \<longleftrightarrow> pipe_len p = PIPESIZE"
proof -
  have "pipe_full p \<longleftrightarrow> nwrite p - nread p = word_of_nat PIPESIZE"
    unfolding pipe_full_def by (simp add: diff_eq_eq add.commute)
  also have "\<dots> \<longleftrightarrow> unat (nwrite p - nread p) = unat (word_of_nat PIPESIZE :: u32)"
    by (simp add: word_unat_eq_iff)
  finally show ?thesis by (simp add: pipe_len_def PIPESIZE_def)
qed

lemma pipe_empty_iff: "pipe_empty p \<longleftrightarrow> pipe_len p = 0"
  by (auto simp: pipe_empty_def pipe_len_def unat_eq_0)

lemma pipe_len_put:
  assumes "pipe_len p < PIPESIZE"
  shows "pipe_len (pipe_put c p) = Suc (pipe_len p)"
proof -
  have e: "nwrite (pipe_put c p) - nread (pipe_put c p) = (nwrite p - nread p) + 1" by (simp add: pipe_put_def)
  have "unat ((nwrite p - nread p) + 1) = unat (nwrite p - nread p) + 1"
    using assms by (simp add: unat_word_ariths pipe_len_def PIPESIZE_def)
  then show ?thesis unfolding pipe_len_def e by simp
qed

lemma pipe_len_get:
  assumes "pipe_len p \<noteq> 0"
  shows "pipe_len p = Suc (pipe_len (snd (pipe_get p)))"
proof -
  have "nwrite p - nread p \<noteq> 0" using assms by (auto simp: pipe_len_def)
  then have "unat (nwrite p - nread p - 1) = unat (nwrite p - nread p) - 1"
    by (simp add: unat_minus_one)
  moreover have e: "nwrite (snd (pipe_get p)) - nread (snd (pipe_get p)) = nwrite p - nread p - 1" by (simp add: pipe_get_def)
  ultimately show ?thesis using assms unfolding pipe_len_def e by simp
qed

lemma mod_ring_neq:
  assumes "k < m" "m < PIPESIZE"
  shows "(r + m) mod PIPESIZE \<noteq> (r + k) mod PIPESIZE"
proof
  assume "(r + m) mod PIPESIZE = (r + k) mod PIPESIZE"
  then have "PIPESIZE dvd (r + m) - (r + k)" using assms(1) by (simp add: mod_eq_dvd_iff_nat)
  then show False using assms by (auto dest: dvd_imp_le)
qed

interpretation ring: fifo pipe_ok pipe_content PIPESIZE pipe_put pipe_get pipe_full pipe_empty
proof
  fix q x
  show "pipe_ok q \<Longrightarrow> length (pipe_content q) \<le> PIPESIZE" by (simp add: pipe_ok_def)
  show "pipe_ok q \<Longrightarrow> pipe_full q \<longleftrightarrow> length (pipe_content q) = PIPESIZE" by (simp add: pipe_full_iff)
  show "pipe_ok q \<Longrightarrow> pipe_empty q \<longleftrightarrow> pipe_content q = []"
    by (simp add: pipe_empty_iff flip: length_0_conv)
  assume ok: "pipe_ok q"
  {
    assume l: "length (pipe_content q) < PIPESIZE"
    show "pipe_ok (pipe_put x q)"
      using ok l pipe_len_put [of q x] by (simp add: pipe_ok_def) (simp add: pipe_put_def)
    have "(unat (nread q) + pipe_len q) mod PIPESIZE < length (pdata q)"
      using ok by (simp add: pipe_ok_def PIPESIZE_def)
    then show "pipe_content (pipe_put x q) = pipe_content q @ [x]"
      using l mod_ring_neq [of _ "pipe_len q" "unat (nread q)"]
      by (simp add: pipe_content_def pipe_len_put) (simp add: pipe_put_def nwrite_mod)
  }
  assume "pipe_content q \<noteq> []"
  then have n: "pipe_len q \<noteq> 0" by (auto simp: pipe_content_def)
  show "pipe_ok (snd (pipe_get q))"
    using ok pipe_len_get [OF n] by (simp add: pipe_ok_def) (simp add: pipe_get_def)
  show "pipe_content q = fst (pipe_get q) # pipe_content (snd (pipe_get q))"
    unfolding pipe_content_def pipe_len_get [OF n] upt_conv_Cons [OF zero_less_Suc] map_Suc_upt [symmetric]
    using unat_add_mod_ring [of "nread q" 1]
    by (auto simp: pipe_get_def) (metis add.commute add_Suc_right mod_add_left_eq plus_1_eq_Suc)
qed

section \<open>Lemmas on the runs\<close>

lemma fill_frame:
  "fill pipe_full pipe_put bs p = (rest, p') \<Longrightarrow> readopen p' = readopen p \<and> writeopen p' = writeopen p"
  by (induction bs arbitrary: p) (auto simp: pipe_put_def split: if_splits)

lemma drain_frame:
  "drain pipe_empty pipe_get n p = (bs, p') \<Longrightarrow> readopen p' = readopen p \<and> writeopen p' = writeopen p"
  by (induction n arbitrary: p bs) (fastforce simp: pipe_get_def Let_def split: if_splits prod.splits)+

lemma pipewrite_spec:
  assumes "pipe_ok p" "pipewrite killed bs p = (out, rest, p')"
  shows "pipe_ok p'" "pipe_content p' @ rest = pipe_content p @ bs"
    "pipe_content p' = pipe_content p @ take (PIPESIZE - pipe_len p) bs"
    "readopen p' = readopen p" "writeopen p' = writeopen p"
    "out = Wrote \<longleftrightarrow> rest = []" "out = Refused \<longleftrightarrow> rest \<noteq> [] \<and> (\<not> readopen p \<or> killed)"
    "rest \<noteq> [] \<Longrightarrow> pipe_len p' = PIPESIZE" "rest = drop (PIPESIZE - pipe_len p) bs"
proof -
  obtain r q where f: "fill pipe_full pipe_put bs p = (r, q)" by (cases "fill pipe_full pipe_put bs p")
  then have e: "rest = r" "p' = q" using assms(2) by (auto simp: pipewrite_def Let_def split: if_splits)
  show "pipe_ok p'" "pipe_content p' = pipe_content p @ take (PIPESIZE - pipe_len p) bs"
    "rest = drop (PIPESIZE - pipe_len p) bs" using ring.fill_spec [OF assms(1) f] e by auto
  show "pipe_content p' @ rest = pipe_content p @ bs" using ring.fill_content [OF assms(1) f] e by simp
  show "readopen p' = readopen p" "writeopen p' = writeopen p" using fill_frame [OF f] e by auto
  then show "out = Wrote \<longleftrightarrow> rest = []" "out = Refused \<longleftrightarrow> rest \<noteq> [] \<and> (\<not> readopen p \<or> killed)"
    using assms(2) f e by (auto simp: pipewrite_def split: if_splits)
  show "rest \<noteq> [] \<Longrightarrow> pipe_len p' = PIPESIZE" using ring.fill_rest [OF assms(1) f] e by simp
qed

lemma piperead_spec:
  assumes "pipe_ok p" "piperead killed n p = (out, bs, p')"
  shows "pipe_ok p'" "bs @ pipe_content p' = pipe_content p" "readopen p' = readopen p" "writeopen p' = writeopen p"
    "out = Read \<longleftrightarrow> pipe_len p \<noteq> 0 \<or> \<not> writeopen p" "out = ReadKilled \<longleftrightarrow> pipe_len p = 0 \<and> writeopen p \<and> killed"
    "out \<noteq> Read \<Longrightarrow> p' = p" "bs = take n (pipe_content p)"
proof -
  obtain r q where f: "drain pipe_empty pipe_get n p = (r, q)" by (cases "drain pipe_empty pipe_get n p")
  note d = ring.drain_spec [OF assms(1) f] drain_frame [OF f] ring.empty_iff [OF assms(1)]
  have "pipe_ok p' \<and> bs @ pipe_content p' = pipe_content p \<and> readopen p' = readopen p \<and> writeopen p' = writeopen p \<and>
    (out = Read \<longleftrightarrow> pipe_len p \<noteq> 0 \<or> \<not> writeopen p) \<and> (out = ReadKilled \<longleftrightarrow> pipe_len p = 0 \<and> writeopen p \<and> killed) \<and>
    (out \<noteq> Read \<longrightarrow> p' = p) \<and> bs = take n (pipe_content p)"
    using assms d f by (auto simp: piperead_def pipe_empty_iff split: if_splits)
  then show "pipe_ok p'" "bs @ pipe_content p' = pipe_content p" "readopen p' = readopen p" "writeopen p' = writeopen p"
    "out = Read \<longleftrightarrow> pipe_len p \<noteq> 0 \<or> \<not> writeopen p" "out = ReadKilled \<longleftrightarrow> pipe_len p = 0 \<and> writeopen p \<and> killed"
    "out \<noteq> Read \<Longrightarrow> p' = p" "bs = take n (pipe_content p)" by blast+
qed

section \<open>The invariant of the interleaving\<close>

definition pending :: "(u8 list \<times> bool) option \<Rightarrow> u8 list" where
  "pending c = (case c of None \<Rightarrow> [] | Some (bs, _) \<Rightarrow> bs)"

definition asleep :: "('a \<times> bool) option \<Rightarrow> bool" where
  "asleep c \<longleftrightarrow> (\<exists>x. c = Some (x, True))"

text \<open>A sleeping writer sees a full pipe, a sleeping reader an empty one.\<close>

definition reader_inv :: "pipe_sys \<Rightarrow> bool" where
  "reader_inv s \<longleftrightarrow> (rcall s \<noteq> None \<longrightarrow> readopen (pp s)) \<and>
     (asleep (rcall s) \<longrightarrow> writeopen (pp s) \<and> \<not> rkilled s \<and> (pipe_len (pp s) = 0 \<or> wkilled s))"

definition writer_inv :: "pipe_sys \<Rightarrow> bool" where
  "writer_inv s \<longleftrightarrow> (wcall s \<noteq> None \<longrightarrow> writeopen (pp s)) \<and>
     (asleep (wcall s) \<longrightarrow> pending (wcall s) \<noteq> [] \<and> pipe_len (pp s) = PIPESIZE \<and> readopen (pp s) \<and> \<not> wkilled s)"

definition pipe_inv :: "pipe_sys \<Rightarrow> bool" where
  "pipe_inv s \<longleftrightarrow> pipe_ok (pp s) \<and> asked s = got s @ pipe_content (pp s) @ pending (wcall s) \<and> reader_inv s \<and> writer_inv s"

lemma wake_up_simps [simp]:
  "\<not> asleep (wake_up c)" "wake_up c = None \<longleftrightarrow> c = None" "\<not> asleep None" "asleep (Some (x, b)) \<longleftrightarrow> b"
  by (auto simp: wake_up_def asleep_def)

lemma pending_simps [simp]:
  "pending (wake_up c) = pending c" "pending None = []" "pending (Some (bs, b)) = bs"
  by (auto simp: pending_def wake_up_def split: option.splits)

lemma run_write_inv:
  assumes "pipe_ok (pp s)" "asked s = got s @ pipe_content (pp s) @ bs" "reader_inv s" "writeopen (pp s)"
  shows "pipe_inv (run_write bs s)"
proof -
  obtain out rest p where w: "pipewrite (wkilled s) bs (pp s) = (out, rest, p)"
    by (cases "pipewrite (wkilled s) bs (pp s)")
  note ps = pipewrite_spec [OF assms(1) w]
  have len: "asked s = (got s @ pipe_content p) @ rest" using assms(2) ps(2) by simp
  show ?thesis
  proof (cases out)
    case Wrote
    then show ?thesis using assms(3,4) ps len
      by (simp add: run_write_def w pipe_inv_def reader_inv_def writer_inv_def)
  next
    case Refused
    then have "asleep (rcall s) \<Longrightarrow> wkilled s" using assms(3) ps(7) by (auto simp: reader_inv_def asleep_def)
    moreover have "take (length (asked s) - length rest) (asked s) = got s @ pipe_content p" unfolding len by simp
    ultimately show ?thesis using Refused assms(3,4) ps
      by (simp add: run_write_def w pipe_inv_def reader_inv_def writer_inv_def)
  next
    case WaitSpace
    then have "run_write bs s = s\<lparr>pp := p, wcall := Some (rest, True), rcall := wake_up (rcall s)\<rparr>"
      by (simp add: run_write_def w)
    moreover have "rest \<noteq> []" "readopen p" "\<not> wkilled s" "pipe_len p = PIPESIZE" using WaitSpace ps(4,6,7,8) by auto
    ultimately show ?thesis using assms(4) ps(1,5) len by (simp add: pipe_inv_def reader_inv_def writer_inv_def)
  qed
qed

lemma run_read_inv:
  assumes "pipe_inv s" "readopen (pp s)"
  shows "pipe_inv (run_read n s)"
proof -
  obtain out bs p where r: "piperead (rkilled s) n (pp s) = (out, bs, p)"
    by (cases "piperead (rkilled s) n (pp s)")
  have ok: "pipe_ok (pp s)" using assms(1) by (simp add: pipe_inv_def)
  note ps = piperead_spec [OF ok r]
  show ?thesis
  proof (cases out)
    case Read
    moreover have "asked s = (got s @ bs) @ pipe_content p @ pending (wcall s)"
      using assms(1) ps(2) by (simp add: pipe_inv_def)
    ultimately show ?thesis using assms ps(1,3,4)
      by (simp add: run_read_def r pipe_inv_def reader_inv_def writer_inv_def)
  next
    case ReadKilled
    then show ?thesis using assms by (simp add: run_read_def r pipe_inv_def reader_inv_def writer_inv_def)
  next
    case WaitData
    then have "run_read n s = s\<lparr>rcall := Some (n, True)\<rparr>" by (simp add: run_read_def r)
    moreover have "pipe_len (pp s) = 0" "writeopen (pp s)" "\<not> rkilled s" using WaitData ps(5,6) by auto
    ultimately show ?thesis using assms by (simp add: pipe_inv_def reader_inv_def writer_inv_def)
  qed
qed

lemma pipe_step_inv:
  assumes "pipe_step s s'" "pipe_inv s"
  shows "pipe_inv s'"
  using assms
proof (cases rule: pipe_step.cases)
  case (write_call bs)
  then show ?thesis unfolding write_call(1) using assms(2)
    by (intro run_write_inv) (simp_all add: pipe_inv_def reader_inv_def)
next
  case (write_resume bs)
  then show ?thesis unfolding write_resume(1) using assms(2)
    by (intro run_write_inv) (simp_all add: pipe_inv_def writer_inv_def)
next
  case (read_call n)
  then show ?thesis using assms(2) by (simp add: run_read_inv)
next
  case (read_resume n)
  then have "readopen (pp s)" using assms(2) by (simp add: pipe_inv_def reader_inv_def)
  then show ?thesis unfolding read_resume(1) by (rule run_read_inv [OF assms(2)])
next
  case (close_write p)
  then have "p = (pp s)\<lparr>writeopen := False\<rparr>" by (auto simp: pipeclose_def Let_def split: if_splits)
  then show ?thesis using close_write assms(2)
    by (simp add: pipe_inv_def reader_inv_def writer_inv_def pending_def pipe_ok_def pipe_content_def pipe_len_def)
next
  case (close_read p)
  then have "p = (pp s)\<lparr>readopen := False\<rparr>" by (auto simp: pipeclose_def Let_def split: if_splits)
  then show ?thesis using close_read assms(2)
    by (simp add: pipe_inv_def reader_inv_def writer_inv_def pipe_ok_def pipe_content_def pipe_len_def)
next
  case kill_writer
  then show ?thesis using assms(2) by (simp add: pipe_inv_def reader_inv_def writer_inv_def)
next
  case kill_reader
  then show ?thesis using assms(2) by (simp add: pipe_inv_def reader_inv_def writer_inv_def)
qed

lemma pipe_reach_inv: "pipe_reach s \<Longrightarrow> pipe_inv s"
proof (induction rule: pipe_reach.induct)
  case (pipe_start d)
  then show ?case
    by (simp add: pipe_inv_def pipe_ok_def new_pipe_def pipe_content_def pipe_len_def reader_inv_def writer_inv_def)
next
  case (pipe_next s s')
  then show ?case by (blast intro: pipe_step_inv)
qed

text \<open>A writer that is not refused: what it leaves, and that it wakes the reader.\<close>

lemma run_write_runs:
  assumes "pipe_ok (pp s)" "readopen (pp s)" "\<not> wkilled s"
  shows "pending (wcall (run_write bs s)) = drop (PIPESIZE - pipe_len (pp s)) bs" "rcall (run_write bs s) = wake_up (rcall s)"
    "pipe_content (pp (run_write bs s)) = pipe_content (pp s) @ take (PIPESIZE - pipe_len (pp s)) bs"
    "readopen (pp (run_write bs s)) = readopen (pp s)" "got (run_write bs s) = got s"
proof -
  obtain out rest p where w: "pipewrite (wkilled s) bs (pp s) = (out, rest, p)"
    by (cases "pipewrite (wkilled s) bs (pp s)")
  note ps = pipewrite_spec [OF assms(1) w]
  have "out \<noteq> Refused" using ps(7) assms(2,3) by simp
  then show "pending (wcall (run_write bs s)) = drop (PIPESIZE - pipe_len (pp s)) bs" "rcall (run_write bs s) = wake_up (rcall s)"
    "pipe_content (pp (run_write bs s)) = pipe_content (pp s) @ take (PIPESIZE - pipe_len (pp s)) bs"
    "readopen (pp (run_write bs s)) = readopen (pp s)" "got (run_write bs s) = got s"
    using ps(3,4,6,9) by (cases out; simp add: run_write_def w)+
qed

lemma run_read_runs:
  assumes "pipe_ok (pp s)" "pipe_len (pp s) \<noteq> 0"
  shows "got (run_read n s) = got s @ take n (pipe_content (pp s))" "wcall (run_read n s) = wake_up (wcall s)"
    "pipe_content (pp (run_read n s)) = drop n (pipe_content (pp s))" "pipe_ok (pp (run_read n s))"
    "readopen (pp (run_read n s)) = readopen (pp s)" "wkilled (run_read n s) = wkilled s"
proof -
  obtain out bs p where r: "piperead (rkilled s) n (pp s) = (out, bs, p)"
    by (cases "piperead (rkilled s) n (pp s)")
  note ps = piperead_spec [OF assms(1) r]
  have "out = Read" using ps(5) assms(2) by simp
  moreover have "pipe_content p = drop n (pipe_content (pp s))"
    using ps(2) unfolding ps(8) by (metis append_take_drop_id same_append_eq)
  ultimately show "got (run_read n s) = got s @ take n (pipe_content (pp s))" "wcall (run_read n s) = wake_up (wcall s)"
    "pipe_content (pp (run_read n s)) = drop n (pipe_content (pp s))" "pipe_ok (pp (run_read n s))"
    "readopen (pp (run_read n s)) = readopen (pp s)" "wkilled (run_read n s) = wkilled s"
    using ps(1,3,8) by (simp_all add: run_read_def r)
qed

lemma pipe_len_content: "pipe_len p = length (pipe_content p)"
  by simp

lemma writer_progress:
  assumes "pipe_inv s" "wcall s = Some (bs, True)" "rcall s = None"
    and s1_def: "s1 = run_read n s"
  shows "pipe_step s s1 \<and> length (got s1) = length (got s) + min n PIPESIZE \<and> wcall s1 = Some (bs, False) \<and>
    pipe_step s1 (run_write bs s1) \<and> pending (wcall (run_write bs s1)) = drop (min n PIPESIZE) bs"
proof -
  have ok: "pipe_ok (pp s)" "readopen (pp s)" "pipe_len (pp s) = PIPESIZE" "\<not> wkilled s"
    using assms(1,2) by (auto simp: pipe_inv_def writer_inv_def)
  note r = run_read_runs [OF ok(1), of n, folded s1_def]
  have n0: "pipe_len (pp s) \<noteq> 0" using ok(3) by (simp add: PIPESIZE_def)
  have "pipe_len (pp s1) = PIPESIZE - n" using arg_cong [OF r(3) [OF n0], of length] ok(3) by simp
  then have "pending (wcall (run_write bs s1)) = drop (min n PIPESIZE) bs"
    using run_write_runs(1) [of s1 bs] r(4-6) n0 ok by (simp add: min_def split: if_splits)
  moreover have w: "wcall s1 = Some (bs, False)" using r(2) n0 assms(2) by (simp add: wake_up_def)
  moreover have "pipe_step s s1" unfolding s1_def using ok(2) assms(3) by (rule read_call)
  moreover have "pipe_step s1 (run_write bs s1)" using w by (rule write_resume)
  moreover have "length (got s1) = length (got s) + min n PIPESIZE" using r(1) n0 ok(3) by simp
  ultimately show ?thesis by blast
qed

lemma reader_progress:
  assumes "pipe_inv s" "rcall s = Some (n, True)" "wcall s = None" "\<not> wkilled s"
    and s1_def: "s1 = run_write (c # bs) (s\<lparr>asked := asked s @ c # bs\<rparr>)"
  shows "pipe_step s s1 \<and> rcall s1 = Some (n, False) \<and> pipe_len (pp s1) \<noteq> 0"
proof -
  have ok: "pipe_ok (pp s)" "readopen (pp s)" "writeopen (pp s)" "pipe_len (pp s) = 0"
    using assms(1,2,4) by (auto simp: pipe_inv_def reader_inv_def)
  have "pipe_content (pp s1) \<noteq> []"
    using run_write_runs(3) [of "s\<lparr>asked := asked s @ c # bs\<rparr>" "c # bs"] ok assms(4)
    by (simp add: s1_def PIPESIZE_def)
  then have "pipe_len (pp s1) \<noteq> 0" unfolding pipe_len_content length_0_conv .
  moreover have "rcall s1 = Some (n, False)"
    using run_write_runs(2) [of "s\<lparr>asked := asked s @ c # bs\<rparr>" "c # bs"] ok assms(2,4)
    by (simp add: s1_def wake_up_def)
  moreover have "pipe_step s s1" unfolding s1_def using ok(3) assms(3) by (rule write_call)
  ultimately show ?thesis by blast
qed

section \<open>Properties\<close>

text \<open>
  C16: A pipe is a reliable bounded byte stream.  However the runs of the writer
  and the reader, closes and kills are interleaved, and however often the
  32-bit counters wrap: the bytes accepted from the writer are exactly the bytes
  returned to the reader, then the at most \<open>PIPESIZE\<close> bytes in the ring, then the bytes of the
  call that still waits for space; and the writer and the reader are never both
  asleep.
\<close>

theorem pipe_stream:
  assumes "pipe_reach s"
  shows "asked s = got s @ pipe_content (pp s) @ pending (wcall s) \<and> length (pipe_content (pp s)) \<le> PIPESIZE \<and>
    \<not> (asleep (wcall s) \<and> asleep (rcall s))"
  using pipe_reach_inv [OF assms]
  by (auto simp: pipe_inv_def pipe_ok_def reader_inv_def writer_inv_def PIPESIZE_def)


text \<open>A reader that sleeps on a new pipe, and a writer that sleeps after filling it.\<close>

definition demo_pipe :: pipe_sys where
  "demo_pipe = \<lparr>pp = new_pipe (replicate PIPESIZE 0), wcall = None, rcall = None, wkilled = False, rkilled = False,
     asked = [], got = []\<rparr>"

lemma demo_pipe_reach: "pipe_reach demo_pipe" "writeopen (pp demo_pipe)" "wcall demo_pipe = None" "\<not> wkilled demo_pipe"
  "asked demo_pipe = []" "got demo_pipe = []" "readopen (pp demo_pipe)" "rcall demo_pipe = None" "pipe_ok (pp demo_pipe)" "pipe_len (pp demo_pipe) = 0"
  using pipe_start [of "replicate PIPESIZE 0"] by (simp_all add: demo_pipe_def new_pipe_def pipe_ok_def pipe_len_def)

theorem pipe_stream_witness:
  "let s = run_read 3 (run_write [1, 2, 3, 4, 5] (demo_pipe\<lparr>asked := [1, 2, 3, 4, 5]\<rparr>)) in
     asked s = [1, 2, 3, 4, 5] \<and> got s = [1, 2, 3] \<and> pipe_content (pp s) = [4, 5]"
proof -
  let ?d = "demo_pipe\<lparr>asked := [1, 2, 3, 4, 5]\<rparr>"
  let ?t = "run_write [1, 2, 3, 4, 5] ?d"
  have "pipe_step demo_pipe ?t" using write_call [of demo_pipe "[1, 2, 3, 4, 5]"] demo_pipe_reach by simp
  then have 1: "pipe_reach ?t" using demo_pipe_reach(1) by (rule pipe_next [rotated])
  note w = run_write_runs [of ?d "[1, 2, 3, 4, 5]"]
  have c: "pipe_content (pp ?t) = [1, 2, 3, 4, 5]" "pending (wcall ?t) = []"
    using w(1,3) demo_pipe_reach by (simp_all add: PIPESIZE_def pipe_content_def)
  have ok: "pipe_ok (pp ?t)" "pipe_len (pp ?t) \<noteq> 0" using pipe_reach_inv [OF 1] arg_cong [OF c(1), of length]
    by (simp_all add: pipe_inv_def)
  note r = run_read_runs [OF ok, of 3]
  have "readopen (pp ?t)" "rcall ?t = None"
    using w(2,4) demo_pipe_reach by (simp_all add: wake_up_def)
  then have "pipe_step ?t (run_read 3 ?t)" by (rule read_call)
  with 1 have "pipe_reach (run_read 3 ?t)" by (rule pipe_next)
  from pipe_stream [OF this] show ?thesis using r(1,3) r(2) c w(5) demo_pipe_reach
    by (simp add: Let_def)
qed


end
