(* ===== verification/Kalloc.thy ===== *)
theory Kalloc
  imports Layout
begin

text \<open>
  src/kalloc.c and the macros of src/memlayout.h and src/mmu.h it uses: the
  pages of physical memory, named by their kernel address, and the allocator
  whose free list is threaded through the free pages themselves.

  The locale \<open>page_allocator\<close> is the contract the users of pages (page tables,
  pipes, kernel stacks) have with it.  \<open>end\<close>, the first address after the
  kernel, is a field of the state.  The spin lock of the allocator does not
  show in the state one thread sees.
\<close>

section \<open>Addresses\<close>

definition PGSIZE :: u64 where "PGSIZE = 4096"
definition KERNBASE :: u64 where "KERNBASE = 0xFFFF800000000000"
definition PHYSTOP :: u64 where "PHYSTOP = 0xE000000"

definition V2P :: "u64 \<Rightarrow> u64" where "V2P a = a - KERNBASE"
definition P2V :: "u64 \<Rightarrow> u64" where "P2V a = a + KERNBASE"

definition PGROUNDUP :: "u64 \<Rightarrow> u64" where "PGROUNDUP sz = and (sz + (PGSIZE - 1)) (not (PGSIZE - 1))"
definition PGROUNDDOWN :: "u64 \<Rightarrow> u64" where "PGROUNDDOWN a = and a (not (PGSIZE - 1))"

text \<open>The page addresses a loop \<open>for(a = lo; a < hi; a += PGSIZE)\<close> visits.\<close>

definition page_range :: "u64 \<Rightarrow> u64 \<Rightarrow> u64 list" where
  "page_range lo hi = map (\<lambda>k. lo + word_of_nat k * PGSIZE) [0..<(unat hi - unat lo + 4095) div 4096]"

section \<open>Memory\<close>

fun enc64 :: "u64 \<Rightarrow> u8 list" where
  "enc64 w = enc32 (ucast w) @ enc32 (ucast (drop_bit 32 w))"

definition dec64 :: "u8 list \<Rightarrow> u64" where
  "dec64 bs = or (ucast (dec32 (take 4 bs))) (push_bit 32 (ucast (dec32 (drop 4 bs))))"

record kmem =
  pages :: "u64 \<Rightarrow> u8 list"
  freelist :: u64
  kend :: u64
  use_lock :: bool
  kpml4 :: u64
  kpdpt :: u64

definition ld64 :: "kmem \<Rightarrow> u64 \<Rightarrow> nat \<Rightarrow> u64" where
  "ld64 s v i = dec64 (slot 8 i (pages s v))"

definition st64 :: "u64 \<Rightarrow> nat \<Rightarrow> u64 \<Rightarrow> kmem \<Rightarrow> kmem" where
  "st64 v i w s = s\<lparr>pages := (pages s)(v := set_slot 8 i (enc64 w) (pages s v))\<rparr>"

text \<open>memset(v, c, PGSIZE).\<close>

definition set_page :: "u64 \<Rightarrow> u8 \<Rightarrow> kmem \<Rightarrow> kmem" where
  "set_page v c s = s\<lparr>pages := (pages s)(v := replicate 4096 c)\<rparr>"

section \<open>The allocator\<close>

definition kfree :: "u64 \<Rightarrow> kmem \<Rightarrow> kmem result" where
  "kfree v s =
     (if v mod PGSIZE \<noteq> 0 \<or> v < kend s \<or> PHYSTOP \<le> V2P v then Panic ''kfree''
      else Ok ((st64 v 0 (freelist s) (set_page v 1 s))\<lparr>freelist := v\<rparr>))"

definition kalloc :: "kmem \<Rightarrow> (u64 \<times> kmem) result" where
  "kalloc s =
     (let r = freelist s in
      if r \<noteq> 0 then Ok (r, s\<lparr>freelist := ld64 s r 0\<rparr>)
      else Panic ''Out of memory!'')"

text \<open>\<open>for(; p + PGSIZE <= vend; p += PGSIZE)\<close>\<close>

definition freerange :: "u64 \<Rightarrow> u64 \<Rightarrow> kmem \<Rightarrow> kmem result" where
  "freerange vstart vend =
     (let p = PGROUNDUP vstart in
      fold_r kfree (map (\<lambda>k. p + word_of_nat k * PGSIZE) [0..<(unat vend - unat p) div 4096]))"

definition kinit1 :: "u64 \<Rightarrow> u64 \<Rightarrow> kmem \<Rightarrow> kmem result" where
  "kinit1 vstart vend s = freerange vstart vend (s\<lparr>use_lock := False, freelist := 0\<rparr>)"

definition kinit2 :: "kmem \<Rightarrow> kmem" where
  "kinit2 s = s\<lparr>use_lock := True\<rparr>"

section \<open>The contract\<close>

text \<open>
  \<open>frees s vs\<close>: the free pages, in the order they will be handed out.
  \<open>legal\<close> are the pages the allocator accepts back.
\<close>

locale page_allocator =
  fixes frees :: "'s \<Rightarrow> 'p list \<Rightarrow> bool" and legal :: "'s \<Rightarrow> 'p \<Rightarrow> bool" and content :: "'s \<Rightarrow> 'p \<Rightarrow> 'c"
    and alloc :: "'s \<Rightarrow> ('p \<times> 's) result" and dealloc :: "'p \<Rightarrow> 's \<Rightarrow> 's result"
  assumes frees_distinct: "frees s vs \<Longrightarrow> distinct vs"
    and frees_legal: "frees s vs \<Longrightarrow> v \<in> set vs \<Longrightarrow> legal s v"
    and alloc_page: "frees s (v # vs) \<Longrightarrow> \<exists>s'. alloc s = Ok (v, s') \<and> frees s' vs \<and>
      content s' = content s \<and> legal s' = legal s"
    and alloc_none: "frees s [] \<Longrightarrow> \<exists>m. alloc s = Panic m"
    and dealloc_page: "frees s vs \<Longrightarrow> legal s v \<Longrightarrow> v \<notin> set vs \<Longrightarrow>
      \<exists>s'. dealloc v s = Ok s' \<and> frees s' (v # vs) \<and> (\<forall>w. w \<noteq> v \<longrightarrow> content s' w = content s w) \<and> legal s' = legal s"
begin

text \<open>Allocating \<open>n\<close> pages one after the other.\<close>

fun alloc_n :: "nat \<Rightarrow> 's \<Rightarrow> ('p list \<times> 's) result" where
  "alloc_n 0 s = Ok ([], s)"
| "alloc_n (Suc n) s = bind_r (alloc s) (\<lambda>(v, s). bind_r (alloc_n n s) (\<lambda>(vs, s). Ok (v # vs, s)))"

lemma alloc_n_prefix:
  "frees s vs \<Longrightarrow> n \<le> length vs \<Longrightarrow>
     \<exists>s'. alloc_n n s = Ok (take n vs, s') \<and> frees s' (drop n vs) \<and> content s' = content s \<and> legal s' = legal s"
proof (induction n arbitrary: s vs)
  case (Suc n)
  then obtain v ws where v: "vs = v # ws" by (cases vs) auto
  obtain s1 where 1: "alloc s = Ok (v, s1)" "frees s1 ws" "content s1 = content s" "legal s1 = legal s"
    using alloc_page Suc.prems(1) v by blast
  obtain s' where "alloc_n n s1 = Ok (take n ws, s')" "frees s' (drop n ws)" "content s' = content s1" "legal s' = legal s1"
    using Suc.IH [OF 1(2)] Suc.prems(2) v by auto
  then show ?case using 1 v by simp
qed simp

lemma alloc_n_exhausts:
  "frees s vs \<Longrightarrow> length vs < n \<Longrightarrow> \<exists>m. alloc_n n s = Panic m"
proof (induction n arbitrary: s vs)
  case (Suc n)
  show ?case
  proof (cases vs)
    case Nil
    then show ?thesis using alloc_none [of s] Suc.prems by auto
  next
    case (Cons v ws)
    obtain s1 where "alloc s = Ok (v, s1)" "frees s1 ws"
      using alloc_page Suc.prems(1) Cons by blast
    then show ?thesis using Suc.IH [of s1 ws] Suc.prems(2) Cons by auto
  qed
qed simp

lemma dealloc_all:
  "frees s vs \<Longrightarrow> distinct ws \<Longrightarrow> set ws \<inter> set vs = {} \<Longrightarrow> \<forall>w\<in>set ws. legal s w \<Longrightarrow>
     \<exists>s'. fold_r dealloc ws s = Ok s' \<and> frees s' (rev ws @ vs) \<and> legal s' = legal s \<and>
       (\<forall>w. w \<notin> set ws \<longrightarrow> content s' w = content s w)"
proof (induction ws arbitrary: s vs)
  case (Cons w ws)
  obtain s1 where 1: "dealloc w s = Ok s1" "frees s1 (w # vs)" "\<forall>x. x \<noteq> w \<longrightarrow> content s1 x = content s x" "legal s1 = legal s"
    using dealloc_page [OF Cons.prems(1), of w] Cons.prems(3,4) by auto
  obtain s' where "fold_r dealloc ws s1 = Ok s'" "frees s' (rev ws @ w # vs)" "legal s' = legal s1"
    "\<forall>x. x \<notin> set ws \<longrightarrow> content s' x = content s1 x"
    using Cons.IH [OF 1(2)] Cons.prems(2-4) 1(4) by auto
  then show ?case using 1 by simp
qed simp

end

section \<open>The allocator meets it\<close>

lemma enc64_width [simp]: "length (enc64 w) = 8"
  by simp

declare enc64.simps [simp del]

lemma dec64_enc64: "dec64 (enc64 w) = w"
  by (rule bit_eqI) (simp add: dec64_def enc64.simps dec32_enc32 bit_or_iff bit_push_bit_iff bit_unsigned_iff bit_drop_bit_eq, auto)

definition page_ok :: "kmem \<Rightarrow> u64 \<Rightarrow> bool" where
  "page_ok s v \<longleftrightarrow> v mod PGSIZE = 0 \<and> kend s \<le> v \<and> V2P v < PHYSTOP \<and> 0 < kend s"

definition mem_ok :: "kmem \<Rightarrow> bool" where
  "mem_ok s \<longleftrightarrow> (\<forall>v. length (pages s v) = 4096)"

fun linked :: "kmem \<Rightarrow> u64 \<Rightarrow> u64 list \<Rightarrow> bool" where
  "linked s p [] \<longleftrightarrow> p = 0"
| "linked s p (v # vs) \<longleftrightarrow> p = v \<and> linked s (ld64 s v 0) vs"

definition free_pages :: "kmem \<Rightarrow> u64 list \<Rightarrow> bool" where
  "free_pages s vs \<longleftrightarrow> mem_ok s \<and> linked s (freelist s) vs \<and> distinct vs \<and> (\<forall>v\<in>set vs. page_ok s v)"

lemma page_ok_nz: "page_ok s v \<Longrightarrow> v \<noteq> 0"
  by (auto simp: page_ok_def dest: leD)

lemma linked_frame:
  "\<forall>v\<in>set vs. pages s' v = pages s v \<Longrightarrow> linked s' p vs = linked s p vs"
  by (induction vs arbitrary: p) (auto simp: ld64_def)

lemma ld64_st64:
  assumes "mem_ok s" "i < 512" "j < 512"
  shows "ld64 (st64 v i w s) v' j = (if v' = v \<and> j = i then w else ld64 s v' j)"
  using assms slot_set_slot_same [of "enc64 w" 8 i "pages s v"] slot_set_slot_other [of "enc64 w" 8 i "pages s v" j]
  by (auto simp: ld64_def st64_def mem_ok_def dec64_enc64)

lemma mem_ok_st64: "mem_ok s \<Longrightarrow> i < 512 \<Longrightarrow> mem_ok (st64 v i w s)"
  by (auto simp: mem_ok_def st64_def)

lemma mem_ok_set_page: "mem_ok s \<Longrightarrow> mem_ok (set_page v c s)"
  by (auto simp: mem_ok_def set_page_def)

lemma kalloc_ok:
  assumes "free_pages s (v # vs)"
  shows "\<exists>s'. kalloc s = Ok (v, s') \<and> free_pages s' vs \<and> pages s' = pages s \<and> page_ok s' = page_ok s"
proof -
  have "page_ok s v" "freelist s = v" using assms by (simp_all add: free_pages_def)
  then have "freelist s = v" "v \<noteq> 0" using page_ok_nz by auto
  then show ?thesis using assms linked_frame [of vs "s\<lparr>freelist := ld64 s v 0\<rparr>" s]
    by (auto simp: kalloc_def free_pages_def mem_ok_def page_ok_def ld64_def)
qed

lemma kfree_ok:
  assumes "free_pages s vs" "page_ok s v" "v \<notin> set vs"
  shows "\<exists>s'. kfree v s = Ok s' \<and> free_pages s' (v # vs) \<and> (\<forall>w. w \<noteq> v \<longrightarrow> pages s' w = pages s w) \<and> page_ok s' = page_ok s"
proof -
  let ?t = "st64 v 0 (freelist s) (set_page v 1 s)"
  have m: "mem_ok (set_page v 1 s)" "mem_ok ?t"
    using assms(1) mem_ok_set_page mem_ok_st64 by (auto simp: free_pages_def)
  have p: "\<forall>w. w \<noteq> v \<longrightarrow> pages ?t w = pages s w" by (simp add: st64_def set_page_def)
  have l: "ld64 ?t v 0 = freelist s" using ld64_st64 [OF m(1), of 0 0] by simp
  have "\<forall>w\<in>set vs. pages (?t\<lparr>freelist := v\<rparr>) w = pages s w"
  proof
    fix w assume "w \<in> set vs"
    then show "pages (?t\<lparr>freelist := v\<rparr>) w = pages s w" using p assms(3) by (cases "w = v") simp_all
  qed
  then have "linked (?t\<lparr>freelist := v\<rparr>) (freelist s) vs"
    using assms(1) linked_frame [of vs "?t\<lparr>freelist := v\<rparr>" s] by (simp add: free_pages_def)
  moreover have "ld64 (?t\<lparr>freelist := v\<rparr>) v 0 = freelist s" using l by (simp add: ld64_def)
  ultimately have "free_pages (?t\<lparr>freelist := v\<rparr>) (v # vs)"
    using assms m(2) by (auto simp: free_pages_def mem_ok_def page_ok_def st64_def set_page_def)
  moreover have "kfree v s = Ok (?t\<lparr>freelist := v\<rparr>)"
    using assms(2) by (auto simp: kfree_def page_ok_def)
  ultimately show ?thesis using p by (auto simp: page_ok_def fun_eq_iff st64_def set_page_def)
qed

interpretation pa: page_allocator free_pages page_ok pages kalloc kfree
proof
  fix s v vs
  show "free_pages s vs \<Longrightarrow> distinct vs" by (simp add: free_pages_def)
  show "free_pages s vs \<Longrightarrow> v \<in> set vs \<Longrightarrow> page_ok s v" by (simp add: free_pages_def)
  show "free_pages s (v # vs) \<Longrightarrow> \<exists>s'. kalloc s = Ok (v, s') \<and> free_pages s' vs \<and> pages s' = pages s \<and> page_ok s' = page_ok s"
    by (rule kalloc_ok)
  show "free_pages s [] \<Longrightarrow> \<exists>m. kalloc s = Panic m" by (simp add: kalloc_def free_pages_def)
  show "free_pages s vs \<Longrightarrow> page_ok s v \<Longrightarrow> v \<notin> set vs \<Longrightarrow> \<exists>s'. kfree v s = Ok s' \<and> free_pages s' (v # vs) \<and>
      (\<forall>w. w \<noteq> v \<longrightarrow> pages s' w = pages s w) \<and> page_ok s' = page_ok s"
    by (rule kfree_ok)
qed

section \<open>The pages of a range\<close>

lemma page_mask: "PGSIZE - 1 = mask 12"
  by (simp add: PGSIZE_def mask_eq_exp_minus_1)

lemma unat_PGROUNDDOWN: "unat (PGROUNDDOWN a) = unat a div 4096 * 4096"
proof -
  have e: "PGROUNDDOWN a = push_bit 12 (drop_bit 12 a)"
    unfolding PGROUNDDOWN_def page_mask
    by (rule bit_eqI) (auto simp add: bit_and_iff bit_not_iff bit_push_bit_iff bit_drop_bit_eq bit_mask_iff)
  have "a = push_bit 12 (drop_bit 12 a) + take_bit 12 a" by (simp add: bits_ident)
  then have "PGROUNDDOWN a = a - take_bit 12 a" unfolding e by (simp add: eq_diff_eq)
  moreover have m: "unat (take_bit 12 a) = unat a mod 4096" by (simp add: take_bit_eq_mod unat_mod_distrib)
  moreover from m have "take_bit 12 a \<le> a" by (simp add: word_le_nat_alt)
  ultimately show ?thesis by (simp add: unat_sub minus_mod_eq_div_mult)
qed

lemma page_aligned: "v mod PGSIZE = 0 \<longleftrightarrow> unat v mod 4096 = 0"
  by (simp add: PGSIZE_def word_unat_eq_iff unat_mod_distrib)

lemma PGROUNDUP_down: "PGROUNDUP a = PGROUNDDOWN (a + (PGSIZE - 1))"
  by (simp add: PGROUNDUP_def PGROUNDDOWN_def)

lemma PGROUNDUP_aligned: "unat (PGROUNDUP a) mod 4096 = 0"
  by (simp add: PGROUNDUP_down unat_PGROUNDDOWN)

text \<open>Page \<open>k\<close> above \<open>p\<close>, as long as the address does not overflow.\<close>

lemma unat_page:
  assumes "unat p + k * 4096 < 2 ^ 64"
  shows "unat (p + word_of_nat k * PGSIZE) = unat p + k * 4096"
proof -
  have "word_of_nat k * PGSIZE = word_of_nat (k * 4096)" by (simp add: PGSIZE_def)
  moreover have "unat (p + word_of_nat (k * 4096)) = unat p + k * 4096"
    using assms by (simp add: unat_word_ariths unat_of_nat take_bit_eq_mod)
  ultimately show ?thesis by simp
qed

lemma freerange_pages:
  assumes "free_pages s []" "KERNBASE \<le> kend s" "kend s \<le> vstart" "V2P vend \<le> PHYSTOP" "PGROUNDUP vstart \<le> vend" "vstart \<le> PGROUNDUP vstart"
    and ps_def: "ps = map (\<lambda>k. PGROUNDUP vstart + word_of_nat k * PGSIZE) [0..<(unat vend - unat (PGROUNDUP vstart)) div 4096]"
  shows "\<exists>s'. freerange vstart vend s = Ok s' \<and> free_pages s' (rev ps) \<and> distinct ps"
proof -
  let ?p = "PGROUNDUP vstart"
  let ?n = "(unat vend - unat ?p) div 4096"
  have pv: "unat ?p \<le> unat vend" using assms(5) by (simp add: word_le_nat_alt)
  have k: "unat (?p + word_of_nat k * PGSIZE) = unat ?p + k * 4096 \<and> unat ?p + k * 4096 < unat vend" if "k < ?n" for k
  proof -
    have "Suc k * 4096 \<le> ?n * 4096" using that by (intro mult_le_mono) auto
    also have "\<dots> \<le> unat vend - unat ?p" by (rule div_times_less_eq_dividend)
    finally have b: "unat ?p + k * 4096 < unat vend" using pv by simp
    then show ?thesis using unat_page [of ?p k] unsigned_less [of vend, where ?'a = nat] by simp
  qed
  have "distinct ps" unfolding ps_def distinct_map
  proof (intro conjI inj_onI)
    fix i j assume ij: "i \<in> set [0..<?n]" "j \<in> set [0..<?n]"
      "?p + word_of_nat i * PGSIZE = ?p + word_of_nat j * PGSIZE"
    then have "unat ?p + i * 4096 = unat ?p + j * 4096" using k [of i] k [of j] by (metis atLeastLessThan_iff set_upt)
    then show "i = j" by simp
  qed simp
  moreover have "page_ok s v" if v: "v \<in> set ps" for v
  proof -
    obtain i where i: "i < ?n" "v = ?p + word_of_nat i * PGSIZE" using v by (auto simp: ps_def)
    note u = k [OF i(1), folded i(2)]
    have "unat v mod 4096 = 0" using u PGROUNDUP_aligned [of vstart] by presburger
    moreover have "kend s \<le> v" using u assms(3,6) by (simp add: word_le_nat_alt)
    moreover have kb: "KERNBASE \<le> v" using assms(2) \<open>kend s \<le> v\<close> by (rule order_trans)
    have "KERNBASE \<le> vend" using kb u by (simp add: word_le_nat_alt)
    then have "V2P v < PHYSTOP" using u kb assms(4) by (simp add: V2P_def word_le_nat_alt word_less_nat_alt unat_sub) arith
    moreover have "0 < kend s" using assms(2) by (simp add: KERNBASE_def word_le_nat_alt word_less_nat_alt)
    ultimately show ?thesis by (simp add: page_ok_def page_aligned)
  qed
  ultimately show ?thesis
    using pa.dealloc_all [OF assms(1), of ps] by (auto simp: freerange_def Let_def ps_def)
qed

section \<open>Properties\<close>


text \<open>A kernel that ends at 2 MB, with three free pages after it.\<close>

definition demo_kmem :: kmem where
  "demo_kmem = \<lparr>pages = (\<lambda>_. replicate 4096 0), freelist = 0, kend = KERNBASE + 0x200000, use_lock = False,
     kpml4 = 0, kpdpt = 0\<rparr>"


end
