(* ===== verification/File.thy ===== *)
theory File
  imports Fs Pipe Kalloc "HOL-Library.Multiset"
begin

text \<open>
  src/file.c and pipealloc() of src/pipe.c: the table of open files over the file
  system, the pipes and the devices.

  A file pointer is an index of \<open>ftable.file\<close>, a pipe pointer the address of the page
  that holds the pipe.  Bytes to write are a byte list; reading returns the bytes.
  \<open>kkilled\<close> is \<open>proc->killed\<close> of the calling process.  The device switch is a parameter:
  its functions work on the state of the devices and on the file they are called with.
\<close>

section \<open>State\<close>

datatype ftype = FD_NONE | FD_PIPE | FD_INODE

record kfile =
  f_type :: ftype
  f_ref :: int
  f_readable :: bool
  f_writable :: bool
  f_pipe :: u64
  f_ip :: nat
  f_off :: u32
  f_payload :: int

record 'd kern =
  kfs :: fs
  files :: "nat \<Rightarrow> kfile"
  pipes :: "u64 \<Rightarrow> pipe"
  kmm :: kmem
  kdev :: 'd
  kkilled :: bool

text \<open>
  The functions of one device.  A read also says whether it returns with the lock of
  the file's inode taken.
\<close>

record 'd devops =
  d_read :: "(nat \<Rightarrow> kfile \<Rightarrow> 'd \<Rightarrow> (int \<times> u8 list \<times> bool \<times> 'd) result) option"
  d_write :: "(u8 list \<Rightarrow> kfile \<Rightarrow> 'd \<Rightarrow> (int \<times> kfile \<times> 'd) result) option"
  d_ioctl :: "(int \<Rightarrow> int \<Rightarrow> kfile \<Rightarrow> 'd \<Rightarrow> (int \<times> kfile \<times> 'd) result) option"

type_synonym 'd devsw = "nat \<Rightarrow> 'd devops"

definition on_fs :: "(fs \<Rightarrow> fs result) \<Rightarrow> ('d, 'z) kern_scheme \<Rightarrow> ('d, 'z) kern_scheme result" where
  "on_fs f s = bind_r (f (kfs s)) (\<lambda>x. Ok (s\<lparr>kfs := x\<rparr>))"

definition begin_fs :: "('d, 'z) kern_scheme \<Rightarrow> ('d, 'z) kern_scheme" where
  "begin_fs s = s\<lparr>kfs := tbegin_op (kfs s)\<rparr>"

definition end_fs :: "('d, 'z) kern_scheme \<Rightarrow> ('d, 'z) kern_scheme" where
  "end_fs s = s\<lparr>kfs := tend_op (kfs s)\<rparr>"

definition upd_file :: "nat \<Rightarrow> (kfile \<Rightarrow> kfile) \<Rightarrow> ('d, 'z) kern_scheme \<Rightarrow> ('d, 'z) kern_scheme" where
  "upd_file f g s = s\<lparr>files := (files s)(f := g (files s f))\<rparr>"

section \<open>Operations\<close>

definition filealloc :: "('d, 'z) kern_scheme \<Rightarrow> nat option \<times> ('d, 'z) kern_scheme" where
  "filealloc s =
     (case find (\<lambda>f. f_ref (files s f) = 0) [0..<NFILE] of
        Some f \<Rightarrow> (Some f, upd_file f (\<lambda>x. x\<lparr>f_ref := 1\<rparr>) s)
      | None \<Rightarrow> (None, s))"

definition filedup :: "nat \<Rightarrow> ('d, 'z) kern_scheme \<Rightarrow> ('d, 'z) kern_scheme result" where
  "filedup f s =
     (if f_ref (files s f) < 1 then Panic ''filedup''
      else Ok (upd_file f (\<lambda>x. x\<lparr>f_ref := f_ref x + 1\<rparr>) s))"

definition close_pipe :: "u64 \<Rightarrow> bool \<Rightarrow> ('d, 'z) kern_scheme \<Rightarrow> ('d, 'z) kern_scheme result" where
  "close_pipe p w s =
     (case pipeclose w (pipes s p) of
        Some q \<Rightarrow> Ok (s\<lparr>pipes := (pipes s)(p := q)\<rparr>)
      | None \<Rightarrow> bind_r (kfree p (kmm s)) (\<lambda>m. Ok (s\<lparr>kmm := m\<rparr>)))"

definition fileclose :: "nat \<Rightarrow> ('d, 'z) kern_scheme \<Rightarrow> ('d, 'z) kern_scheme result" where
  "fileclose f s =
     (let ff = files s f in
      if f_ref ff < 1 then Panic ''fileclose''
      else if f_ref ff - 1 > 0 then Ok (upd_file f (\<lambda>x. x\<lparr>f_ref := f_ref x - 1\<rparr>) s)
      else
        let s = upd_file f (\<lambda>x. x\<lparr>f_ref := 0, f_type := FD_NONE\<rparr>) s in
        if f_type ff = FD_PIPE then close_pipe (f_pipe ff) (f_writable ff) s
        else if f_type ff = FD_INODE then
          bind_r (on_fs (iput (f_ip ff)) (begin_fs s)) (\<lambda>s. Ok (end_fs s))
        else Ok s)"

text \<open>
  fileioctl() does not look at the type of the file or at the range of the device number;
  reading outside \<open>devsw\<close> or through the inode of a pipe is the fault here.
\<close>

definition fileioctl :: "'d devsw \<Rightarrow> nat \<Rightarrow> int \<Rightarrow> int \<Rightarrow> ('d, 'z) kern_scheme \<Rightarrow> (int \<times> ('d, 'z) kern_scheme) result" where
  "fileioctl devsw f param v s =
     (let ff = files s f; major = unat (d_major (i_d (inodes (kfs s) (f_ip ff)))) in
      if f_type ff \<noteq> FD_INODE \<or> NDEV \<le> major then Panic ''fault''
      else case d_ioctl (devsw major) of
        Some io \<Rightarrow> bind_r (io param v ff (kdev s)) (\<lambda>(r, ff, d). Ok (0, upd_file f (\<lambda>_. ff) (s\<lparr>kdev := d\<rparr>)))
      | None \<Rightarrow> Ok (-1, s))"

definition filestat :: "nat \<Rightarrow> ('d, 'z) kern_scheme \<Rightarrow> (stat option \<times> ('d, 'z) kern_scheme) result" where
  "filestat f s =
     (let ff = files s f in
      if f_type ff = FD_INODE then
        bind_r (on_fs (ilock (Some (f_ip ff))) s) (\<lambda>s.
          let st = stati (f_ip ff) (kfs s) in
          bind_r (on_fs (iunlock (Some (f_ip ff))) s) (\<lambda>s. Ok (Some st, s)))
      else Ok (None, s))"

definition is_dev :: "nat \<Rightarrow> ('d, 'z) kern_scheme \<Rightarrow> bool" where
  "is_dev ip s \<longleftrightarrow> d_type (i_d (inodes (kfs s) ip)) = T_DEV"

text \<open>The major number is a \<open>short\<close>: negative ones are refused.\<close>

definition bad_major :: "nat \<Rightarrow> ('d, 'z) kern_scheme \<Rightarrow> bool" where
  "bad_major ip s \<longleftrightarrow> (let m = sint (d_major (i_d (inodes (kfs s) ip))) in m < 0 \<or> m \<ge> int NDEV)"

definition dev_of :: "nat \<Rightarrow> ('d, 'z) kern_scheme \<Rightarrow> nat" where
  "dev_of ip s = unat (d_major (i_d (inodes (kfs s) ip)))"

text \<open>A read returns the value of fileread() and the bytes stored at \<open>addr\<close>.\<close>

definition fileread :: "'d devsw \<Rightarrow> nat \<Rightarrow> nat \<Rightarrow> ('d, 'z) kern_scheme \<Rightarrow> (int \<times> u8 list \<times> ('d, 'z) kern_scheme) result" where
  "fileread devsw f n s =
     (let ff = files s f; ip = f_ip ff in
      if \<not> f_readable ff then Ok (-1, [], s)
      else if f_type ff = FD_PIPE then
        (case piperead (kkilled s) n (pipes s (f_pipe ff)) of
           (Read, bs, p) \<Rightarrow> Ok (int (length bs), bs, s\<lparr>pipes := (pipes s)(f_pipe ff := p)\<rparr>)
         | (ReadKilled, _, _) \<Rightarrow> Ok (-1, [], s)
         | (WaitData, _, _) \<Rightarrow> Blocks ''pipe'')
      else if f_type ff = FD_INODE then
        if is_dev ip s then
          if bad_major ip s then Ok (-1, [], s)
          else (case d_read (devsw (dev_of ip s)) of
            None \<Rightarrow> Ok (-1, [], s)
          | Some rd \<Rightarrow> bind_r (rd n ff (kdev s)) (\<lambda>(r, bs, locks, d).
              let s = s\<lparr>kdev := d\<rparr> in
              if locks then bind_r (on_fs (ilock (Some ip)) s) (\<lambda>s. Ok (r, bs, s)) else Ok (r, bs, s)))
        else
          bind_r (on_fs (ilock (Some ip)) s) (\<lambda>s.
          bind_r (readi ip (f_off ff) (word_of_nat n) (kfs s)) (\<lambda>(r, x).
            let s = s\<lparr>kfs := x\<rparr>;
                s = (case r of
                       Some bs \<Rightarrow> if bs \<noteq> [] then upd_file f (\<lambda>y. y\<lparr>f_off := f_off y + word_of_nat (length bs)\<rparr>) s else s
                     | None \<Rightarrow> s) in
            bind_r (on_fs (iunlock (Some ip)) s) (\<lambda>s.
              Ok (case r of Some bs \<Rightarrow> (int (length bs), bs, s) | None \<Rightarrow> (-1, [], s)))))
      else Panic ''fileread'')"

definition WRITE_MAX :: nat where
  "WRITE_MAX = ((LOGSIZE - 1 - 1 - 2) div 2) * 512"

text \<open>The loop of filewrite(): the bytes left; the result says whether all were written.\<close>

function write_loop :: "nat \<Rightarrow> u8 list \<Rightarrow> ('d, 'z) kern_scheme \<Rightarrow> (bool \<times> ('d, 'z) kern_scheme) result" where
  "write_loop f src s =
     (if src = [] then Ok (True, s)
      else
        let ip = f_ip (files s f); chunk = take WRITE_MAX src in
        bind_r (on_fs (ilock (Some ip)) (begin_fs s)) (\<lambda>s.
        bind_r (writei ip chunk (f_off (files s f)) (word_of_nat (length chunk)) (kfs s)) (\<lambda>(r, x).
          let s = s\<lparr>kfs := x\<rparr>;
              s = (case r of Some m \<Rightarrow> upd_file f (\<lambda>y. y\<lparr>f_off := f_off y + m\<rparr>) s | None \<Rightarrow> s) in
          bind_r (on_fs (iunlock (Some ip)) s) (\<lambda>s.
            let s = end_fs s in
            case r of
              None \<Rightarrow> Ok (False, s)
            | Some m \<Rightarrow>
                if unat m \<noteq> length chunk then Panic ''short filewrite''
                else write_loop f (drop WRITE_MAX src) s))))"
  by pat_completeness auto
termination
  by (relation "measure (\<lambda>(f, src, s). length src)") (auto simp: WRITE_MAX_def LOGSIZE_def MAXOPBLOCKS_def)

declare write_loop.simps [simp del]

definition filewrite :: "'d devsw \<Rightarrow> nat \<Rightarrow> u8 list \<Rightarrow> ('d, 'z) kern_scheme \<Rightarrow> (int \<times> ('d, 'z) kern_scheme) result" where
  "filewrite devsw f src s =
     (let ff = files s f; ip = f_ip ff in
      if \<not> f_writable ff then Ok (-1, s)
      else if f_type ff = FD_PIPE then
        (case pipewrite (kkilled s) src (pipes s (f_pipe ff)) of
           (Wrote, _, p) \<Rightarrow> Ok (int (length src), s\<lparr>pipes := (pipes s)(f_pipe ff := p)\<rparr>)
         | (Refused, _, p) \<Rightarrow> Ok (-1, s\<lparr>pipes := (pipes s)(f_pipe ff := p)\<rparr>)
         | (WaitSpace, _, _) \<Rightarrow> Blocks ''pipe'')
      else if f_type ff = FD_INODE then
        if is_dev ip s then
          if bad_major ip s then Ok (-1, s)
          else (case d_write (devsw (dev_of ip s)) of
            None \<Rightarrow> Ok (-1, s)
          | Some wr \<Rightarrow> bind_r (wr src ff (kdev s)) (\<lambda>(r, ff, d). Ok (r, upd_file f (\<lambda>_. ff) (s\<lparr>kdev := d\<rparr>))))
        else bind_r (write_loop f src s) (\<lambda>(ok, s). Ok (if ok then int (length src) else -1, s))
      else Panic ''filewrite'')"

section \<open>Pipes as files\<close>

text \<open>Both ends of a new pipe, or None for -1: no free file left.  kalloc() panics when memory is out.\<close>

definition pipealloc :: "('d, 'z) kern_scheme \<Rightarrow> ((nat \<times> nat) option \<times> ('d, 'z) kern_scheme) result" where
  "pipealloc s =
     (case filealloc s of
        (None, s) \<Rightarrow> Ok (None, s)
      | (Some f0, s) \<Rightarrow>
          (case filealloc s of
             (None, s) \<Rightarrow> bind_r (fileclose f0 s) (\<lambda>s. Ok (None, s))
           | (Some f1, s) \<Rightarrow>
               bind_r (kalloc (kmm s)) (\<lambda>(p, m).
                 let s = s\<lparr>kmm := m, pipes := (pipes s)(p := new_pipe (take PIPESIZE (pages m p)))\<rparr>;
                     s = upd_file f0 (\<lambda>x. x\<lparr>f_type := FD_PIPE, f_readable := True, f_writable := False, f_pipe := p\<rparr>) s;
                     s = upd_file f1 (\<lambda>x. x\<lparr>f_type := FD_PIPE, f_readable := False, f_writable := True, f_pipe := p\<rparr>) s
                 in Ok (Some (f0, f1), s))))"

end
