(* ===== verification/Vm.thy ===== *)
theory Vm
  imports Kalloc Fs
begin

text \<open>
  src/vm.c: four-level page tables in the pages of theory \<open>Kalloc\<close>, and the
  operations on user address spaces.  A page table entry is named by the page
  that holds it and its index.  Loading cr3 and the segment registers
  (syscallinit, seginit, switchuvm, switchkvm) is not part of the state.

  kalloc() panics instead of returning 0, so the branches of vm.c for a failed
  allocation are never taken; the calls that can still fail keep their branch.
\<close>

section \<open>Entries\<close>

definition PTE_P :: u64 where "PTE_P = 1"
definition PTE_W :: u64 where "PTE_W = 2"
definition PTE_U :: u64 where "PTE_U = 4"
definition PTE_PWT :: u64 where "PTE_PWT = 8"
definition PTE_PCD :: u64 where "PTE_PCD = 16"
definition PTE_PS :: u64 where "PTE_PS = 128"

definition PTE_ADDR :: "u64 \<Rightarrow> u64" where "PTE_ADDR pte = and pte (not 0xFFF)"
definition PTE_FLAGS :: "u64 \<Rightarrow> u64" where "PTE_FLAGS pte = and pte 0xFFF"

definition PMX :: "u64 \<Rightarrow> nat" where "PMX va = unat (and (drop_bit 39 va) 0x1FF)"
definition PDPX :: "u64 \<Rightarrow> nat" where "PDPX va = unat (and (drop_bit 30 va) 0x1FF)"
definition PDX :: "u64 \<Rightarrow> nat" where "PDX va = unat (and (drop_bit 21 va) 0x1FF)"
definition PTX :: "u64 \<Rightarrow> nat" where "PTX va = unat (and (drop_bit 12 va) 0x1FF)"

definition present :: "u64 \<Rightarrow> bool" where "present e \<longleftrightarrow> and e PTE_P \<noteq> 0"

section \<open>Walking the tables\<close>

text \<open>One level of walkpgdir(): the table that entry \<open>i\<close> of \<open>tab\<close> points to.\<close>

definition walk_level :: "bool \<Rightarrow> u64 \<Rightarrow> nat \<Rightarrow> kmem \<Rightarrow> (u64 option \<times> kmem) result" where
  "walk_level alloc tab i s =
     (if present (ld64 s tab i) then Ok (Some (P2V (PTE_ADDR (ld64 s tab i))), s)
      else if \<not> alloc then Ok (None, s)
      else bind_r (kalloc s) (\<lambda>(pg, s).
        Ok (Some pg, st64 tab i (or (or (or (V2P pg) PTE_P) PTE_W) PTE_U) (set_page pg 0 s))))"

definition walkpgdir :: "u64 \<Rightarrow> u64 \<Rightarrow> bool \<Rightarrow> kmem \<Rightarrow> ((u64 \<times> nat) option \<times> kmem) result" where
  "walkpgdir pml4 va alloc s =
     bind_r (walk_level alloc pml4 (PMX va) s) (\<lambda>(pdp, s).
       case pdp of None \<Rightarrow> Ok (None, s) | Some pdp \<Rightarrow>
     bind_r (walk_level alloc pdp (PDPX va) s) (\<lambda>(pd, s).
       case pd of None \<Rightarrow> Ok (None, s) | Some pd \<Rightarrow>
     bind_r (walk_level alloc pd (PDX va) s) (\<lambda>(pgtab, s).
       case pgtab of None \<Rightarrow> Ok (None, s) | Some pgtab \<Rightarrow> Ok (Some (pgtab, PTX va), s))))"

section \<open>Kernel page tables\<close>

definition setupkvm :: "kmem \<Rightarrow> (u64 \<times> kmem) result" where
  "setupkvm s =
     bind_r (kalloc s) (\<lambda>(pml4, s).
       let s = set_page pml4 0 s in
       Ok (pml4, st64 pml4 256 (or (or (V2P (kpdpt s)) PTE_P) PTE_W) s))"

definition kvmalloc :: "kmem \<Rightarrow> kmem result" where
  "kvmalloc s =
     bind_r (kalloc s) (\<lambda>(p4, s).
       let s = set_page p4 0 (s\<lparr>kpml4 := p4\<rparr>) in
     bind_r (kalloc s) (\<lambda>(p3, s).
       let s = set_page p3 0 (s\<lparr>kpdpt := p3\<rparr>);
           s = st64 p4 (PMX KERNBASE) (or (or (V2P p3) PTE_P) PTE_W) s;
           s = st64 p3 0 (or (or PTE_PS PTE_P) PTE_W) s
       in Ok (st64 p3 3 (or (or (or (or (or 0xC0000000 PTE_PS) PTE_P) PTE_W) PTE_PWT) PTE_PCD) s)))"

section \<open>Mapping\<close>

text \<open>The loop of mappages(); \<open>n\<close> pages are left after this one.\<close>

fun mappages_loop :: "nat \<Rightarrow> u64 \<Rightarrow> u64 \<Rightarrow> u64 \<Rightarrow> u64 \<Rightarrow> kmem \<Rightarrow> (int \<times> kmem) result" where
  "mappages_loop n pgdir a pa perm s =
     bind_r (walkpgdir pgdir a True s) (\<lambda>(pte, s).
       case pte of
         None \<Rightarrow> Ok (-1, s)
       | Some (t, i) \<Rightarrow>
           if present (ld64 s t i) then Panic ''remap''
           else
             let s = st64 t i (or (or pa perm) PTE_P) s in
             (case n of
                0 \<Rightarrow> Ok (0, s)
              | Suc n \<Rightarrow> mappages_loop n pgdir (a + PGSIZE) (pa + PGSIZE) perm s))"

definition mappages :: "u64 \<Rightarrow> u64 \<Rightarrow> u64 \<Rightarrow> u64 \<Rightarrow> u64 \<Rightarrow> kmem \<Rightarrow> (int \<times> kmem) result" where
  "mappages pgdir va sz pa perm s =
     (let a = PGROUNDDOWN va; last = PGROUNDDOWN (va + sz - 1) in
      mappages_loop (unat (last - a) div 4096) pgdir a pa perm s)"

text \<open>memmove() of bytes to offset \<open>off\<close> of a page.\<close>

definition put_bytes :: "u64 \<Rightarrow> nat \<Rightarrow> u8 list \<Rightarrow> kmem \<Rightarrow> kmem" where
  "put_bytes v off bs s = s\<lparr>pages := (pages s)(v := splice off bs (pages s v))\<rparr>"

definition inituvm :: "u64 \<Rightarrow> u8 list \<Rightarrow> kmem \<Rightarrow> kmem result" where
  "inituvm pgdir init s =
     (if 4096 \<le> length init then Panic ''inituvm: more than a page''
      else bind_r (kalloc s) (\<lambda>(mem, s).
        bind_r (mappages pgdir PGSIZE PGSIZE (V2P mem) (or PTE_W PTE_U) (set_page mem 0 s)) (\<lambda>(_, s).
          Ok (put_bytes mem 0 init s))))"

text \<open>The pages of the loop of loaduvm(), \<open>i = 0, PGSIZE, ...\<close> below \<open>sz\<close>.\<close>

fun loaduvm_loop :: "nat list \<Rightarrow> u64 \<Rightarrow> u64 \<Rightarrow> nat \<Rightarrow> u32 \<Rightarrow> u32 \<Rightarrow> kmem \<times> fs \<Rightarrow> (int \<times> kmem \<times> fs) result" where
  "loaduvm_loop [] pgdir addr ip offset sz s = Ok (0, s)"
| "loaduvm_loop (i # is) pgdir addr ip offset sz (m, f) =
     bind_r (walkpgdir pgdir (addr + word_of_nat i) False m) (\<lambda>(pte, m).
       case pte of
         None \<Rightarrow> Panic ''loaduvm: address should exist''
       | Some (t, k) \<Rightarrow>
           let pa = PTE_ADDR (ld64 m t k);
               n = (if sz - word_of_nat i < 4096 then sz - word_of_nat i else 4096) in
           bind_r (readi ip (offset + word_of_nat i) n f) (\<lambda>(r, f).
             case r of
               None \<Rightarrow> Ok (-1, m, f)
             | Some bs \<Rightarrow>
                 let m = put_bytes (P2V pa) 0 bs m in
                 if length bs \<noteq> unat n then Ok (-1, m, f)
                 else loaduvm_loop is pgdir addr ip offset sz (m, f)))"

definition loaduvm :: "u64 \<Rightarrow> u64 \<Rightarrow> nat \<Rightarrow> u32 \<Rightarrow> u32 \<Rightarrow> kmem \<times> fs \<Rightarrow> (int \<times> kmem \<times> fs) result" where
  "loaduvm pgdir addr ip offset sz s =
     (if addr mod PGSIZE \<noteq> 0 then Panic ''loaduvm: addr must be page aligned''
      else loaduvm_loop (map (\<lambda>k. k * 4096) [0..<(unat sz + 4095) div 4096]) pgdir addr ip offset sz s)"

section \<open>Growing and shrinking\<close>

definition dealloc_page :: "u64 \<Rightarrow> u64 \<Rightarrow> kmem \<Rightarrow> kmem result" where
  "dealloc_page pgdir a s =
     bind_r (walkpgdir pgdir a False s) (\<lambda>(pte, s).
       case pte of
         None \<Rightarrow> Ok s
       | Some (t, i) \<Rightarrow>
           if present (ld64 s t i) then
             let pa = PTE_ADDR (ld64 s t i) in
             if pa = 0 then Panic ''kfree''
             else bind_r (kfree (P2V pa) s) (\<lambda>s. Ok (st64 t i 0 s))
           else Ok s)"

definition deallocuvm :: "u64 \<Rightarrow> u64 \<Rightarrow> u64 \<Rightarrow> kmem \<Rightarrow> (u64 \<times> kmem) result" where
  "deallocuvm pgdir oldsz newsz s =
     (if oldsz \<le> newsz then Ok (oldsz, s)
      else bind_r (fold_r (dealloc_page pgdir) (page_range (PGROUNDUP newsz) oldsz) s) (\<lambda>s. Ok (newsz, s)))"

fun allocuvm_loop :: "u64 list \<Rightarrow> u64 \<Rightarrow> u64 \<Rightarrow> u64 \<Rightarrow> kmem \<Rightarrow> (u64 \<times> kmem) result" where
  "allocuvm_loop [] pgdir oldsz newsz s = Ok (newsz, s)"
| "allocuvm_loop (a # as) pgdir oldsz newsz s =
     bind_r (kalloc s) (\<lambda>(mem, s).
     bind_r (mappages pgdir a PGSIZE (V2P mem) (or PTE_W PTE_U) (set_page mem 0 s)) (\<lambda>(r, s).
       if r < 0 then
         bind_r (deallocuvm pgdir newsz oldsz s) (\<lambda>(_, s).
         bind_r (kfree mem s) (\<lambda>s. Ok (0, s)))
       else allocuvm_loop as pgdir oldsz newsz s))"

definition allocuvm :: "u64 \<Rightarrow> u64 \<Rightarrow> u64 \<Rightarrow> kmem \<Rightarrow> (u64 \<times> kmem) result" where
  "allocuvm pgdir oldsz newsz s =
     (if KERNBASE \<le> newsz then Ok (0, s)
      else if newsz < oldsz then Ok (oldsz, s)
      else allocuvm_loop (page_range (PGROUNDUP oldsz) newsz) pgdir oldsz newsz s)"

section \<open>Freeing, copying, protecting\<close>

text \<open>The three nested loops of freevm(), from the inside: what entry \<open>i\<close> of a table leads to.\<close>

definition free_entry :: "(u64 \<Rightarrow> kmem \<Rightarrow> kmem result) \<Rightarrow> u64 \<Rightarrow> nat \<Rightarrow> kmem \<Rightarrow> kmem result" where
  "free_entry inner tab i s =
     (if present (ld64 s tab i) then
        let v = P2V (PTE_ADDR (ld64 s tab i)) in bind_r (inner v s) (kfree v)
      else Ok s)"

definition free_pt :: "u64 \<Rightarrow> kmem \<Rightarrow> kmem result" where
  "free_pt pt = fold_r (free_entry (\<lambda>_. Ok) pt) [0..<512]"

definition free_pd :: "u64 \<Rightarrow> kmem \<Rightarrow> kmem result" where
  "free_pd pd = fold_r (free_entry free_pt pd) [0..<512]"

definition free_pdp :: "u64 \<Rightarrow> kmem \<Rightarrow> kmem result" where
  "free_pdp pdp = fold_r (free_entry free_pd pdp) [0..<512]"

definition freevm :: "u64 \<Rightarrow> kmem \<Rightarrow> kmem result" where
  "freevm pml4 s =
     (if pml4 = 0 then Panic ''freevm: no pgdir''
      else bind_r (fold_r (free_entry free_pdp pml4) [0..<256] s) (kfree pml4))"

definition clearpteu :: "u64 \<Rightarrow> u64 \<Rightarrow> kmem \<Rightarrow> kmem result" where
  "clearpteu pgdir uva s =
     bind_r (walkpgdir pgdir uva False s) (\<lambda>(pte, s).
       case pte of
         None \<Rightarrow> Panic ''clearpteu''
       | Some (t, i) \<Rightarrow> Ok (st64 t i (and (ld64 s t i) (not PTE_U)) s))"

fun copyuvm_loop :: "u64 list \<Rightarrow> u64 \<Rightarrow> u64 \<Rightarrow> kmem \<Rightarrow> (u64 option \<times> kmem) result" where
  "copyuvm_loop [] pgdir d s = Ok (Some d, s)"
| "copyuvm_loop (i # is) pgdir d s =
     bind_r (walkpgdir pgdir i False s) (\<lambda>(pte, s).
       case pte of
         None \<Rightarrow> Panic ''copyuvm: pte should exist''
       | Some (t, k) \<Rightarrow>
           if \<not> present (ld64 s t k) then Panic ''copyuvm: page not present''
           else
             let pa = PTE_ADDR (ld64 s t k); flags = PTE_FLAGS (ld64 s t k) in
             bind_r (kalloc s) (\<lambda>(mem, s).
             bind_r (mappages d i PGSIZE (V2P mem) flags (put_bytes mem 0 (pages s (P2V pa)) s)) (\<lambda>(r, s).
               if r < 0 then bind_r (freevm d s) (\<lambda>s. Ok (None, s))
               else copyuvm_loop is pgdir d s)))"

definition copyuvm :: "u64 \<Rightarrow> u32 \<Rightarrow> kmem \<Rightarrow> (u64 option \<times> kmem) result" where
  "copyuvm pgdir sz s =
     bind_r (setupkvm s) (\<lambda>(d, s). copyuvm_loop (page_range PGSIZE (ucast sz)) pgdir d s)"

section \<open>User memory\<close>

text \<open>
  uva2ka() reads through the entry walkpgdir() returns without testing it for
  0; reading address 0 in the kernel faults, and trap() panics.
\<close>

definition uva2ka :: "u64 \<Rightarrow> u64 \<Rightarrow> kmem \<Rightarrow> u64 option result" where
  "uva2ka pgdir uva s =
     bind_r (walkpgdir pgdir uva False s) (\<lambda>(pte, s).
       case pte of
         None \<Rightarrow> Panic ''trap''
       | Some (t, i) \<Rightarrow>
           if \<not> present (ld64 s t i) then Ok None
           else if and (ld64 s t i) PTE_U = 0 then Ok None
           else Ok (Some (P2V (PTE_ADDR (ld64 s t i)))))"

text \<open>\<open>va - va0\<close> is the offset in the page.\<close>

function copyout :: "u64 \<Rightarrow> u64 \<Rightarrow> u8 list \<Rightarrow> kmem \<Rightarrow> (int \<times> kmem) result" where
  "copyout pgdir va buf s =
     (if buf = [] then Ok (0, s)
      else
        let va0 = PGROUNDDOWN va; off = unat (va - va0) in
        bind_r (uva2ka pgdir va0 s) (\<lambda>pa0.
          case pa0 of
            None \<Rightarrow> Ok (-1, s)
          | Some pa0 \<Rightarrow>
              let n = min (4096 - off) (length buf) in
              copyout pgdir (va0 + PGSIZE) (drop n buf) (put_bytes pa0 off (take n buf) s)))"
  by pat_completeness auto
termination
proof (relation "measure (\<lambda>(pgdir, va, buf, s). length buf)", goal_cases)
  case (2 pgdir va buf s va0 off pa0 ka n)
  have "unat (va - va0) = unat va - unat va0"
    using 2(2) unat_PGROUNDDOWN [of va] by (intro unat_sub) (simp add: word_le_nat_alt)
  then have "off < 4096" using 2(2,3) unat_PGROUNDDOWN [of va] by (simp add: minus_div_mult_eq_mod)
  then show ?case using 2(1,6) by (cases buf) auto
qed simp

end
