(* ===== verification/Proc.thy ===== *)
theory Proc
  imports File Vm
begin

text \<open>
  src/proc.c and src/proc.h: the process table, fork(), exit(), wait(), sleep() and
  wakeup(), kill() and the scheduler, over the files, the inodes and the memory of
  theory File.

  A process pointer is an index of \<open>ptable.proc\<close>.  A channel is the address slept on; the
  table's own entries, on which wait() sleeps, are channels of their own.  The kernel stack
  and the trap frame on it are in the bytes of the pages.  Every operation runs with
  \<open>ptable.lock\<close> held where the code holds it, so the steps of the machine below are the
  critical sections of the code.
\<close>

section \<open>State\<close>

datatype procstate = UNUSED | EMBRYO | SLEEPING | RUNNABLE | RUNNING | ZOMBIE

datatype chan = NoChan | ProcChan nat | AtChan u64

record proc =
  p_sz :: u64
  p_pgdir :: u64
  p_kstack :: u64
  p_state :: procstate
  p_pid :: int
  p_parent :: "nat option"
  p_tf :: u64
  p_context :: u64
  p_chan :: chan
  p_killed :: bool
  p_ofile :: "nat option list"
  p_cwd :: "nat option"
  p_name :: "u8 list"

text \<open>The addresses of forkret() and syscall_trapret() are fixed by the linker.\<close>

record 'd sys = "'d kern" +
  procs :: "nat \<Rightarrow> proc"
  nextpid :: int
  initproc :: "nat option"
  forkret_at :: u64
  trapret_at :: u64

definition upd_proc :: "nat \<Rightarrow> (proc \<Rightarrow> proc) \<Rightarrow> ('d, 'z) sys_scheme \<Rightarrow> ('d, 'z) sys_scheme" where
  "upd_proc p g s = s\<lparr>procs := (procs s)(p := g (procs s p))\<rparr>"

text \<open>The per-CPU variable \<open>proc\<close> as the layers below see it.\<close>

definition as_proc :: "nat \<Rightarrow> ('d, 'z) sys_scheme \<Rightarrow> ('d, 'z) sys_scheme" where
  "as_proc p s =
     (let q = procs s p in
      s\<lparr>kkilled := p_killed q,
        kfs := (kfs s)\<lparr>fpid := p_pid q, fcwd := (case p_cwd q of Some c \<Rightarrow> c | None \<Rightarrow> 0)\<rparr>\<rparr>)"

text \<open>Words of kernel memory; \<open>struct trapframe\<close> is 22 words, \<open>struct context\<close> seven.\<close>

definition ldw :: "kmem \<Rightarrow> u64 \<Rightarrow> u64" where
  "ldw m a = ld64 m (PGROUNDDOWN a) (unat (a - PGROUNDDOWN a) div 8)"

definition stw :: "u64 \<Rightarrow> u64 \<Rightarrow> kmem \<Rightarrow> kmem" where
  "stw a v m = st64 (PGROUNDDOWN a) (unat (a - PGROUNDDOWN a) div 8) v m"

definition tf_rax :: u64 where "tf_rax = 0"
definition tf_rcx :: u64 where "tf_rcx = 16"
definition tf_rdx :: u64 where "tf_rdx = 24"
definition tf_rsi :: u64 where "tf_rsi = 40"
definition tf_rdi :: u64 where "tf_rdi = 48"
definition tf_r8 :: u64 where "tf_r8 = 56"
definition tf_r9 :: u64 where "tf_r9 = 64"
definition tf_r10 :: u64 where "tf_r10 = 72"
definition tf_r11 :: u64 where "tf_r11 = 80"
definition tf_rip :: u64 where "tf_rip = 136"
definition tf_rsp :: u64 where "tf_rsp = 160"

definition words_at :: "u64 \<Rightarrow> nat \<Rightarrow> u64 list" where
  "words_at a n = map (\<lambda>k. a + 8 * word_of_nat k) [0..<n]"

definition KSTACKSIZE :: u64 where "KSTACKSIZE = 4096"
definition FL_IF :: u64 where "FL_IF = 0x200"

text \<open>safestrcpy() of a string into an array, both as bytes.\<close>

definition safestr :: "u8 list \<Rightarrow> u8 list \<Rightarrow> u8 list" where
  "safestr dst src = splice 0 (take (length dst - 1) (takeWhile (\<lambda>b. b \<noteq> 0) src) @ [0]) dst"

section \<open>Creating processes\<close>

text \<open>kalloc() panics when memory is out, so the failure of allocproc() is a full table.\<close>

definition allocproc :: "('d, 'z) sys_scheme \<Rightarrow> (nat option \<times> ('d, 'z) sys_scheme) result" where
  "allocproc s =
     (case find (\<lambda>p. p_state (procs s p) = UNUSED) [0..<NPROC] of
        None \<Rightarrow> Ok (None, s)
      | Some p \<Rightarrow>
          let s = upd_proc p (\<lambda>q. q\<lparr>p_state := EMBRYO, p_pid := nextpid s\<rparr>) (s\<lparr>nextpid := nextpid s + 1\<rparr>) in
          bind_r (kalloc (kmm s)) (\<lambda>(k, m).
            let sp = k + KSTACKSIZE;
                tf = sp - 176;
                sp = tf - 8;
                m = stw sp (trapret_at s) m;
                ctx = sp - 56;
                m = fold (\<lambda>a. stw a 0) (words_at ctx 7) m;
                m = stw (ctx + 48) (forkret_at s) m
            in Ok (Some p, upd_proc p (\<lambda>q. q\<lparr>p_kstack := k, p_tf := tf, p_context := ctx\<rparr>) (s\<lparr>kmm := m\<rparr>))))"

definition userinit :: "u8 list \<Rightarrow> ('d, 'z) sys_scheme \<Rightarrow> ('d, 'z) sys_scheme result" where
  "userinit initcode s =
     bind_r (allocproc s) (\<lambda>(p, s).
       case p of
         None \<Rightarrow> Panic ''trap''
       | Some p \<Rightarrow>
           let s = s\<lparr>initproc := Some p\<rparr> in
           bind_r (setupkvm (kmm s)) (\<lambda>(d, m).
           bind_r (inituvm d initcode m) (\<lambda>m.
             let tf = p_tf (procs s p);
                 sz = PGSIZE * 2;
                 m = fold (\<lambda>a. stw a 0) (words_at tf 22) m;
                 m = stw (tf + tf_r11) FL_IF m;
                 m = stw (tf + tf_rsp) sz m;
                 m = stw (tf + tf_rcx) PGSIZE m;
                 s = upd_proc p (\<lambda>q. q\<lparr>p_pgdir := d, p_sz := sz,
                       p_name := safestr (p_name q) (map of_char ''initcode'')\<rparr>) (s\<lparr>kmm := m\<rparr>) in
             bind_r (namei (map of_char ''/'') (kfs s)) (\<lambda>(ip, f).
               Ok (upd_proc p (\<lambda>q. q\<lparr>p_cwd := ip, p_state := RUNNABLE\<rparr>) (s\<lparr>kfs := f\<rparr>))))))"

text \<open>\<open>n\<close> is an \<open>int64\<close>; switchuvm() loads the page table register.\<close>

definition growproc :: "nat \<Rightarrow> u64 \<Rightarrow> ('d, 'z) sys_scheme \<Rightarrow> (int \<times> ('d, 'z) sys_scheme) result" where
  "growproc cur n s =
     (let q = procs s cur; sz = p_sz q in
      bind_r (if sint n > 0 then allocuvm (p_pgdir q) sz (sz + n) (kmm s)
              else if sint n < 0 then deallocuvm (p_pgdir q) sz (sz + n) (kmm s)
              else Ok (sz, kmm s)) (\<lambda>(sz', m).
        let s = s\<lparr>kmm := m\<rparr> in
        Ok (if n \<noteq> 0 \<and> sz' = 0 then (-1, s) else (0, upd_proc cur (\<lambda>q. q\<lparr>p_sz := sz'\<rparr>) s))))"

definition fork_file :: "nat \<Rightarrow> nat \<Rightarrow> nat \<Rightarrow> ('d, 'z) sys_scheme \<Rightarrow> ('d, 'z) sys_scheme result" where
  "fork_file cur np i s =
     (case p_ofile (procs s cur) ! i of
        None \<Rightarrow> Ok s
      | Some f \<Rightarrow> bind_r (filedup f s) (\<lambda>s. Ok (upd_proc np (\<lambda>q. q\<lparr>p_ofile := (p_ofile q)[i := Some f]\<rparr>) s)))"

text \<open>copyuvm() takes the size as a \<open>uint\<close>.\<close>

definition fork :: "nat \<Rightarrow> ('d, 'z) sys_scheme \<Rightarrow> (int \<times> ('d, 'z) sys_scheme) result" where
  "fork cur s =
     bind_r (allocproc s) (\<lambda>(np, s).
       case np of
         None \<Rightarrow> Ok (-1, s)
       | Some np \<Rightarrow>
           bind_r (copyuvm (p_pgdir (procs s cur)) (ucast (p_sz (procs s cur))) (kmm s)) (\<lambda>(d, m).
             let s = s\<lparr>kmm := m\<rparr> in
             case d of
               None \<Rightarrow>
                 bind_r (kfree (p_kstack (procs s np)) (kmm s)) (\<lambda>m.
                   Ok (-1, upd_proc np (\<lambda>q. q\<lparr>p_pgdir := 0, p_kstack := 0, p_state := UNUSED\<rparr>) (s\<lparr>kmm := m\<rparr>)))
             | Some d \<Rightarrow>
                 let c = procs s cur;
                     tf = p_tf (procs s np);
                     m = fold (\<lambda>k. stw (tf + 8 * word_of_nat k) (ldw (kmm s) (p_tf c + 8 * word_of_nat k))) [0..<22] (kmm s);
                     m = stw (tf + tf_rax) 0 m;
                     s = upd_proc np (\<lambda>q. q\<lparr>p_pgdir := d, p_sz := p_sz c, p_parent := Some cur\<rparr>) (s\<lparr>kmm := m\<rparr>) in
                 bind_r (fold_r (fork_file cur np) [0..<NOFILE] s) (\<lambda>s.
                   case p_cwd c of
                     None \<Rightarrow> Panic ''trap''
                   | Some ip \<Rightarrow>
                       let (ip, f) = idup ip (kfs s);
                           s = upd_proc np (\<lambda>q. q\<lparr>p_cwd := Some ip, p_name := safestr (p_name q) (p_name c),
                                 p_state := RUNNABLE\<rparr>) (s\<lparr>kfs := f\<rparr>)
                       in Ok (p_pid (procs s np), s))))"

section \<open>Sleep and wakeup\<close>

text \<open>
  sched() checks that only \<open>ptable.lock\<close> is held, that interrupts are off and that the state
  has been changed, then switches to the scheduler.
\<close>

definition sched :: "bool \<Rightarrow> int \<Rightarrow> bool \<Rightarrow> nat \<Rightarrow> ('d, 'z) sys_scheme \<Rightarrow> ('d, 'z) sys_scheme result" where
  "sched locked_pt depth intr cur s =
     (if \<not> locked_pt then Panic ''sched ptable.lock''
      else if depth \<noteq> 1 then Panic ''sched locks''
      else if p_state (procs s cur) = RUNNING then Panic ''sched running''
      else if intr then Panic ''sched interruptible''
      else Ok s)"

definition yield :: "nat \<Rightarrow> ('d, 'z) sys_scheme \<Rightarrow> ('d, 'z) sys_scheme result" where
  "yield cur s = sched True 1 False cur (upd_proc cur (\<lambda>q. q\<lparr>p_state := RUNNABLE\<rparr>) s)"

text \<open>sleep() up to the switch, and what it does when the process runs again.\<close>

definition sleep :: "nat \<Rightarrow> chan \<Rightarrow> ('d, 'z) sys_scheme \<Rightarrow> ('d, 'z) sys_scheme result" where
  "sleep cur c s = sched True 1 False cur (upd_proc cur (\<lambda>q. q\<lparr>p_chan := c, p_state := SLEEPING\<rparr>) s)"

definition sleep_return :: "nat \<Rightarrow> ('d, 'z) sys_scheme \<Rightarrow> ('d, 'z) sys_scheme" where
  "sleep_return cur s = upd_proc cur (\<lambda>q. q\<lparr>p_chan := NoChan\<rparr>) s"

definition wakeup1 :: "chan \<Rightarrow> ('d, 'z) sys_scheme \<Rightarrow> ('d, 'z) sys_scheme" where
  "wakeup1 c s =
     fold (\<lambda>p s. if p_state (procs s p) = SLEEPING \<and> p_chan (procs s p) = c
                 then upd_proc p (\<lambda>q. q\<lparr>p_state := RUNNABLE\<rparr>) s else s) [0..<NPROC] s"

definition wakeup :: "chan \<Rightarrow> ('d, 'z) sys_scheme \<Rightarrow> ('d, 'z) sys_scheme" where
  "wakeup c s = wakeup1 c s"

definition kill :: "int \<Rightarrow> ('d, 'z) sys_scheme \<Rightarrow> int \<times> ('d, 'z) sys_scheme" where
  "kill pid s =
     (case find (\<lambda>p. p_pid (procs s p) = pid) [0..<NPROC] of
        None \<Rightarrow> (-1, s)
      | Some p \<Rightarrow>
          (0, upd_proc p (\<lambda>q. q\<lparr>p_killed := True,
                                 p_state := (if p_state q = SLEEPING then RUNNABLE else p_state q)\<rparr>) s))"

section \<open>Exit and wait\<close>

definition parent_chan :: "nat option \<Rightarrow> chan" where
  "parent_chan q = (case q of Some q \<Rightarrow> ProcChan q | None \<Rightarrow> NoChan)"

definition exit_file :: "nat \<Rightarrow> nat \<Rightarrow> ('d, 'z) sys_scheme \<Rightarrow> ('d, 'z) sys_scheme result" where
  "exit_file cur fd s =
     (case p_ofile (procs s cur) ! fd of
        None \<Rightarrow> Ok s
      | Some f \<Rightarrow> bind_r (fileclose f s) (\<lambda>s. Ok (upd_proc cur (\<lambda>q. q\<lparr>p_ofile := (p_ofile q)[fd := None]\<rparr>) s)))"

definition reparent :: "nat \<Rightarrow> nat \<Rightarrow> ('d, 'z) sys_scheme \<Rightarrow> ('d, 'z) sys_scheme" where
  "reparent cur p s =
     (if p_parent (procs s p) = Some cur then
        let s = upd_proc p (\<lambda>q. q\<lparr>p_parent := initproc s\<rparr>) s in
        if p_state (procs s p) = ZOMBIE then wakeup1 (parent_chan (initproc s)) s else s
      else s)"

definition exit :: "nat \<Rightarrow> ('d, 'z) sys_scheme \<Rightarrow> ('d, 'z) sys_scheme result" where
  "exit cur s =
     (if initproc s = Some cur then Panic ''init exiting''
      else
        bind_r (fold_r (exit_file cur) [0..<NOFILE] s) (\<lambda>s.
          case p_cwd (procs s cur) of
            None \<Rightarrow> Panic ''trap''
          | Some ip \<Rightarrow>
              bind_r (on_fs (iput ip) (begin_fs s)) (\<lambda>s.
                let s = end_fs s;
                    s = upd_proc cur (\<lambda>q. q\<lparr>p_cwd := None\<rparr>) s;
                    s = wakeup1 (parent_chan (p_parent (procs s cur))) s;
                    s = fold (reparent cur) [0..<NPROC] s
                in sched True 1 False cur (upd_proc cur (\<lambda>q. q\<lparr>p_state := ZOMBIE\<rparr>) s))))"

text \<open>One round of wait(): the pid or -1, or None once the process is asleep.\<close>

definition wait :: "nat \<Rightarrow> ('d, 'z) sys_scheme \<Rightarrow> (int option \<times> ('d, 'z) sys_scheme) result" where
  "wait cur s =
     (case find (\<lambda>p. p_parent (procs s p) = Some cur \<and> p_state (procs s p) = ZOMBIE) [0..<NPROC] of
        Some p \<Rightarrow>
          bind_r (kfree (p_kstack (procs s p)) (kmm s)) (\<lambda>m.
          bind_r (freevm (p_pgdir (procs s p)) m) (\<lambda>m.
            Ok (Some (p_pid (procs s p)),
                upd_proc p (\<lambda>q. q\<lparr>p_kstack := 0, p_pid := 0, p_parent := None, p_name := (p_name q)[0 := 0],
                  p_killed := False, p_state := UNUSED\<rparr>) (s\<lparr>kmm := m\<rparr>))))
      | None \<Rightarrow>
          if \<not> list_ex (\<lambda>p. p_parent (procs s p) = Some cur) [0..<NPROC] \<or> p_killed (procs s cur)
          then Ok (Some (-1), s)
          else bind_r (sleep cur (ProcChan cur) s) (\<lambda>s. Ok (None, s)))"

section \<open>Scheduler\<close>

definition dispatch :: "nat \<Rightarrow> ('d, 'z) sys_scheme \<Rightarrow> ('d, 'z) sys_scheme" where
  "dispatch p s = upd_proc p (\<lambda>q. q\<lparr>p_state := RUNNING\<rparr>) s"

text \<open>
  One pass of scheduler() over the table.  \<open>run p s\<close> is the state when the process gives the
  CPU back: what it and the other CPUs did in between.  The result lists the processes run and
  counts the entries skipped.
\<close>

fun scheduler_pass :: "(nat \<Rightarrow> ('d, 'z) sys_scheme \<Rightarrow> ('d, 'z) sys_scheme) \<Rightarrow> nat list \<Rightarrow> nat \<Rightarrow> ('d, 'z) sys_scheme
    \<Rightarrow> nat list \<times> nat \<times> ('d, 'z) sys_scheme" where
  "scheduler_pass run [] skipped s = ([], skipped, s)"
| "scheduler_pass run (p # ps) skipped s =
     (if p_state (procs s p) \<noteq> RUNNABLE then scheduler_pass run ps (skipped + 1) s
      else let (rs, k, s) = scheduler_pass run ps 0 (run p (dispatch p s)) in (p # rs, k, s))"

text \<open>One round of the endless loop; the second result says whether the CPU halts.\<close>

definition scheduler :: "(nat \<Rightarrow> ('d, 'z) sys_scheme \<Rightarrow> ('d, 'z) sys_scheme) \<Rightarrow> nat \<Rightarrow> ('d, 'z) sys_scheme
    \<Rightarrow> nat list \<times> bool \<times> nat \<times> ('d, 'z) sys_scheme" where
  "scheduler run skipped s =
     (let (rs, k, s) = scheduler_pass run [0..<NPROC] skipped s in
      if k > NPROC then (rs, True, 0, s) else (rs, False, k, s))"

section \<open>Processes as a state machine\<close>

text \<open>
  The critical sections of the code in any order and on any number of CPUs: only a running
  process calls fork(), exit(), wait(), sleep(), yield() or growproc(); an interrupt or
  another process may call wakeup() or kill() at any time.
\<close>

inductive proc_step :: "('d, 'z) sys_scheme \<Rightarrow> ('d, 'z) sys_scheme \<Rightarrow> bool" where
  step_dispatch: "p < NPROC \<Longrightarrow> p_state (procs s p) = RUNNABLE \<Longrightarrow> proc_step s (sleep_return p (dispatch p s))"
| step_yield: "p < NPROC \<Longrightarrow> p_state (procs s p) = RUNNING \<Longrightarrow> yield p s = Ok s' \<Longrightarrow> proc_step s s'"
| step_fork: "p < NPROC \<Longrightarrow> p_state (procs s p) = RUNNING \<Longrightarrow> fork p (as_proc p s) = Ok (r, s') \<Longrightarrow> proc_step s s'"
| step_exit: "p < NPROC \<Longrightarrow> p_state (procs s p) = RUNNING \<Longrightarrow> exit p (as_proc p s) = Ok s' \<Longrightarrow> proc_step s s'"
| step_wait: "p < NPROC \<Longrightarrow> p_state (procs s p) = RUNNING \<Longrightarrow> wait p s = Ok (v, s') \<Longrightarrow> proc_step s s'"
| step_sleep: "p < NPROC \<Longrightarrow> p_state (procs s p) = RUNNING \<Longrightarrow> sleep p (AtChan a) s = Ok s' \<Longrightarrow> proc_step s s'"
| step_wakeup: "proc_step s (wakeup (AtChan a) s)"
| step_kill: "proc_step s (snd (kill pid s))"
| step_grow: "p < NPROC \<Longrightarrow> p_state (procs s p) = RUNNING \<Longrightarrow> growproc p n s = Ok (r, s') \<Longrightarrow> proc_step s s'"

section \<open>Invariant\<close>

definition alive :: "proc \<Rightarrow> bool" where
  "alive q \<longleftrightarrow> p_state q \<in> {SLEEPING, RUNNABLE, RUNNING}"

text \<open>
  Every process but the first has a living parent other than itself, and so every zombie has a
  parent to collect it.
\<close>

definition family_ok :: "(nat \<Rightarrow> proc) \<Rightarrow> nat option \<Rightarrow> bool" where
  "family_ok P ini \<longleftrightarrow>
     (\<exists>i<NPROC. ini = Some i \<and> alive (P i) \<and> p_parent (P i) = None) \<and>
     (\<forall>p<NPROC. case p_parent (P p) of
        Some q \<Rightarrow> q < NPROC \<and> q \<noteq> p \<and> alive (P q) \<and> p_state (P p) \<noteq> UNUSED
      | None \<Rightarrow> p_state (P p) \<noteq> ZOMBIE \<and> (alive (P p) \<longrightarrow> ini = Some p))"

text \<open>No process sleeps in wait() while it has a child to collect.\<close>

definition no_lost_child :: "(nat \<Rightarrow> proc) \<Rightarrow> bool" where
  "no_lost_child P \<longleftrightarrow>
     (\<forall>p<NPROC. \<forall>q. p_state (P p) = ZOMBIE \<longrightarrow> p_parent (P p) = Some q \<longrightarrow>
        \<not> (p_state (P q) = SLEEPING \<and> p_chan (P q) = ProcChan q))"

definition pids_ok :: "(nat \<Rightarrow> proc) \<Rightarrow> int \<Rightarrow> bool" where
  "pids_ok P n \<longleftrightarrow>
     0 < n \<and> (\<forall>p<NPROC. p_state (P p) \<noteq> UNUSED \<longrightarrow> 0 < p_pid (P p) \<and> p_pid (P p) < n) \<and>
     inj_on (\<lambda>p. p_pid (P p)) {p. p < NPROC \<and> p_state (P p) \<noteq> UNUSED}"

text \<open>Only a live process has open files and a directory.\<close>

definition tidy :: "(nat \<Rightarrow> proc) \<Rightarrow> bool" where
  "tidy P \<longleftrightarrow>
     (\<forall>p<NPROC. length (p_ofile (P p)) = NOFILE \<and>
        (\<not> alive (P p) \<longrightarrow> p_ofile (P p) = replicate NOFILE None))"

definition proc_inv :: "('d, 'z) sys_scheme \<Rightarrow> bool" where
  "proc_inv s \<longleftrightarrow>
     family_ok (procs s) (initproc s) \<and> no_lost_child (procs s) \<and> pids_ok (procs s) (nextpid s) \<and> tidy (procs s)"

end
