(* ===== verification/ProcInv.thy ===== *)
theory ProcInv
  imports Proc FsBlocks
begin

text \<open>
  The invariant of the process table: every operation of src/proc.c keeps it, in any
  interleaving.  Its consequences are that no process is left a zombie without a parent,
  and that no process sleeps in wait() while it has a child to collect.
\<close>

section \<open>What the layers below leave alone\<close>

named_theorems table_frame \<open>operations that do not touch the process table\<close>

definition same_table :: "('d, 'z) sys_scheme \<Rightarrow> ('d, 'z) sys_scheme \<Rightarrow> bool" where
  "same_table s s' \<longleftrightarrow> procs s' = procs s \<and> nextpid s' = nextpid s \<and> initproc s' = initproc s"

lemma same_table_refl [simp]: "same_table s s"
  by (simp add: same_table_def)

lemma same_table_trans: "same_table s t \<Longrightarrow> same_table t u \<Longrightarrow> same_table s u"
  by (simp add: same_table_def)

lemma upd_proc_simps [simp]:
  "procs (upd_proc p g s) = (procs s)(p := g (procs s p))"
  "nextpid (upd_proc p g s) = nextpid s"
  "initproc (upd_proc p g s) = initproc s"
  "files (upd_proc p g s) = files s"
  "kmm (upd_proc p g s) = kmm s"
  "kfs (upd_proc p g s) = kfs s"
  by (simp_all add: upd_proc_def)

lemma same_table_as_proc [simp]: "same_table s (as_proc p s)"
  by (simp add: same_table_def as_proc_def Let_def)

lemma same_table_begin_fs [simp]: "same_table s (begin_fs s)"
  by (simp add: same_table_def begin_fs_def)

lemma same_table_end_fs [simp]: "same_table s (end_fs s)"
  by (simp add: same_table_def end_fs_def)

lemma same_table_upd_file [simp]: "same_table s (upd_file f g s)"
  by (simp add: same_table_def upd_file_def)

lemma on_fs_table [table_frame]: "on_fs f s = Ok s' \<Longrightarrow> same_table s s'"
  by (auto simp: on_fs_def same_table_def)

lemma filedup_table [table_frame]: "filedup f s = Ok s' \<Longrightarrow> same_table s s'"
  by (auto simp: filedup_def split: if_splits)

lemma close_pipe_table [table_frame]: "close_pipe p w s = Ok s' \<Longrightarrow> same_table s s'"
  by (auto simp: close_pipe_def same_table_def split: option.splits)

lemma iput_op_table: "bind_r (on_fs (iput ip) (begin_fs s)) (\<lambda>s. Ok (end_fs s)) = Ok s' \<Longrightarrow> same_table s s'"
  by (auto dest!: on_fs_table intro: same_table_trans [OF same_table_begin_fs same_table_trans [OF _ same_table_end_fs]])

lemma fileclose_table [table_frame]:
  assumes "fileclose f s = Ok s'" shows "same_table s s'"
proof -
  have "same_table (upd_file f g s) s' \<Longrightarrow> same_table s s'" for g
    using same_table_trans [OF same_table_upd_file] .
  then show ?thesis
    using assms unfolding fileclose_def Let_def
    by (auto simp del: bind_r_Ok_iff split: if_splits dest!: close_pipe_table iput_op_table)
qed

section \<open>Closed forms\<close>

definition woken :: "chan \<Rightarrow> (nat \<Rightarrow> proc) \<Rightarrow> nat \<Rightarrow> proc" where
  "woken c P p = (if p < NPROC \<and> p_state (P p) = SLEEPING \<and> p_chan (P p) = c then (P p)\<lparr>p_state := RUNNABLE\<rparr> else P p)"

lemma upd_proc_procs: "upd_proc p g s = s\<lparr>procs := (procs s)(p := g (procs s p))\<rparr>"
  by (simp add: upd_proc_def)

lemma wakeup1_fold:
  "fold (\<lambda>p s. if p_state (procs s p) = SLEEPING \<and> p_chan (procs s p) = c
               then upd_proc p (\<lambda>q. q\<lparr>p_state := RUNNABLE\<rparr>) s else s) ps s =
   s\<lparr>procs := \<lambda>p. if p \<in> set ps \<and> p_state (procs s p) = SLEEPING \<and> p_chan (procs s p) = c
                  then (procs s p)\<lparr>p_state := RUNNABLE\<rparr> else procs s p\<rparr>"
  by (induction ps arbitrary: s) (auto simp: upd_proc_def fun_eq_iff intro!: arg_cong [where f = "\<lambda>x. _\<lparr>procs := x\<rparr>"])

lemma wakeup1_closed: "wakeup1 c s = s\<lparr>procs := woken c (procs s)\<rparr>"
  unfolding wakeup1_def wakeup1_fold by (simp add: woken_def fun_eq_iff)

lemma wakeup1_simps [simp]:
  "procs (wakeup1 c s) = woken c (procs s)"
  "nextpid (wakeup1 c s) = nextpid s"
  "initproc (wakeup1 c s) = initproc s"
  by (simp_all add: wakeup1_closed)

lemma woken_simps [simp]:
  "p_parent (woken c P p) = p_parent (P p)"
  "p_pid (woken c P p) = p_pid (P p)"
  "p_ofile (woken c P p) = p_ofile (P p)"
  "p_chan (woken c P p) = p_chan (P p)"
  "alive (woken c P p) = alive (P p)"
  "p_state (woken c P p) = ZOMBIE \<longleftrightarrow> p_state (P p) = ZOMBIE"
  "p_state (woken c P p) = UNUSED \<longleftrightarrow> p_state (P p) = UNUSED"
  by (simp_all add: woken_def alive_def)

lemma woken_sleeping: "p_state (woken c P p) = SLEEPING \<longleftrightarrow> p_state (P p) = SLEEPING \<and> \<not> (p < NPROC \<and> p_chan (P p) = c)"
  by (auto simp: woken_def)

lemma sched_Ok: "sched True 1 False cur s = Ok s' \<longleftrightarrow> p_state (procs s cur) \<noteq> RUNNING \<and> s' = s"
  by (auto simp: sched_def split: if_splits)

section \<open>Steps that keep the family\<close>

text \<open>Two entries that differ at most in which of the live states they are in.\<close>

definition like :: "proc \<Rightarrow> proc \<Rightarrow> bool" where
  "like a b \<longleftrightarrow>
     p_parent b = p_parent a \<and> p_pid b = p_pid a \<and> p_ofile b = p_ofile a \<and> (alive b \<longleftrightarrow> alive a) \<and>
     (p_state b = ZOMBIE \<longleftrightarrow> p_state a = ZOMBIE) \<and> (p_state b = UNUSED \<longleftrightarrow> p_state a = UNUSED)"

definition in_wait :: "(nat \<Rightarrow> proc) \<Rightarrow> nat \<Rightarrow> bool" where
  "in_wait P q \<longleftrightarrow> p_state (P q) = SLEEPING \<and> p_chan (P q) = ProcChan q"

definition has_zombie :: "(nat \<Rightarrow> proc) \<Rightarrow> nat \<Rightarrow> bool" where
  "has_zombie P q \<longleftrightarrow> (\<exists>p<NPROC. p_state (P p) = ZOMBIE \<and> p_parent (P p) = Some q)"

lemma no_lost_child_iff: "no_lost_child P \<longleftrightarrow> (\<forall>q. in_wait P q \<longrightarrow> \<not> has_zombie P q)"
  unfolding no_lost_child_def in_wait_def has_zombie_def by metis

lemma like_refl [simp]: "like a a"
  by (simp add: like_def)

lemma inv_like:
  assumes "proc_inv s" and "\<And>p. like (procs s p) (procs s' p)"
    and "nextpid s' = nextpid s" "initproc s' = initproc s"
    and "\<And>q. in_wait (procs s') q \<Longrightarrow> in_wait (procs s) q \<or> \<not> has_zombie (procs s) q"
  shows "proc_inv s'"
proof -
  let ?P = "procs s" and ?P' = "procs s'"
  have eq [simp]: "p_parent (?P' p) = p_parent (?P p)" "p_pid (?P' p) = p_pid (?P p)" "p_ofile (?P' p) = p_ofile (?P p)"
    "alive (?P' p) \<longleftrightarrow> alive (?P p)" "p_state (?P' p) = ZOMBIE \<longleftrightarrow> p_state (?P p) = ZOMBIE"
    "p_state (?P' p) = UNUSED \<longleftrightarrow> p_state (?P p) = UNUSED" for p
    using assms(2) by (simp_all add: like_def)
  have "family_ok ?P' (initproc s')" "pids_ok ?P' (nextpid s')" "tidy ?P'"
    using assms(1) by (simp_all add: proc_inv_def family_ok_def pids_ok_def tidy_def assms(3,4) cong: option.case_cong)
  moreover have "has_zombie ?P' q = has_zombie ?P q" for q by (simp add: has_zombie_def)
  then have "no_lost_child ?P'"
    using assms(1,5) by (auto simp: proc_inv_def no_lost_child_iff)
  ultimately show ?thesis by (simp add: proc_inv_def)
qed

lemma inv_same_table: "proc_inv s \<Longrightarrow> same_table s s' \<Longrightarrow> proc_inv s'"
  by (simp add: proc_inv_def same_table_def)

lemma inv_same_table_iff: "same_table s s' \<Longrightarrow> proc_inv s' \<longleftrightarrow> proc_inv s"
  by (simp add: proc_inv_def same_table_def)

lemma inv_woken: "proc_inv s \<Longrightarrow> proc_inv (wakeup1 c s)"
  by (rule inv_like) (auto simp: like_def in_wait_def woken_def alive_def split: if_splits)

text \<open>A change of one entry.\<close>

lemma inv_point:
  assumes "proc_inv s" and "\<And>r. r \<noteq> p \<Longrightarrow> procs s' r = procs s r" "nextpid s' = nextpid s" "initproc s' = initproc s"
    and "like (procs s p) (procs s' p)"
    and "in_wait (procs s') p \<Longrightarrow> in_wait (procs s) p \<or> \<not> has_zombie (procs s) p"
  shows "proc_inv s'"
  using assms(1) _ assms(3,4)
proof (rule inv_like)
  show "like (procs s r) (procs s' r)" for r using assms(2,5) by (cases "r = p") auto
  show "in_wait (procs s') q \<Longrightarrow> in_wait (procs s) q \<or> \<not> has_zombie (procs s) q" for q
    using assms(2,6) by (cases "q = p") (auto simp: in_wait_def)
qed

lemma inv_kill: "proc_inv s \<Longrightarrow> proc_inv (snd (kill pid s))"
proof (cases "find (\<lambda>p. p_pid (procs s p) = pid) [0..<NPROC]")
  case (Some p)
  assume "proc_inv s"
  then show ?thesis by (rule inv_point [of _ p]) (auto simp: kill_def Some like_def alive_def in_wait_def)
qed (simp add: kill_def)

lemma inv_dispatch: "proc_inv s \<Longrightarrow> p_state (procs s p) = RUNNABLE \<Longrightarrow> proc_inv (sleep_return p (dispatch p s))"
  by (erule inv_point [of _ p]) (auto simp: sleep_return_def dispatch_def like_def alive_def in_wait_def)

lemma inv_yield: "proc_inv s \<Longrightarrow> p_state (procs s p) = RUNNING \<Longrightarrow> yield p s = Ok s' \<Longrightarrow> proc_inv s'"
  by (erule inv_point [of _ p]) (auto simp: yield_def sched_Ok like_def alive_def in_wait_def)

lemma inv_sleep:
  assumes "proc_inv s" "p_state (procs s p) = RUNNING" "c = ProcChan p \<Longrightarrow> \<not> has_zombie (procs s) p" "sleep p c s = Ok s'"
  shows "proc_inv s'"
  using assms(1) by (rule inv_point [of _ p]) (use assms(2-) in \<open>auto simp: sleep_def sched_Ok like_def alive_def in_wait_def\<close>)

lemma inv_growproc: "proc_inv s \<Longrightarrow> growproc p n s = Ok (r, s') \<Longrightarrow> proc_inv s'"
  by (erule inv_point [of _ p]) (auto simp: growproc_def Let_def like_def alive_def in_wait_def split: if_splits)

section \<open>The invariant, piece by piece\<close>

lemma family_okI:
  assumes "ini = Some i" "i < NPROC" "alive (P i)" "p_parent (P i) = None"
    and "\<And>p q. p < NPROC \<Longrightarrow> p_parent (P p) = Some q \<Longrightarrow> q < NPROC \<and> q \<noteq> p \<and> alive (P q) \<and> p_state (P p) \<noteq> UNUSED"
    and "\<And>p. p < NPROC \<Longrightarrow> p_parent (P p) = None \<Longrightarrow> p_state (P p) \<noteq> ZOMBIE \<and> (alive (P p) \<longrightarrow> p = i)"
  shows "family_ok P ini"
  unfolding family_ok_def
proof (intro conjI allI impI)
  show "\<exists>i<NPROC. ini = Some i \<and> alive (P i) \<and> p_parent (P i) = None" using assms(1-4) by blast
  show "case p_parent (P p) of
      Some q \<Rightarrow> q < NPROC \<and> q \<noteq> p \<and> alive (P q) \<and> p_state (P p) \<noteq> UNUSED
    | None \<Rightarrow> p_state (P p) \<noteq> ZOMBIE \<and> (alive (P p) \<longrightarrow> ini = Some p)" if "p < NPROC" for p
    using assms(1) assms(5,6) [OF that] by (cases "p_parent (P p)") simp_all
qed

lemma family_okE:
  assumes "family_ok P ini"
  obtains i where "ini = Some i" "i < NPROC" "alive (P i)" "p_parent (P i) = None"
    and "\<And>p q. p < NPROC \<Longrightarrow> p_parent (P p) = Some q \<Longrightarrow> q < NPROC \<and> q \<noteq> p \<and> alive (P q) \<and> p_state (P p) \<noteq> UNUSED"
    and "\<And>p. p < NPROC \<Longrightarrow> p_parent (P p) = None \<Longrightarrow> p_state (P p) \<noteq> ZOMBIE \<and> (alive (P p) \<longrightarrow> p = i)"
proof -
  obtain i where i: "ini = Some i" "i < NPROC" "alive (P i)" "p_parent (P i) = None"
    using assms unfolding family_ok_def by blast
  have all: "case p_parent (P p) of
      Some q \<Rightarrow> q < NPROC \<and> q \<noteq> p \<and> alive (P q) \<and> p_state (P p) \<noteq> UNUSED
    | None \<Rightarrow> p_state (P p) \<noteq> ZOMBIE \<and> (alive (P p) \<longrightarrow> ini = Some p)" if "p < NPROC" for p
    using assms that unfolding family_ok_def by blast
  show ?thesis
  proof (rule that [OF i])
    show "q < NPROC \<and> q \<noteq> p \<and> alive (P q) \<and> p_state (P p) \<noteq> UNUSED" if "p < NPROC" "p_parent (P p) = Some q" for p q
      using all [OF that(1)] that(2) by simp
    show "p_state (P p) \<noteq> ZOMBIE \<and> (alive (P p) \<longrightarrow> p = i)" if "p < NPROC" "p_parent (P p) = None" for p
      using all [OF that(1)] that(2) i(1) by auto
  qed
qed

lemma family_parent: "family_ok P ini \<Longrightarrow> p < NPROC \<Longrightarrow> p_parent (P p) = Some q \<Longrightarrow> q < NPROC \<and> q \<noteq> p"
  by (erule family_okE) blast

lemma family_init: "family_ok P (Some i) \<Longrightarrow> i < NPROC"
  unfolding family_ok_def by blast

lemma family_zombie:
  assumes "family_ok P ini" "p < NPROC" "p_state (P p) = ZOMBIE"
  shows "\<exists>q<NPROC. p_parent (P p) = Some q \<and> q \<noteq> p \<and> alive (P q)"
proof -
  have "case p_parent (P p) of
      Some q \<Rightarrow> q < NPROC \<and> q \<noteq> p \<and> alive (P q) \<and> p_state (P p) \<noteq> UNUSED
    | None \<Rightarrow> p_state (P p) \<noteq> ZOMBIE \<and> (alive (P p) \<longrightarrow> ini = Some p)"
    using assms(1,2) unfolding family_ok_def by blast
  then show ?thesis using assms(3) by (cases "p_parent (P p)") simp_all
qed

lemma proc_invD:
  assumes "proc_inv s"
  shows "family_ok (procs s) (initproc s)" "no_lost_child (procs s)" "pids_ok (procs s) (nextpid s)" "tidy (procs s)"
  using assms by (auto simp: proc_inv_def)

text \<open>An entry that is not alive is nobody's parent: it may become anything that is not alive.\<close>

lemma family_dead_entry:
  assumes "family_ok P ini" "\<not> alive (P p)" "\<not> alive q" "p_parent q = None" "p_state q \<noteq> ZOMBIE"
  shows "family_ok (P(p := q)) ini"
  using assms(1)
proof (rule family_okE)
  fix i
  assume i: "ini = Some i" "i < NPROC" "alive (P i)" "p_parent (P i) = None"
    and some: "\<And>p q. p < NPROC \<Longrightarrow> p_parent (P p) = Some q \<Longrightarrow> q < NPROC \<and> q \<noteq> p \<and> alive (P q) \<and> p_state (P p) \<noteq> UNUSED"
    and none: "\<And>p. p < NPROC \<Longrightarrow> p_parent (P p) = None \<Longrightarrow> p_state (P p) \<noteq> ZOMBIE \<and> (alive (P p) \<longrightarrow> p = i)"
  have "i \<noteq> p" using i assms(2) by auto
  show ?thesis
  proof (rule family_okI [OF i(1,2)])
    show "alive ((P(p := q)) i)" "p_parent ((P(p := q)) i) = None" using i \<open>i \<noteq> p\<close> by simp_all
    show "t < NPROC \<and> t \<noteq> r \<and> alive ((P(p := q)) t) \<and> p_state ((P(p := q)) r) \<noteq> UNUSED"
      if "r < NPROC" "p_parent ((P(p := q)) r) = Some t" for r t
      using some [OF that(1), of t] that(2) assms(2,4) by (cases "r = p"; cases "t = p") simp_all
    show "p_state ((P(p := q)) r) \<noteq> ZOMBIE \<and> (alive ((P(p := q)) r) \<longrightarrow> r = i)"
      if "r < NPROC" "p_parent ((P(p := q)) r) = None" for r
      using none [OF that(1)] that(2) assms(3,5) by (cases "r = p") simp_all
  qed
qed

lemma no_lost_entry:
  assumes "no_lost_child P" "p_state q \<noteq> ZOMBIE" "p_state q \<noteq> SLEEPING"
  shows "no_lost_child (P(p := q))"
  using assms unfolding no_lost_child_def by (simp add: fun_upd_apply)

lemma pids_dead_entry:
  assumes "pids_ok P n" "p_state q = UNUSED" "n \<le> n'"
  shows "pids_ok (P(p := q)) n'"
proof -
  have "{r. r < NPROC \<and> p_state ((P(p := q)) r) \<noteq> UNUSED} = {r. r < NPROC \<and> p_state (P r) \<noteq> UNUSED} - {p}"
    using assms(2) by auto
  moreover have "inj_on (\<lambda>r. p_pid ((P(p := q)) r)) ({r. r < NPROC \<and> p_state (P r) \<noteq> UNUSED} - {p})"
    using assms(1) by (auto simp: pids_ok_def inj_on_def)
  ultimately show ?thesis using assms by (force simp: pids_ok_def)
qed

lemma pids_new_entry:
  assumes "pids_ok P n" "p_pid q = n"
  shows "pids_ok (P(p := q)) (n + 1)"
proof -
  have old: "0 < n" "0 < p_pid (P r) \<and> p_pid (P r) < n" if "r < NPROC" "p_state (P r) \<noteq> UNUSED" for r
    using assms(1) that by (auto simp: pids_ok_def)
  have "inj_on (\<lambda>r. p_pid ((P(p := q)) r)) {r. r < NPROC \<and> p_state ((P(p := q)) r) \<noteq> UNUSED}"
  proof (rule inj_onI, goal_cases)
    case (1 x y)
    then have "x = y" if "x \<noteq> p" "y \<noteq> p" using assms(1) that by (auto simp: pids_ok_def inj_on_def)
    moreover have "x = y" if "(x = p) \<noteq> (y = p)" using 1 that old(2) assms(2) by (cases "x = p") fastforce+
    ultimately show ?case by auto
  qed
  moreover have "0 < p_pid ((P(p := q)) r) \<and> p_pid ((P(p := q)) r) < n + 1" if "r < NPROC" "p_state ((P(p := q)) r) \<noteq> UNUSED" for r
    using old(2) [of r] that assms by (cases "r = p") (auto simp: pids_ok_def)
  ultimately show ?thesis using assms(1) unfolding pids_ok_def by simp
qed

lemma tidy_entry: "tidy P \<Longrightarrow> length (p_ofile q) = NOFILE \<Longrightarrow> (alive q \<or> p_ofile q = replicate NOFILE None) \<Longrightarrow> tidy (P(p := q))"
  by (auto simp: tidy_def)

lemma inv_dead_entry:
  assumes "proc_inv s" "procs s' = (procs s)(p := q)" "nextpid s \<le> nextpid s'" "initproc s' = initproc s" "p < NPROC"
    "\<not> alive (procs s p)" "p_state q = UNUSED" "p_parent q = None" "p_ofile q = p_ofile (procs s p)"
  shows "proc_inv s'"
proof -
  note inv = proc_invD [OF assms(1)]
  have "\<not> alive q" using assms(7) by (simp add: alive_def)
  moreover have "p_ofile q = replicate NOFILE None" using inv(4) assms(5,6,9) by (simp add: tidy_def)
  ultimately show ?thesis
    using family_dead_entry [OF inv(1) assms(6)] no_lost_entry [OF inv(2)] pids_dead_entry [OF inv(3)] tidy_entry [OF inv(4)] assms
    by (simp add: proc_inv_def)
qed

section \<open>Wait\<close>

lemma find_table:
  assumes "find f [0..<n] = Some p" shows "p < n" "f p"
  using assms by (auto simp: find_Some_iff)

lemma inv_wait:
  assumes inv: "proc_inv s" and run: "p_state (procs s cur) = RUNNING" and w: "wait cur s = Ok (v, s')"
  shows "proc_inv s'"
proof (cases "find (\<lambda>p. p_parent (procs s p) = Some cur \<and> p_state (procs s p) = ZOMBIE) [0..<NPROC]")
  case None
  then have "\<not> has_zombie (procs s) cur" by (auto simp: find_None_iff has_zombie_def)
  then show ?thesis
    using w inv inv_sleep [OF inv run, of "ProcChan cur"] by (auto simp: wait_def None split: if_splits)
next
  case (Some p)
  note z = find_table [OF Some]
  show ?thesis
    by (rule inv_dead_entry [OF inv, where p = p and q = "procs s' p"])
      (use w z in \<open>auto simp: wait_def Some alive_def\<close>)
qed

section \<open>Fork\<close>

lemma allocproc_Some:
  assumes "allocproc s = Ok (Some p, s')"
  shows "p < NPROC" "p_state (procs s p) = UNUSED"
    "\<exists>q. procs s' = (procs s)(p := q) \<and> p_state q = EMBRYO \<and> p_pid q = nextpid s \<and> p_parent q = p_parent (procs s p) \<and>
       p_ofile q = p_ofile (procs s p) \<and> p_killed q = p_killed (procs s p)"
    "nextpid s' = nextpid s + 1" "initproc s' = initproc s" "files s' = files s"
proof -
  obtain q where q: "find (\<lambda>p. p_state (procs s p) = UNUSED) [0..<NPROC] = Some q"
    using assms by (auto simp: allocproc_def split: option.splits)
  then have "q = p" using assms by (auto simp: allocproc_def Let_def)
  then show "p < NPROC" "p_state (procs s p) = UNUSED" using find_table [OF q] by auto
  show "\<exists>q. procs s' = (procs s)(p := q) \<and> p_state q = EMBRYO \<and> p_pid q = nextpid s \<and> p_parent q = p_parent (procs s p) \<and>
       p_ofile q = p_ofile (procs s p) \<and> p_killed q = p_killed (procs s p)"
    "nextpid s' = nextpid s + 1" "initproc s' = initproc s" "files s' = files s"
    using assms by (auto simp: allocproc_def Let_def q)
qed

lemma allocproc_None: "allocproc s = Ok (None, s') \<Longrightarrow> s' = s"
  by (auto simp: allocproc_def Let_def split: option.splits)

lemma fork_files:
  assumes "fold_r (fork_file cur np) is s = Ok s'" "cur \<noteq> np"
  shows "\<exists>fs. length fs = length (p_ofile (procs s np)) \<and> procs s' = (procs s)(np := (procs s np)\<lparr>p_ofile := fs\<rparr>) \<and>
    nextpid s' = nextpid s \<and> initproc s' = initproc s"
  using assms(1)
proof (induction "is" arbitrary: s)
  case Nil
  then show ?case by (intro exI [of _ "p_ofile (procs s np)"]) auto
next
  case (Cons i "is")
  then obtain s1 where s1: "fork_file cur np i s = Ok s1" "fold_r (fork_file cur np) is s1 = Ok s'" by auto
  have "\<exists>fs. length fs = length (p_ofile (procs s np)) \<and> procs s1 = (procs s)(np := (procs s np)\<lparr>p_ofile := fs\<rparr>) \<and>
      nextpid s1 = nextpid s \<and> initproc s1 = initproc s"
  proof (cases "p_ofile (procs s cur) ! i")
    case None
    then show ?thesis using s1(1) by (intro exI [of _ "p_ofile (procs s np)"]) (auto simp: fork_file_def)
  next
    case (Some f)
    then show ?thesis
      using s1(1) by (intro exI [of _ "(p_ofile (procs s np))[i := Some f]"]) (auto simp: fork_file_def same_table_def dest!: filedup_table)
  qed
  then obtain fs where fs: "length fs = length (p_ofile (procs s np))" "procs s1 = (procs s)(np := (procs s np)\<lparr>p_ofile := fs\<rparr>)"
      "nextpid s1 = nextpid s" "initproc s1 = initproc s" by blast
  from Cons.IH [OF s1(2)] obtain gs where "length gs = length (p_ofile (procs s1 np))"
      "procs s' = (procs s1)(np := (procs s1 np)\<lparr>p_ofile := gs\<rparr>)" "nextpid s' = nextpid s1" "initproc s' = initproc s1" by blast
  then show ?case using fs by (intro exI [of _ gs]) simp
qed

lemma inv_new_process:
  assumes inv: "proc_inv s" and np: "np < NPROC" "p_state (procs s np) = UNUSED"
    and P: "procs s' = (procs s)(np := q)" and n: "nextpid s' = nextpid s + 1" "initproc s' = initproc s"
    and q: "p_state q = RUNNABLE" "p_pid q = nextpid s" "p_parent q = Some cur" "length (p_ofile q) = NOFILE"
    and cur: "cur < NPROC" "p_state (procs s cur) = RUNNING"
  shows "proc_inv s'"
proof -
  note inv = proc_invD [OF inv]
  have dead: "cur \<noteq> np" "\<not> alive (procs s np)" and live: "alive (procs s cur)" "alive q"
    using np cur q by (auto simp: alive_def)
  have "family_ok ((procs s)(np := q)) (initproc s)"
  proof (rule family_okE [OF inv(1)])
    fix i
    assume i: "initproc s = Some i" "i < NPROC" "alive (procs s i)" "p_parent (procs s i) = None"
      and some: "\<And>p q. p < NPROC \<Longrightarrow> p_parent (procs s p) = Some q \<Longrightarrow> q < NPROC \<and> q \<noteq> p \<and> alive (procs s q) \<and> p_state (procs s p) \<noteq> UNUSED"
      and none: "\<And>p. p < NPROC \<Longrightarrow> p_parent (procs s p) = None \<Longrightarrow> p_state (procs s p) \<noteq> ZOMBIE \<and> (alive (procs s p) \<longrightarrow> p = i)"
    have "i \<noteq> np" using i dead by auto
    show ?thesis
    proof (rule family_okI [OF i(1,2)])
      show "alive (((procs s)(np := q)) i)" "p_parent (((procs s)(np := q)) i) = None" using i \<open>i \<noteq> np\<close> by simp_all
      show "t < NPROC \<and> t \<noteq> r \<and> alive (((procs s)(np := q)) t) \<and> p_state (((procs s)(np := q)) r) \<noteq> UNUSED"
        if "r < NPROC" "p_parent (((procs s)(np := q)) r) = Some t" for r t
        using some [OF that(1), of t] that(2) dead live cur(1) q by (cases "r = np"; cases "t = np") simp_all
      show "p_state (((procs s)(np := q)) r) \<noteq> ZOMBIE \<and> (alive (((procs s)(np := q)) r) \<longrightarrow> r = i)"
        if "r < NPROC" "p_parent (((procs s)(np := q)) r) = None" for r
        using none [OF that(1)] that(2) q(3) by (cases "r = np") simp_all
    qed
  qed
  moreover have "no_lost_child ((procs s)(np := q))" using no_lost_entry [OF inv(2)] q by simp
  moreover have "pids_ok ((procs s)(np := q)) (nextpid s + 1)" using inv(3) q(2) by (rule pids_new_entry)
  moreover have "tidy ((procs s)(np := q))" using tidy_entry [OF inv(4)] q live by simp
  ultimately show ?thesis by (simp add: proc_inv_def P n)
qed

text \<open>What fork() does to the table: nothing, a slot that stays free, or a new child.\<close>

lemma fork_cases:
  assumes "fork cur s = Ok (r, s')" "p_state (procs s cur) = RUNNING"
  obtains (full) "s' = s" "r = -1"
  | (failed) np q where "np < NPROC" "p_state (procs s np) = UNUSED" "procs s' = (procs s)(np := q)" "p_state q = UNUSED"
      "p_parent q = p_parent (procs s np)" "p_ofile q = p_ofile (procs s np)" "nextpid s' = nextpid s + 1"
      "initproc s' = initproc s" "r = -1"
  | (child) np q where "np < NPROC" "p_state (procs s np) = UNUSED" "procs s' = (procs s)(np := q)" "p_state q = RUNNABLE"
      "p_pid q = nextpid s" "p_parent q = Some cur" "length (p_ofile q) = length (p_ofile (procs s np))"
      "nextpid s' = nextpid s + 1" "initproc s' = initproc s" "r = nextpid s"
proof -
  obtain a s1 where al: "allocproc s = Ok (a, s1)"
    using assms by (auto simp: fork_def)
  show ?thesis
  proof (cases a)
    case None
    then show ?thesis using assms al allocproc_None [of s s1] by (intro full) (auto simp: fork_def)
  next
    case (Some np)
    note np = allocproc_Some [OF al [unfolded Some]]
    obtain q1 where q1: "procs s1 = (procs s)(np := q1)" "p_state q1 = EMBRYO" "p_pid q1 = nextpid s"
        "p_parent q1 = p_parent (procs s np)" "p_ofile q1 = p_ofile (procs s np)" using np(3) by blast
    have ne: "cur \<noteq> np" using np(2) assms(2) by auto
    obtain d m where d: "copyuvm (p_pgdir (procs s1 cur)) (ucast (p_sz (procs s1 cur))) (kmm s1) = Ok (d, m)"
      using assms(1) by (auto simp: fork_def al Some)
    show ?thesis
    proof (cases d)
      case None
      then show ?thesis
        using assms(1) d q1 np by (intro failed [of np "procs s' np"]) (auto simp: fork_def al Some Let_def)
    next
      case (Some e)
      obtain m2 s3 where s3: "fold_r (fork_file cur np) [0..<NOFILE]
            (upd_proc np (\<lambda>q. q\<lparr>p_pgdir := e, p_sz := p_sz (procs s1 cur), p_parent := Some cur\<rparr>) (s1\<lparr>kmm := m2\<rparr>)) = Ok s3"
          and s': "procs s' = (procs s3)(np := procs s' np)" "p_state (procs s' np) = RUNNABLE"
            "p_pid (procs s' np) = p_pid (procs s3 np)" "p_parent (procs s' np) = p_parent (procs s3 np)"
            "p_ofile (procs s' np) = p_ofile (procs s3 np)" "nextpid s' = nextpid s3" "initproc s' = initproc s3" "r = p_pid (procs s3 np)"
        using assms(1) d
        by (auto simp: fork_def al \<open>a = Some np\<close> Some Let_def idup_def split: option.splits)
      show ?thesis
        using fork_files [OF s3 ne] s' q1 np by (intro child [of np "procs s' np"]) auto
    qed
  qed
qed

lemma inv_fork:
  assumes inv: "proc_inv s" and cur: "cur < NPROC" "p_state (procs s cur) = RUNNING" and f: "fork cur s = Ok (r, s')"
  shows "proc_inv s'"
  using f cur(2)
proof (cases rule: fork_cases)
  case full
  then show ?thesis using inv by simp
next
  case (failed np q)
  have "p_parent (procs s np) = None" "\<not> alive (procs s np)"
    using proc_invD(1) [OF inv] failed(1,2) by (auto simp: family_ok_def alive_def split: option.splits)
  then show ?thesis using inv_dead_entry [OF inv failed(3)] failed by simp
next
  case (child np q)
  then show ?thesis
    using proc_invD(4) [OF inv] by (intro inv_new_process [OF inv child(1-3,8,9,4-6) _ cur]) (simp add: tidy_def)
qed

section \<open>Exit\<close>

lemma exit_files:
  assumes "fold_r (exit_file cur) is s = Ok s'"
  shows "procs s' = (procs s)(cur := (procs s cur)\<lparr>p_ofile := fold (\<lambda>i fs. fs[i := None]) is (p_ofile (procs s cur))\<rparr>) \<and>
    nextpid s' = nextpid s \<and> initproc s' = initproc s"
  using assms
proof (induction "is" arbitrary: s)
  case (Cons i "is")
  then obtain s1 where s1: "exit_file cur i s = Ok s1" "fold_r (exit_file cur) is s1 = Ok s'" by auto
  have "procs s1 = (procs s)(cur := (procs s cur)\<lparr>p_ofile := (p_ofile (procs s cur))[i := None]\<rparr>) \<and>
      nextpid s1 = nextpid s \<and> initproc s1 = initproc s"
  proof (cases "p_ofile (procs s cur) ! i")
    case None
    then have "(p_ofile (procs s cur))[i := None] = p_ofile (procs s cur)" by (metis list_update_id)
    then show ?thesis using s1(1) None by (simp add: exit_file_def)
  next
    case (Some f)
    then show ?thesis using s1(1) by (auto simp: exit_file_def same_table_def dest!: fileclose_table)
  qed
  then show ?case using Cons.IH [OF s1(2)] by (simp add: fun_eq_iff)
qed simp

lemma clear_all: "fold (\<lambda>i fs. fs[i := None]) [0..<length fs] fs = replicate (length fs) None"
proof -
  have len: "length (fold (\<lambda>i fs. fs[i := None]) is xs) = length xs" for "is" and xs :: "'a option list"
    by (induction "is" arbitrary: xs) auto
  have nth: "fold (\<lambda>i fs. fs[i := None]) is xs ! j = (if j \<in> set is then None else xs ! j)" if "j < length xs"
    for "is" j and xs :: "'a option list"
    using that by (induction "is" arbitrary: xs) (auto simp: nth_list_update)
  show ?thesis by (rule nth_equalityI) (simp_all add: len nth)
qed

definition adopted :: "nat \<Rightarrow> nat option \<Rightarrow> nat set \<Rightarrow> (nat \<Rightarrow> proc) \<Rightarrow> nat \<Rightarrow> proc" where
  "adopted cur ini A P p = (if p \<in> A \<and> p_parent (P p) = Some cur then (P p)\<lparr>p_parent := ini\<rparr> else P p)"

lemma adopted_simps [simp]:
  "p_state (adopted cur ini A P p) = p_state (P p)"
  "p_chan (adopted cur ini A P p) = p_chan (P p)"
  "p_pid (adopted cur ini A P p) = p_pid (P p)"
  "p_ofile (adopted cur ini A P p) = p_ofile (P p)"
  "alive (adopted cur ini A P p) = alive (P p)"
  "p_parent (adopted cur ini A P p) = (if p \<in> A \<and> p_parent (P p) = Some cur then ini else p_parent (P p))"
  by (simp_all add: adopted_def alive_def)

lemma adopted_woken: "adopted cur ini A (woken c P) = woken c (adopted cur ini A P)"
  by (rule ext) (simp add: adopted_def woken_def)

lemma woken_woken [simp]: "woken c (woken c P) = woken c P"
  by (rule ext) (simp add: woken_def)

lemma adopted_insert: "ini \<noteq> Some cur \<Longrightarrow> adopted cur ini A (adopted cur ini {p} P) = adopted cur ini (insert p A) P"
  by (rule ext) (simp add: adopted_def)

lemma reparent_one:
  "procs (reparent cur p s) =
     (if p_parent (procs s p) = Some cur \<and> p_state (procs s p) = ZOMBIE
      then woken (parent_chan (initproc s)) (adopted cur (initproc s) {p} (procs s)) else adopted cur (initproc s) {p} (procs s))"
  "nextpid (reparent cur p s) = nextpid s" "initproc (reparent cur p s) = initproc s"
proof -
  have "adopted cur (initproc s) {p} (procs s) =
      (if p_parent (procs s p) = Some cur then (procs s)(p := (procs s p)\<lparr>p_parent := initproc s\<rparr>) else procs s)"
    by (rule ext) (simp add: adopted_def)
  then show "procs (reparent cur p s) =
     (if p_parent (procs s p) = Some cur \<and> p_state (procs s p) = ZOMBIE
      then woken (parent_chan (initproc s)) (adopted cur (initproc s) {p} (procs s)) else adopted cur (initproc s) {p} (procs s))"
    by (simp add: reparent_def Let_def)
qed (simp_all add: reparent_def Let_def)

lemma reparent_all:
  assumes "initproc s \<noteq> Some cur"
  shows "procs (fold (reparent cur) ps s) =
     (if \<exists>z\<in>set ps. p_parent (procs s z) = Some cur \<and> p_state (procs s z) = ZOMBIE
      then woken (parent_chan (initproc s)) (adopted cur (initproc s) (set ps) (procs s))
      else adopted cur (initproc s) (set ps) (procs s)) \<and>
     nextpid (fold (reparent cur) ps s) = nextpid s \<and> initproc (fold (reparent cur) ps s) = initproc s"
  using assms
proof (induction ps arbitrary: s)
  case Nil
  then show ?case by (simp add: adopted_def fun_eq_iff)
next
  case (Cons p ps)
  let ?s = "reparent cur p s"
  have "(\<exists>z\<in>set ps. p_parent (procs ?s z) = Some cur \<and> p_state (procs ?s z) = ZOMBIE) \<longleftrightarrow>
      (\<exists>z\<in>set ps - {p}. p_parent (procs s z) = Some cur \<and> p_state (procs s z) = ZOMBIE)"
    using Cons.prems by (auto simp: reparent_one)
  then show ?case
    using Cons.IH [of ?s] Cons.prems
    by (auto simp: reparent_one adopted_woken adopted_insert)
qed

text \<open>The table once the process has closed its files and is a zombie.\<close>

lemma exit_table:
  assumes e: "exit cur s = Ok s'"
  obtains Q W A B where "initproc s \<noteq> Some cur" "nextpid s' = nextpid s" "initproc s' = initproc s"
    "\<And>p. p \<noteq> cur \<Longrightarrow> Q p = procs s p" "p_parent (Q cur) = p_parent (procs s cur)" "p_pid (Q cur) = p_pid (procs s cur)"
    "p_state (Q cur) = p_state (procs s cur)"
    "p_ofile (Q cur) = fold (\<lambda>i fs. fs[i := None]) [0..<NOFILE] (p_ofile (procs s cur))"
    "W = woken (parent_chan (p_parent (procs s cur))) Q" "A = adopted cur (initproc s) {0..<NPROC} W"
    "B = (if \<exists>z\<in>{0..<NPROC}. p_parent (W z) = Some cur \<and> p_state (W z) = ZOMBIE then woken (parent_chan (initproc s)) A else A)"
    "procs s' = B(cur := (B cur)\<lparr>p_state := ZOMBIE\<rparr>)"
proof -
  have ni: "initproc s \<noteq> Some cur" using e by (auto simp: exit_def)
  obtain s1 s2 ip u where s1: "fold_r (exit_file cur) [0..<NOFILE] s = Ok s1" and "on_fs (iput ip) (begin_fs s1) = Ok s2"
      and u: "u = upd_proc cur (\<lambda>q. q\<lparr>p_cwd := None\<rparr>) (end_fs s2)"
      and s': "s' = upd_proc cur (\<lambda>q. q\<lparr>p_state := ZOMBIE\<rparr>)
        (fold (reparent cur) [0..<NPROC] (wakeup1 (parent_chan (p_parent (procs u cur))) u))"
    using e ni by (auto simp: exit_def sched_Ok Let_def split: option.splits)
  then have "same_table s1 (end_fs s2)"
    by (auto dest!: on_fs_table intro: same_table_trans [OF same_table_begin_fs same_table_trans [OF _ same_table_end_fs]])
  then have P: "nextpid u = nextpid s" "initproc u = initproc s" "p \<noteq> cur \<Longrightarrow> procs u p = procs s p"
      "p_parent (procs u cur) = p_parent (procs s cur)" "p_pid (procs u cur) = p_pid (procs s cur)"
      "p_state (procs u cur) = p_state (procs s cur)"
      "p_ofile (procs u cur) = fold (\<lambda>i fs. fs[i := None]) [0..<NOFILE] (p_ofile (procs s cur))" for p
    using exit_files [OF s1] by (simp_all add: u same_table_def)
  have "initproc (wakeup1 (parent_chan (p_parent (procs u cur))) u) \<noteq> Some cur" using ni P by simp
  note r = reparent_all [OF this, of "[0..<NPROC]", unfolded wakeup1_simps set_upt P(1,2,4)]
  show ?thesis
    by (rule that [OF ni _ _ P(3-7) refl refl refl]) (simp_all only: s' upd_proc_simps r P(1,2,4) not_False_eq_True)
qed

text \<open>The same table, as the invariant sees it.\<close>

definition exited :: "nat \<Rightarrow> nat option \<Rightarrow> (nat \<Rightarrow> proc) \<Rightarrow> (nat \<Rightarrow> proc) \<Rightarrow> bool" where
  "exited cur ini P P' \<longleftrightarrow>
     (\<forall>p. p_pid (P' p) = p_pid (P p) \<and>
        p_parent (P' p) = (if p < NPROC \<and> p_parent (P p) = Some cur then ini else p_parent (P p)) \<and>
        (alive (P' p) \<longleftrightarrow> p \<noteq> cur \<and> alive (P p)) \<and>
        (p_state (P' p) = ZOMBIE \<longleftrightarrow> p = cur \<or> p_state (P p) = ZOMBIE) \<and>
        (p_state (P' p) = UNUSED \<longleftrightarrow> p \<noteq> cur \<and> p_state (P p) = UNUSED) \<and>
        p_ofile (P' p) = (if p = cur then fold (\<lambda>i fs. fs[i := None]) [0..<NOFILE] (p_ofile (P cur)) else p_ofile (P p))) \<and>
     (\<forall>q<NPROC. in_wait P' q \<longrightarrow> in_wait P q \<and> p_parent (P cur) \<noteq> Some q \<and> (ini = Some q \<longrightarrow> \<not> has_zombie P cur))"

lemma exit_exited:
  assumes e: "exit cur s = Ok s'"
  shows "exited cur (initproc s) (procs s) (procs s')"
  using e
proof (rule exit_table)
  fix Q W A B
  assume Q: "\<And>p. p \<noteq> cur \<Longrightarrow> Q p = procs s p" "p_parent (Q cur) = p_parent (procs s cur)" "p_pid (Q cur) = p_pid (procs s cur)"
      "p_state (Q cur) = p_state (procs s cur)" "p_ofile (Q cur) = fold (\<lambda>i fs. fs[i := None]) [0..<NOFILE] (p_ofile (procs s cur))"
    and W: "W = woken (parent_chan (p_parent (procs s cur))) Q" and A: "A = adopted cur (initproc s) {0..<NPROC} W"
    and B: "B = (if \<exists>z\<in>{0..<NPROC}. p_parent (W z) = Some cur \<and> p_state (W z) = ZOMBIE then woken (parent_chan (initproc s)) A else A)"
    and P': "procs s' = B(cur := (B cur)\<lparr>p_state := ZOMBIE\<rparr>)"
  have Qs [simp]: "p_parent (Q p) = p_parent (procs s p)" "p_pid (Q p) = p_pid (procs s p)" "p_state (Q p) = p_state (procs s p)"
      "alive (Q p) = alive (procs s p)" for p
    using Q by (cases "p = cur"; simp add: alive_def)+
  have Bs: "p_parent (B p) = (if p < NPROC \<and> p_parent (procs s p) = Some cur then initproc s else p_parent (procs s p))"
      "p_pid (B p) = p_pid (procs s p)" "alive (B p) = alive (procs s p)" "p_ofile (B p) = p_ofile (Q p)"
      "p_state (B p) = ZOMBIE \<longleftrightarrow> p_state (procs s p) = ZOMBIE" "p_state (B p) = UNUSED \<longleftrightarrow> p_state (procs s p) = UNUSED" for p
    by (simp_all add: B A W)
  have z: "(\<exists>z\<in>{0..<NPROC}. p_parent (W z) = Some cur \<and> p_state (W z) = ZOMBIE) \<longleftrightarrow> has_zombie (procs s) cur"
    by (auto simp: W has_zombie_def)
  have "in_wait (procs s) q \<and> p_parent (procs s cur) \<noteq> Some q \<and> (initproc s = Some q \<longrightarrow> \<not> has_zombie (procs s) cur)"
    if "q < NPROC" "in_wait (procs s') q" for q
  proof -
    have q: "q \<noteq> cur" "p_state (B q) = SLEEPING" "p_chan (B q) = ProcChan q" using that by (auto simp: in_wait_def P' split: if_splits)
    have pc: "p_chan (B q) = p_chan (procs s q)" using Q(1) [OF q(1)] by (simp add: B A W)
    have "p_state (W q) = SLEEPING \<and> (has_zombie (procs s) cur \<longrightarrow> parent_chan (initproc s) \<noteq> ProcChan q)"
      using q(2,3) pc Q(1) [OF q(1)] that(1) by (auto simp: B [unfolded z] A W woken_sleeping split: if_splits)
    then show ?thesis
      using q pc Q(1) [OF q(1)] that(1) by (auto simp: in_wait_def W woken_sleeping parent_chan_def)
  qed
  moreover have "alive (procs s' p) \<longleftrightarrow> p \<noteq> cur \<and> alive (procs s p)" for p
    by (cases "p = cur") (simp_all add: P' Bs, simp add: alive_def)
  ultimately show ?thesis using Q by (simp add: exited_def P' Bs)
qed

lemma family_exited:
  assumes "family_ok P ini" "exited cur ini P P'" "alive (P cur)" "ini \<noteq> Some cur"
  shows "family_ok P' ini"
  using assms(1)
proof (rule family_okE)
  fix i
  assume i: "ini = Some i" "i < NPROC" "alive (P i)" "p_parent (P i) = None"
    and some: "\<And>p q. p < NPROC \<Longrightarrow> p_parent (P p) = Some q \<Longrightarrow> q < NPROC \<and> q \<noteq> p \<and> alive (P q) \<and> p_state (P p) \<noteq> UNUSED"
    and none: "\<And>p. p < NPROC \<Longrightarrow> p_parent (P p) = None \<Longrightarrow> p_state (P p) \<noteq> ZOMBIE \<and> (alive (P p) \<longrightarrow> p = i)"
  have "i \<noteq> cur" using i assms(4) by auto
  have [simp]: "p_parent (P' p) = (if p < NPROC \<and> p_parent (P p) = Some cur then ini else p_parent (P p))"
      "alive (P' p) \<longleftrightarrow> p \<noteq> cur \<and> alive (P p)" "p_state (P' p) = ZOMBIE \<longleftrightarrow> p = cur \<or> p_state (P p) = ZOMBIE"
      "p_state (P' p) = UNUSED \<longleftrightarrow> p \<noteq> cur \<and> p_state (P p) = UNUSED" for p
    using assms(2) by (auto simp: exited_def)
  show ?thesis
  proof (rule family_okI [OF i(1,2)])
    show "t < NPROC \<and> t \<noteq> r \<and> alive (P' t) \<and> p_state (P' r) \<noteq> UNUSED" if "r < NPROC" "p_parent (P' r) = Some t" for r t
      using some [OF that(1)] that i \<open>i \<noteq> cur\<close> by (auto split: if_splits)
    show "p_state (P' r) \<noteq> ZOMBIE \<and> (alive (P' r) \<longrightarrow> r = i)" if "r < NPROC" "p_parent (P' r) = None" for r
      using none [OF that(1)] that i \<open>i \<noteq> cur\<close> assms(3) by (auto split: if_splits)
  qed (use i \<open>i \<noteq> cur\<close> in simp_all)
qed

lemma no_lost_exited:
  assumes fam: "family_ok P ini" and "no_lost_child P" and ex: "exited cur ini P P'" and "cur < NPROC"
  shows "no_lost_child P'"
  unfolding no_lost_child_iff
proof (intro allI impI notI)
  fix q
  assume wt: "in_wait P' q" and "has_zombie P' q"
  then obtain z where z: "z < NPROC" "z = cur \<or> p_state (P z) = ZOMBIE"
      "Some q = (if p_parent (P z) = Some cur then ini else p_parent (P z))"
    using ex by (auto simp: has_zombie_def exited_def)
  have "q < NPROC"
    using z(1,3) family_parent [OF fam, of z q] family_init [of P q] fam by (cases "p_parent (P z) = Some cur") auto
  then have q: "in_wait P q" "p_parent (P cur) \<noteq> Some q" "ini = Some q \<Longrightarrow> \<not> has_zombie P cur"
    using ex wt unfolding exited_def by blast+
  have "p_parent (P cur) \<noteq> Some cur" using family_parent [OF fam assms(4)] by blast
  then have "z \<noteq> cur" using z(3) q(2) by auto
  then have "p_state (P z) = ZOMBIE" using z(2) by simp
  then have "has_zombie P q \<or> ini = Some q \<and> has_zombie P cur"
    using z(1,3) unfolding has_zombie_def by (cases "p_parent (P z) = Some cur") auto
  moreover have "\<not> has_zombie P q" using assms(2) q(1) by (simp add: no_lost_child_iff)
  ultimately show False using q(3) by blast
qed

lemma inv_exit:
  assumes inv: "proc_inv s" and cur: "cur < NPROC" "p_state (procs s cur) = RUNNING" and e: "exit cur s = Ok s'"
  shows "proc_inv s'"
proof -
  note inv = proc_invD [OF inv] and ex = exit_exited [OF e]
  obtain n: "nextpid s' = nextpid s" "initproc s' = initproc s" "initproc s \<noteq> Some cur" using e by (rule exit_table)
  have "alive (procs s cur)" using cur(2) by (simp add: alive_def)
  then have "family_ok (procs s') (initproc s)" by (rule family_exited [OF inv(1) ex _ n(3)])
  moreover have "no_lost_child (procs s')" using inv(1,2) ex cur(1) by (rule no_lost_exited)
  moreover have "pids_ok (procs s') (nextpid s)"
  proof -
    have "p_state (procs s' p) = UNUSED \<longleftrightarrow> p_state (procs s p) = UNUSED" "p_pid (procs s' p) = p_pid (procs s p)" for p
      using ex cur(2) by (auto simp: exited_def)
    then show ?thesis using inv(3) by (simp add: pids_ok_def)
  qed
  moreover have "tidy (procs s')"
  proof -
    have "p_ofile (procs s' p) = (if p = cur then replicate NOFILE None else p_ofile (procs s p))" for p
      using inv(4) ex cur(1) clear_all [of "p_ofile (procs s cur)"] by (simp add: tidy_def exited_def)
    moreover have "alive (procs s' p) \<longleftrightarrow> p \<noteq> cur \<and> alive (procs s p)" for p using ex by (simp add: exited_def)
    ultimately show ?thesis using inv(4) by (simp add: tidy_def)
  qed
  ultimately show ?thesis by (simp add: proc_inv_def n)
qed

section \<open>Every reachable state\<close>

lemma as_proc_simps [simp]: "procs (as_proc p s) = procs s" "files (as_proc p s) = files s" "kmm (as_proc p s) = kmm s"
  by (simp_all add: as_proc_def Let_def)

lemma inv_as_proc: "proc_inv s \<Longrightarrow> proc_inv (as_proc p s)"
  by (rule inv_same_table [OF _ same_table_as_proc])

lemma inv_step: "proc_step s s' \<Longrightarrow> proc_inv s \<Longrightarrow> proc_inv s'"
proof (induction rule: proc_step.induct)
  case (step_dispatch p s)
  from step_dispatch(3,2) show ?case by (rule inv_dispatch)
next
  case (step_yield p s s')
  from step_yield(4,2,3) show ?case by (rule inv_yield)
next
  case (step_fork p s r s')
  from inv_as_proc [OF step_fork(4)] step_fork(1) _ step_fork(3) show ?case by (rule inv_fork) (simp add: step_fork(2))
next
  case (step_exit p s s')
  from inv_as_proc [OF step_exit(4)] step_exit(1) _ step_exit(3) show ?case by (rule inv_exit) (simp add: step_exit(2))
next
  case (step_wait p s v s')
  from step_wait(4,2,3) show ?case by (rule inv_wait)
next
  case (step_sleep p s a s')
  from step_sleep(4,2) _ step_sleep(3) show ?case by (rule inv_sleep) simp
next
  case (step_wakeup s a)
  then show ?case unfolding wakeup_def by (rule inv_woken)
next
  case (step_kill s pid)
  then show ?case by (rule inv_kill)
next
  case (step_grow p s n r s')
  from step_grow(4,3) show ?case by (rule inv_growproc)
qed

lemma inv_steps: "proc_step\<^sup>*\<^sup>* s s' \<Longrightarrow> proc_inv s \<Longrightarrow> proc_inv s'"
  by (induction rule: rtranclp_induct) (auto intro: inv_step)

text \<open>The table as the loader leaves it, and after userinit().\<close>

definition booted :: "('d, 'z) sys_scheme \<Rightarrow> bool" where
  "booted s \<longleftrightarrow>
     nextpid s = 1 \<and>
     (\<forall>p<NPROC. p_state (procs s p) = UNUSED \<and> p_parent (procs s p) = None \<and> p_ofile (procs s p) = replicate NOFILE None)"

lemma inv_userinit:
  assumes "booted s" "userinit initcode s = Ok s'"
  shows "proc_inv s'"
proof -
  obtain a s1 where al: "allocproc s = Ok (a, s1)" using assms(2) by (auto simp: userinit_def)
  then obtain p where [simp]: "a = Some p" using assms(2) by (cases a) (auto simp: userinit_def)
  note p = allocproc_Some [OF al [simplified]]
  obtain q where q: "procs s' = (procs s)(p := q)" "p_state q = RUNNABLE" "p_pid q = 1" "p_parent q = None"
      "p_ofile q = replicate NOFILE None" "nextpid s' = 2" "initproc s' = Some p"
  proof (rule that [of "procs s' p"])
  qed (use assms p in \<open>auto simp: userinit_def al Let_def booted_def\<close>)
  have dead: "p_state (procs s r) = UNUSED \<and> p_parent (procs s r) = None \<and> p_ofile (procs s r) = replicate NOFILE None" if "r < NPROC" for r
    using assms(1) that by (simp add: booted_def)
  have "family_ok (procs s') (initproc s')"
    by (rule family_okI [of _ p]) (use p(1) q dead in \<open>auto simp: alive_def split: if_splits\<close>)
  moreover have "no_lost_child (procs s')" using q dead by (auto simp: no_lost_child_def)
  moreover have "pids_ok (procs s') (nextpid s')" using q dead by (auto simp: pids_ok_def inj_on_def split: if_splits)
  moreover have "tidy (procs s')" using q dead by (auto simp: tidy_def)
  ultimately show ?thesis by (simp add: proc_inv_def)
qed


text \<open>The first process with a child that has exited, and a table that is otherwise free.\<close>

definition free_proc :: proc where
  "free_proc = \<lparr>p_sz = 0, p_pgdir = 0, p_kstack = 0, p_state = UNUSED, p_pid = 0, p_parent = None, p_tf = 0, p_context = 0,
     p_chan = NoChan, p_killed = False, p_ofile = replicate NOFILE None, p_cwd = None, p_name = replicate 16 0\<rparr>"

definition demo_sys :: "unit sys" where
  "demo_sys = \<lparr>kfs = demo_fs,
     files = (\<lambda>_. \<lparr>f_type = FD_NONE, f_ref = 0, f_readable = False, f_writable = False, f_pipe = 0, f_ip = 0, f_off = 0, f_payload = 0\<rparr>),
     pipes = (\<lambda>_. new_pipe []), kmm = demo_kmem\<lparr>freelist := KERNBASE + 0x200000\<rparr>, kdev = (), kkilled = False,
     procs = (\<lambda>_. free_proc)(0 := free_proc\<lparr>p_state := RUNNING, p_pid := 1\<rparr>,
       1 := free_proc\<lparr>p_state := ZOMBIE, p_pid := 2, p_parent := Some 0\<rparr>),
     nextpid = 3, initproc = Some 0, forkret_at = 0, trapret_at = 0\<rparr>"

lemma demo_sys_inv: "proc_inv demo_sys"
proof -
  have "family_ok (procs demo_sys) (initproc demo_sys)"
    by (simp add: family_ok_def demo_sys_def free_proc_def alive_def NPROC_def)
  moreover have "no_lost_child (procs demo_sys)"
    by (simp add: no_lost_child_def demo_sys_def free_proc_def)
  moreover have "pids_ok (procs demo_sys) (nextpid demo_sys)"
    by (auto simp: pids_ok_def demo_sys_def free_proc_def inj_on_def split: if_splits)
  moreover have "tidy (procs demo_sys)"
    by (simp add: tidy_def demo_sys_def free_proc_def alive_def)
  ultimately show ?thesis by (simp add: proc_inv_def)
qed


section \<open>A process killed before it exists\<close>

text \<open>C38: kill(0) succeeds on a free entry of the table: it marks the entry killed, and the process that gets the entry next
  starts out killed.\<close>

theorem kill_zero_marks_free_entry:
  assumes "find (\<lambda>p. p_state (procs s p) = UNUSED) [0..<NPROC] = Some p"
    and "find (\<lambda>p. p_pid (procs s p) = 0) [0..<NPROC] = Some p"
    and "kalloc (kmm s) = Ok km"
  shows "fst (kill 0 s) = 0 \<and> (\<exists>s'. allocproc (snd (kill 0 s)) = Ok (Some p, s') \<and> p_killed (procs s' p))"
proof -
  have "p_state (procs s p) = UNUSED" using assms(1) by (rule find_table)
  then have "(\<lambda>r. p_state (((procs s)(p := (procs s p)\<lparr>p_killed := True, p_state := UNUSED\<rparr>)) r) = UNUSED) = (\<lambda>r. p_state (procs s r) = UNUSED)"
    by (auto simp: fun_eq_iff)
  then show ?thesis
    using assms \<open>p_state (procs s p) = UNUSED\<close>
    by (cases km) (auto simp: kill_def allocproc_def Let_def)
qed

theorem kill_zero_marks_free_entry_witness:
  "\<exists>s'. fst (kill 0 demo_sys) = 0 \<and> allocproc (snd (kill 0 demo_sys)) = Ok (Some 2, s') \<and> p_killed (procs s' 2)"
proof -
  have "find (\<lambda>p. p_state (procs demo_sys p) = UNUSED) [0..<NPROC] = Some 2"
      "find (\<lambda>p. p_pid (procs demo_sys p) = 0) [0..<NPROC] = Some 2"
    by (auto simp: find_Some_iff demo_sys_def free_proc_def NPROC_def less_2_cases_iff intro!: exI [of _ 2])
  moreover have "\<exists>km. kalloc (kmm demo_sys) = Ok km"
    by (simp add: kalloc_def demo_sys_def KERNBASE_def Let_def)
  ultimately show ?thesis using kill_zero_marks_free_entry [of demo_sys 2] by blast
qed

end
