(* ===== verification/VmMap.thy ===== *)
theory VmMap
  imports Vm
begin

text \<open>
  Lemmas on the page tables of theory \<open>Vm\<close>.  The tables of an address space
  form a tree whose nodes are named by paths of indices; the tree is seen from
  outside as one function from virtual addresses to entries (\<open>pte\<close>), and the
  operations are shown to act on that function only.
\<close>

section \<open>Entries that point to tables\<close>

lemma aligned_bits: "unat v mod 4096 = 0 \<longleftrightarrow> take_bit 12 v = (0 :: u64)"
proof -
  have "take_bit 12 v = 0 \<longleftrightarrow> unat (take_bit 12 v) = 0" by (simp add: unat_eq_0)
  also have "unat (take_bit 12 v) = unat v mod 4096" by (simp add: take_bit_eq_mod unat_mod_distrib)
  finally show ?thesis by simp
qed

lemma V2P_aligned:
  assumes "take_bit 12 v = 0"
  shows "take_bit 12 (V2P v) = 0"
proof -
  have "V2P v = push_bit 12 (drop_bit 12 v) - push_bit 12 0xFFFF800000000"
    using bits_ident [of 12 v] assms by (simp add: V2P_def KERNBASE_def push_bit_eq_mult)
  also have "\<dots> = push_bit 12 (drop_bit 12 v - 0xFFFF800000000)"
    by (simp add: push_bit_eq_mult left_diff_distrib)
  finally show ?thesis by (simp add: take_bit_push_bit)
qed

lemma low_mask: "(0xFFF :: u64) = mask 12"
  by (simp add: mask_eq_exp_minus_1)

lemma PTE_ADDR_or:
  assumes "take_bit 12 (a :: u64) = 0" "drop_bit 12 f = 0"
  shows "PTE_ADDR (or a f) = a"
proof (rule bit_word_eqI)
  fix n
  assume n: "n < LENGTH(64)"
  have "bit a n \<Longrightarrow> 12 \<le> n"
    using arg_cong [OF assms(1), of "\<lambda>w. bit w n"] by (auto simp: bit_take_bit_iff)
  moreover have "12 \<le> n \<Longrightarrow> \<not> bit f n"
    using arg_cong [OF assms(2), of "\<lambda>w. bit w (n - 12)"] by (simp add: bit_drop_bit_eq)
  ultimately show "bit (PTE_ADDR (or a f)) n = bit a n"
    using n by (auto simp: PTE_ADDR_def low_mask bit_and_iff bit_or_iff bit_not_iff bit_mask_iff)
qed

lemma present_bit: "present e \<longleftrightarrow> bit e 0"
  by (simp add: present_def PTE_P_def and_one_eq bit_0 odd_iff_mod_2_eq_one)

lemma present_or: "present (or a PTE_P)"
  by (simp add: present_bit bit_or_iff PTE_P_def)

lemma present_or_more: "present a \<Longrightarrow> present (or a b)"
  by (simp add: present_bit bit_or_iff)

abbreviation table_entry :: "u64 \<Rightarrow> u64" where
  "table_entry g \<equiv> or (or (or (V2P g) PTE_P) PTE_W) PTE_U"

lemma table_entry_ok:
  assumes "g mod PGSIZE = 0"
  shows "present (table_entry g)" "P2V (PTE_ADDR (table_entry g)) = g"
proof -
  show "present (table_entry g)" by (intro present_or_more present_or)
  have "take_bit 12 (V2P g) = 0" using assms by (intro V2P_aligned) (simp add: page_aligned aligned_bits)
  then have "PTE_ADDR (or (V2P g) 7) = V2P g" by (rule PTE_ADDR_or) simp
  moreover have "table_entry g = or (V2P g) 7"
    unfolding PTE_P_def PTE_W_def PTE_U_def or.assoc by simp
  ultimately show "P2V (PTE_ADDR (table_entry g)) = g" by (simp add: V2P_def P2V_def)
qed

section \<open>The tree of tables\<close>

fun node :: "kmem \<Rightarrow> u64 \<Rightarrow> nat list \<Rightarrow> u64 option" where
  "node s root [] = Some root"
| "node s root (i # is) =
     (if present (ld64 s root i) then node s (P2V (PTE_ADDR (ld64 s root i))) is else None)"

text \<open>Paths of user memory: the upper half of the root table is the kernel's.\<close>

definition upath :: "nat list \<Rightarrow> bool" where
  "upath p \<longleftrightarrow> length p \<le> 3 \<and> (\<forall>i\<in>set p. i < 512) \<and> (p \<noteq> [] \<longrightarrow> hd p < 256)"

definition tabs :: "kmem \<Rightarrow> u64 \<Rightarrow> u64 set" where
  "tabs s root = {a. \<exists>p. upath p \<and> node s root p = Some a}"

definition pt_ok :: "kmem \<Rightarrow> u64 \<Rightarrow> u64 list \<Rightarrow> bool" where
  "pt_ok s root vs \<longleftrightarrow> free_pages s vs \<and>
     (\<forall>p q a. upath p \<longrightarrow> upath q \<longrightarrow> node s root p = Some a \<longrightarrow> node s root q = Some a \<longrightarrow> p = q) \<and>
     tabs s root \<inter> set vs = {}"

definition va_path :: "u64 \<Rightarrow> nat list" where
  "va_path va = [PMX va, PDPX va, PDX va]"

text \<open>The entry of a virtual address; 0 where a table is missing.\<close>

definition pte :: "kmem \<Rightarrow> u64 \<Rightarrow> u64 \<Rightarrow> u64" where
  "pte s root va = (case node s root (va_path va) of None \<Rightarrow> 0 | Some t \<Rightarrow> ld64 s t (PTX va))"

lemma node_append: "node s root (p @ q) = (case node s root p of None \<Rightarrow> None | Some a \<Rightarrow> node s a q)"
  by (induction p arbitrary: root) auto

lemma node_frame:
  assumes "\<And>p j r a. q = p @ j # r \<Longrightarrow> node s root p = Some a \<Longrightarrow> ld64 s' a j = ld64 s a j"
  shows "node s' root q = node s root q"
  using assms
proof (induction q arbitrary: root)
  case (Cons j r)
  have e: "ld64 s' root j = ld64 s root j" using Cons.prems [of "[]" j r root] by simp
  have "node s' (P2V (PTE_ADDR (ld64 s root j))) r = node s (P2V (PTE_ADDR (ld64 s root j))) r"
    if "present (ld64 s root j)"
  proof (rule Cons.IH)
    fix p k r' a
    assume "r = p @ k # r'" "node s (P2V (PTE_ADDR (ld64 s root j))) p = Some a"
    then show "ld64 s' a k = ld64 s a k" using Cons.prems [of "j # p" k r' a] that by simp
  qed
  then show ?case by (simp add: e)
qed simp

lemma upath_prefix: "upath (p @ q) \<Longrightarrow> upath p"
  by (cases p) (auto simp: upath_def)

lemma node_in_tabs: "upath p \<Longrightarrow> node s root p = Some a \<Longrightarrow> a \<in> tabs s root"
  by (auto simp: tabs_def)

lemma pt_ok_inj: "pt_ok s root vs \<Longrightarrow> upath p \<Longrightarrow> upath q \<Longrightarrow> node s root p = Some a \<Longrightarrow> node s root q = Some a \<Longrightarrow> p = q"
  by (auto simp: pt_ok_def)

lemma link_ld:
  assumes "mem_ok s" "i < 512" "tab \<noteq> g" "s' = st64 tab i w (set_page g 0 s)" "j < 512"
  shows "ld64 s' a j = (if a = tab \<and> j = i then w else if a = g then 0 else ld64 s a j)"
  using ld64_st64 [OF mem_ok_set_page [OF assms(1)] assms(2,5)] assms(3,5)
  by (auto simp: assms(4) ld64_def set_page_def slot_def dec64_def dec32_def)

text \<open>
  Linking a zeroed page \<open>g\<close> into an empty entry \<open>i\<close> of the table at path \<open>p\<close>:
  the tree grows by that node and nothing else of it changes.
\<close>

lemma link_table:
  assumes ok: "pt_ok s root vs" and p: "upath (p @ [i])" "node s root p = Some tab"
    and np: "\<not> present (ld64 s tab i)" and g: "g \<notin> tabs s root" "g mod PGSIZE = 0"
    and s': "s' = st64 tab i (table_entry g) (set_page g 0 s)" and q: "upath q"
  shows "node s' root q = (if q = p @ [i] then Some g else node s root q)"
proof -
  have m: "mem_ok s" using ok by (auto simp: pt_ok_def free_pages_def)
  have i: "i < 512" and up: "upath p" using p(1) upath_prefix by (auto simp: upath_def)
  have tab: "tab \<in> tabs s root" "tab \<noteq> g" using node_in_tabs [OF up p(2)] g(1) by auto
  note ld = link_ld [OF m i tab(2) s']
  have same: "node s' root r = node s root r" if r: "upath r" "\<not> (\<exists>t. r = p @ i # t)" for r
  proof (rule node_frame)
    fix p' j t a
    assume r': "r = p' @ j # t" "node s root p' = Some a"
    then have u: "upath p'" "j < 512" using r(1) upath_prefix by (auto simp: upath_def)
    have "a \<noteq> g" using node_in_tabs [OF u(1) r'(2)] g(1) by auto
    have n: "\<not> (a = tab \<and> j = i)"
    proof
      assume "a = tab \<and> j = i"
      then have "p' = p" using pt_ok_inj [OF ok u(1) up] r'(2) p(2) by simp
      then show False using r(2) r'(1) \<open>a = tab \<and> j = i\<close> by blast
    qed
    show "ld64 s' a j = ld64 s a j" unfolding ld [OF u(2)] if_not_P [OF n] using \<open>a \<noteq> g\<close> by simp
  qed
  show ?thesis
  proof (cases "\<exists>t. q = p @ i # t")
    case False
    then show ?thesis using same [OF q] by auto
  next
    case True
    then obtain t where t: "q = p @ i # t" by blast
    have "node s' root p = Some tab" using same [OF up] p(2) by auto
    moreover have "node s' tab (i # t) = node s' g t" using ld [OF i] table_entry_ok [OF g(2)] by simp
    moreover have "node s' g t = (if t = [] then Some g else None)"
    proof (cases t)
      case (Cons j r)
      then have "j < 512" using q t by (auto simp: upath_def)
      then show ?thesis using Cons ld [of j g] tab(2) by (simp add: present_def)
    qed simp
    ultimately show ?thesis using t p(2) np by (simp add: node_append)
  qed
qed

text \<open>
  \<open>grows s root vs s' vs'\<close>: the address space at \<open>root\<close> has taken pages of the
  free list for tables; its entries and every page that is neither a table of it nor free
  are as before.
\<close>

definition grows :: "kmem \<Rightarrow> u64 \<Rightarrow> u64 list \<Rightarrow> kmem \<Rightarrow> u64 list \<Rightarrow> bool" where
  "grows s root vs s' vs' \<longleftrightarrow> pt_ok s' root vs' \<and> (\<exists>ws. vs = ws @ vs') \<and>
     (\<forall>va. PMX va < 256 \<longrightarrow> pte s' root va = pte s root va) \<and>
     (\<forall>v. v \<notin> tabs s root \<union> set vs \<longrightarrow> pages s' v = pages s v) \<and> page_ok s' = page_ok s \<and>
     tabs s root \<subseteq> tabs s' root \<and> tabs s' root \<subseteq> tabs s root \<union> (set vs - set vs')"

lemma grows_refl: "pt_ok s root vs \<Longrightarrow> grows s root vs s vs"
  by (simp add: grows_def)

lemma grows_trans:
  assumes "grows s root vs s1 vs1" "grows s1 root vs1 s2 vs2"
  shows "grows s root vs s2 vs2"
proof -
  note 1 = assms(1) [unfolded grows_def] and 2 = assms(2) [unfolded grows_def]
  obtain ws ws1 where v: "vs = ws @ vs1" "vs1 = ws1 @ vs2" using 1 2 by blast
  have "pages s2 v = pages s v" if "v \<notin> tabs s root \<union> set vs" for v
  proof -
    have "v \<notin> tabs s1 root \<union> set vs1" using 1 that v(1) by auto
    then show ?thesis using 1 2 that by simp
  qed
  moreover have "tabs s2 root \<subseteq> tabs s root \<union> (set vs - set vs2)"
  proof
    fix a assume "a \<in> tabs s2 root"
    moreover have "distinct vs" if "free_pages s vs" using that by (simp add: free_pages_def)
    moreover have "tabs s1 root \<inter> set vs1 = {}" "tabs s2 root \<inter> set vs2 = {}" using 1 2 by (auto simp: pt_ok_def)
    ultimately show "a \<in> tabs s root \<union> (set vs - set vs2)" using 1 2 v by auto
  qed
  moreover have "vs = (ws @ ws1) @ vs2" using v by simp
  ultimately show ?thesis unfolding grows_def using 1 2 by (auto simp del: append_assoc)
qed

lemma index_bounds [simp]: "PDPX va < 512" "PDX va < 512" "PTX va < 512" "PMX va < 512"
proof -
  have "unat (and w 0x1FF :: u64) < 512" for w :: u64
  proof -
    have "(0x1FF :: u64) = mask 9" by (simp add: mask_eq_exp_minus_1)
    then have "and w 0x1FF = take_bit 9 w" by (simp add: take_bit_eq_mask)
    then show ?thesis by (simp add: unsigned_take_bit_eq take_bit_nat_def)
  qed
  then show "PDPX va < 512" "PDX va < 512" "PTX va < 512" "PMX va < 512"
    by (simp_all add: PDPX_def PDX_def PTX_def PMX_def)
qed

lemma va_path_upath: "PMX va < 256 \<Longrightarrow> upath (va_path va)"
  by (simp add: upath_def va_path_def)

lemma free_pages_frame:
  assumes "free_pages s vs" "mem_ok s'" "\<forall>v\<in>set vs. pages s' v = pages s v" "freelist s' = freelist s" "page_ok s' = page_ok s"
  shows "free_pages s' vs"
  using assms linked_frame [OF assms(3)] by (simp add: free_pages_def)

lemma walk_level_alloc:
  assumes ok: "pt_ok s root (g # vs)" and p: "upath (p @ [i])" "node s root p = Some tab"
  obtains child s' vs' where "walk_level True tab i s = Ok (Some child, s')" "grows s root (g # vs) s' vs'"
    "node s' root (p @ [i]) = Some child" "vs' = vs \<or> vs' = g # vs"
proof (cases "present (ld64 s tab i)")
  case True
  then show ?thesis
    using that [of "P2V (PTE_ADDR (ld64 s tab i))" s "g # vs"] grows_refl [OF ok] p(2)
    by (simp add: walk_level_def node_append)
next
  case False
  have fr: "free_pages s (g # vs)" and tb: "tabs s root \<inter> set (g # vs) = {}" using ok by (auto simp: pt_ok_def)
  obtain s0 where 0: "kalloc s = Ok (g, s0)" "free_pages s0 vs" "pages s0 = pages s" "page_ok s0 = page_ok s"
    using kalloc_ok [OF fr] by blast
  have g: "g \<notin> tabs s root" "g mod PGSIZE = 0" "g \<notin> set vs" using tb fr by (auto simp: free_pages_def page_ok_def)
  have i: "i < 512" and up: "upath p" using p(1) upath_prefix by (auto simp: upath_def)
  have m: "mem_ok s0" using 0(2) by (simp add: free_pages_def)
  have tabin: "tab \<in> tabs s root" "tab \<noteq> g" using node_in_tabs [OF up p(2)] g(1) by auto
  have ld0: "ld64 s0 = ld64 s" by (simp add: ld64_def 0(3) fun_eq_iff)
  have "node s0 r q = node s r q" for r q by (rule node_frame) (simp add: ld0)
  then have n0: "node s0 = node s" by (simp add: fun_eq_iff)
  have t0: "tabs s0 root = tabs s root" by (simp add: tabs_def n0)
  have ok0: "pt_ok s0 root vs" using ok 0(2) tb by (auto simp: pt_ok_def n0 t0)
  define s' where "s' = st64 tab i (table_entry g) (set_page g 0 s0)"
  have node': "node s' root q = (if q = p @ [i] then Some g else node s root q)" if "upath q" for q
    using link_table [OF ok0 p(1) _ _ _ g(2) s'_def that] p(2) False g(1) by (simp add: n0 ld0 t0)
  note ld = link_ld [OF m i tabin(2) s'_def, unfolded ld0]
  have tabs': "tabs s' root = insert g (tabs s root)"
  proof -
    have none: "node s root (p @ [i]) = None" using p(2) False by (simp add: node_append)
    have "a \<in> tabs s' root" if a: "a \<in> tabs s root" for a
    proof -
      obtain q where q: "upath q" "node s root q = Some a" using a by (auto simp: tabs_def)
      then have "node s' root q = Some a" using none by (simp add: node' [OF q(1)]) auto
      then show ?thesis by (rule node_in_tabs [OF q(1)])
    qed
    moreover have "g \<in> tabs s' root" using node_in_tabs [OF p(1)] node' [OF p(1)] by simp
    ultimately show ?thesis by (auto simp: tabs_def node' split: if_splits)
  qed
  have pg: "pages s' v = pages s v" if "v \<noteq> g" "v \<noteq> tab" for v
    using that by (simp add: s'_def st64_def set_page_def 0(3))
  have pk: "page_ok s' = page_ok s" using 0(4) by (auto simp: s'_def page_ok_def st64_def set_page_def fun_eq_iff)
  have "\<forall>v\<in>set vs. pages s' v = pages s0 v"
  proof
    fix v assume v: "v \<in> set vs"
    then have "v \<noteq> g" "v \<noteq> tab" using g(3) tabin(1) tb by auto
    then show "pages s' v = pages s0 v" using pg 0(3) by simp
  qed
  moreover have "mem_ok s'" "freelist s' = freelist s0"
    using m by (simp_all add: s'_def mem_ok_st64 mem_ok_set_page i) (simp add: st64_def set_page_def)
  ultimately have "free_pages s' vs" using free_pages_frame [OF 0(2)] 0(4) pk by simp
  have notg: "node s root r \<noteq> Some g" if "upath r" for r using node_in_tabs [OF that] g(1) by blast
  have "r = q" if rq: "upath r" "upath q" "node s' root r = Some a" "node s' root q = Some a" for r q a
  proof (cases "r = p @ [i] \<or> q = p @ [i]")
    case True
    then have "a = g" using rq(3,4) node' [OF p(1)] by auto
    then show ?thesis using rq(3,4) notg [OF rq(1)] notg [OF rq(2)]
      unfolding node' [OF rq(1)] node' [OF rq(2)] by (auto split: if_splits)
  next
    case False
    then show ?thesis using pt_ok_inj [OF ok rq(1,2)] rq(3,4) unfolding node' [OF rq(1)] node' [OF rq(2)] by simp
  qed
  moreover have "tabs s' root \<inter> set vs = {}" unfolding tabs' using tb g(3) by auto
  ultimately have "pt_ok s' root vs" using \<open>free_pages s' vs\<close> unfolding pt_ok_def by blast
  moreover have "pte s' root va = pte s root va" if va: "PMX va < 256" for va
  proof (cases "va_path va = p @ [i]")
    case True
    have "node s root (p @ [i]) = None" using p(2) False by (simp add: node_append)
    then show ?thesis using node' [OF p(1)] ld [of "PTX va" g] tabin(2) by (simp add: pte_def True)
  next
    case F: False
    have e: "node s' root (va_path va) = node s root (va_path va)" using node' [OF va_path_upath [OF va]] F by simp
    have "ld64 s' t (PTX va) = ld64 s t (PTX va)" if t: "node s root (va_path va) = Some t" for t
    proof -
      have "t \<noteq> g" using node_in_tabs [OF va_path_upath [OF va] t] g(1) by auto
      moreover have "t \<noteq> tab"
      proof
        assume "t = tab"
        then have "p = va_path va" using pt_ok_inj [OF ok up va_path_upath [OF va] p(2)] t by simp
        then show False using p(1) by (simp add: upath_def va_path_def)
      qed
      ultimately show ?thesis using ld [of "PTX va" t] by simp
    qed
    then show ?thesis by (simp add: pte_def e split: option.split)
  qed
  moreover have "\<forall>v. v \<notin> tabs s root \<union> set (g # vs) \<longrightarrow> pages s' v = pages s v" using pg tabin(1) by auto
  moreover have "tabs s' root \<subseteq> tabs s root \<union> (set (g # vs) - set vs)" unfolding tabs' using g(3) by auto
  moreover have "g # vs = [g] @ vs" by simp
  ultimately have "grows s root (g # vs) s' vs" unfolding grows_def using pk tabs' by blast
  then show ?thesis
    using that [of g s' vs] 0(1) False node' [OF p(1)] by (simp add: walk_level_def s'_def)
qed

text \<open>\<open>walkpgdir\<close> with \<open>alloc\<close> reaches the entry's table, with at most three new tables.\<close>

lemma walkpgdir_alloc:
  assumes ok: "pt_ok s root vs" and va: "PMX va < 256" and n: "3 \<le> length vs"
  obtains t s' vs' where "walkpgdir root va True s = Ok (Some (t, PTX va), s')" "grows s root vs s' vs'"
    "node s' root (va_path va) = Some t" "length vs \<le> length vs' + 3"
proof -
  have up: "upath [PMX va]" "upath [PMX va, PDPX va]" "upath [PMX va, PDPX va, PDX va]"
    using va by (auto simp: upath_def)
  obtain g1 ws1 where v1: "vs = g1 # ws1" using n by (cases vs) auto
  obtain a s1 vs1 where 1: "walk_level True root (PMX va) s = Ok (Some a, s1)" "grows s root vs s1 vs1"
    "node s1 root [PMX va] = Some a" "vs1 = ws1 \<or> vs1 = g1 # ws1"
    using walk_level_alloc [OF ok [unfolded v1], of "[]" "PMX va" root] up(1) v1 by auto
  have ok1: "pt_ok s1 root vs1" using 1(2) by (simp add: grows_def)
  obtain g2 ws2 where v2: "vs1 = g2 # ws2" using n 1(4) v1 by (cases vs1) auto
  obtain b s2 vs2 where 2: "walk_level True a (PDPX va) s1 = Ok (Some b, s2)" "grows s1 root vs1 s2 vs2"
    "node s2 root [PMX va, PDPX va] = Some b" "vs2 = ws2 \<or> vs2 = g2 # ws2"
    using walk_level_alloc [OF ok1 [unfolded v2], of "[PMX va]" "PDPX va" a] up(2) 1(3) v2 by auto
  have ok2: "pt_ok s2 root vs2" using 2(2) by (simp add: grows_def)
  obtain g3 ws3 where v3: "vs2 = g3 # ws3" using n 1(4) 2(4) v1 v2 by (cases vs2) auto
  obtain c s3 vs3 where 3: "walk_level True b (PDX va) s2 = Ok (Some c, s3)" "grows s2 root vs2 s3 vs3"
    "node s3 root [PMX va, PDPX va, PDX va] = Some c" "vs3 = ws3 \<or> vs3 = g3 # ws3"
    using walk_level_alloc [OF ok2 [unfolded v3], of "[PMX va, PDPX va]" "PDX va" b] up(3) 2(3) v3 by auto
  show ?thesis
  proof (rule that)
    show "walkpgdir root va True s = Ok (Some (c, PTX va), s3)" using 1(1) 2(1) 3(1) by (simp add: walkpgdir_def)
    show "grows s root vs s3 vs3" using grows_trans [OF grows_trans [OF 1(2) 2(2)] 3(2)] .
    show "node s3 root (va_path va) = Some c" using 3(3) by (simp add: va_path_def)
    show "length vs \<le> length vs3 + 3" using 1(4) 2(4) 3(4) v1 v2 v3 by auto
  qed
qed

text \<open>Without \<open>alloc\<close> it finds the table or reports that there is none.\<close>

lemma walkpgdir_find:
  "walkpgdir root va False s = Ok (map_option (\<lambda>t. (t, PTX va)) (node s root (va_path va)), s)"
  by (simp add: walkpgdir_def walk_level_def va_path_def)

text \<open>Storing an entry of a last-level table changes that entry of the address space only.\<close>

lemma store_entry:
  assumes ok: "pt_ok s root vs" and va: "PMX va < 256" and t: "node s root (va_path va) = Some t"
    and s': "s' = st64 t (PTX va) e s"
  shows "pt_ok s' root vs" "tabs s' root = tabs s root"
    "PMX w < 256 \<Longrightarrow> pte s' root w = (if va_path w = va_path va \<and> PTX w = PTX va then e else pte s root w)"
    "v \<noteq> t \<Longrightarrow> pages s' v = pages s v" "page_ok s' = page_ok s"
proof -
  have m: "mem_ok s" using ok by (simp add: pt_ok_def free_pages_def)
  have ti: "t \<in> tabs s root" using node_in_tabs [OF va_path_upath [OF va] t] .
  note ld = ld64_st64 [OF m, of "PTX va" _ t e, folded s']
  have node': "node s' root q = node s root q" if q: "upath q" for q
  proof (rule node_frame)
    fix p j r a
    assume a: "q = p @ j # r" "node s root p = Some a"
    then have u: "upath p" "j < 512" "length p < 3" using q upath_prefix by (auto simp: upath_def)
    have "a \<noteq> t"
    proof
      assume "a = t"
      then have "p = va_path va" using pt_ok_inj [OF ok u(1) va_path_upath [OF va] a(2)] t by simp
      then show False using u(3) by (simp add: va_path_def)
    qed
    then show "ld64 s' a j = ld64 s a j" using ld u(2) by simp
  qed
  then show tb: "tabs s' root = tabs s root" by (auto simp: tabs_def)
  show pk: "page_ok s' = page_ok s" by (auto simp: s' page_ok_def st64_def fun_eq_iff)
  show pg: "v \<noteq> t \<Longrightarrow> pages s' v = pages s v" for v by (simp add: s' st64_def)
  have fr: "free_pages s vs" and d: "tabs s root \<inter> set vs = {}" using ok by (simp_all add: pt_ok_def)
  have "t \<notin> set vs" using ti d by auto
  then have "\<forall>v\<in>set vs. pages s' v = pages s v" by (intro ballI pg) auto
  moreover have "mem_ok s'" by (simp add: s' mem_ok_st64 [OF m])
  moreover have "freelist s' = freelist s" by (simp add: s' st64_def)
  ultimately have "free_pages s' vs" using free_pages_frame [OF fr] pk by blast
  moreover have "p = q" if "upath p" "upath q" "node s' root p = Some a" "node s' root q = Some a" for p q a
    using pt_ok_inj [OF ok that(1,2)] that(3,4) unfolding node' [OF that(1)] node' [OF that(2)] .
  ultimately show "pt_ok s' root vs" using d unfolding pt_ok_def tb by blast
  show "pte s' root w = (if va_path w = va_path va \<and> PTX w = PTX va then e else pte s root w)" if w: "PMX w < 256"
  proof (cases "node s root (va_path w)")
    case None
    then show ?thesis using node' [OF va_path_upath [OF w]] t by (auto simp: pte_def)
  next
    case (Some a)
    have "a = t \<longleftrightarrow> va_path w = va_path va"
      using pt_ok_inj [OF ok va_path_upath [OF w] va_path_upath [OF va] Some] Some t by auto
    then show ?thesis using node' [OF va_path_upath [OF w]] Some ld [of "PTX w" a] by (simp add: pte_def)
  qed
qed

section \<open>User addresses\<close>

lemma index_nat: "unat (and (drop_bit k va) 0x1FF :: u64) = unat va div 2 ^ k mod 512"
proof -
  have "(0x1FF :: u64) = mask 9" by (simp add: mask_eq_exp_minus_1)
  then have "and (drop_bit k va) 0x1FF = take_bit 9 (drop_bit k va)" by (simp add: take_bit_eq_mask)
  then show ?thesis
    by (simp add: unsigned_take_bit_eq unat_drop_bit_eq) (simp add: take_bit_eq_mod drop_bit_eq_div)
qed

text \<open>The page addresses of the lower half.\<close>

definition upage_addr :: "u64 \<Rightarrow> bool" where
  "upage_addr va \<longleftrightarrow> unat va < 2 ^ 47 \<and> unat va mod 4096 = 0"

lemma PMX_user: "unat va < 2 ^ 47 \<Longrightarrow> PMX va < 256"
  unfolding PMX_def index_nat by (rule le_less_trans [OF mod_less_eq_dividend]) (simp add: div_less_iff_less_mult)

lemma digits:
  assumes "(y :: nat) < 2 ^ 35"
  shows "y = ((y div 2 ^ 27 mod 512 * 512 + y div 2 ^ 18 mod 512) * 512 + y div 2 ^ 9 mod 512) * 512 + y mod 512"
proof -
  have a: "y div 2 ^ 18 div 512 = y div 2 ^ 27" "y div 2 ^ 9 div 512 = y div 2 ^ 18" "y div 512 = y div 2 ^ 9"
    by (simp_all flip: div_mult2_eq)
  have "y div 2 ^ 27 < 512" using assms by (simp add: div_less_iff_less_mult)
  then have b: "y div 2 ^ 27 mod 512 = y div 2 ^ 27" by simp
  show ?thesis
    using div_mult_mod_eq [of "y div 2 ^ 18" 512] div_mult_mod_eq [of "y div 2 ^ 9" 512] div_mult_mod_eq [of y 512]
    unfolding a b by simp
qed

lemma same_entry:
  assumes "upage_addr va" "upage_addr w"
  shows "va_path w = va_path va \<and> PTX w = PTX va \<longleftrightarrow> w = va"
proof
  assume e: "va_path w = va_path va \<and> PTX w = PTX va"
  have d: "unat x div 4096 div 2 ^ 27 = unat x div 2 ^ 39" "unat x div 4096 div 2 ^ 18 = unat x div 2 ^ 30"
    "unat x div 4096 div 2 ^ 9 = unat x div 2 ^ 21" for x :: u64
    by (simp_all flip: div_mult2_eq)
  have b: "unat x div 4096 < 2 ^ 35" if "upage_addr x" for x
    using that by (simp add: upage_addr_def div_less_iff_less_mult)
  have p: "unat w div 2 ^ 39 mod 512 = unat va div 2 ^ 39 mod 512" "unat w div 2 ^ 30 mod 512 = unat va div 2 ^ 30 mod 512"
    "unat w div 2 ^ 21 mod 512 = unat va div 2 ^ 21 mod 512" "unat w div 2 ^ 12 mod 512 = unat va div 2 ^ 12 mod 512"
    using e unfolding va_path_def PMX_def PDPX_def PDX_def PTX_def index_nat by simp_all
  have "unat w div 4096 = unat va div 4096"
    using digits [OF b [OF assms(1)]] digits [OF b [OF assms(2)]] p unfolding d by simp
  then have "unat w = unat va" using assms div_mult_mod_eq [of "unat w" 4096] div_mult_mod_eq [of "unat va" 4096]
    by (simp add: upage_addr_def)
  then show "w = va" by (simp add: word_unat_eq_iff)
qed simp

lemma PGROUND_page:
  assumes "unat va mod 4096 = 0"
  shows "PGROUNDDOWN va = va" "PGROUNDDOWN (va + PGSIZE - 1) = va"
proof -
  have m: "unat va div 4096 * 4096 = unat va" using assms by (metis add.right_neutral div_mult_mod_eq)
  show "PGROUNDDOWN va = va" by (simp add: word_unat_eq_iff unat_PGROUNDDOWN m)
  have "unat va < 2 ^ 64" using unsigned_less [of va, where ?'a = nat] by simp
  then have "unat va div 4096 < 4503599627370496" by (simp add: div_less_iff_less_mult)
  then have "unat va div 4096 \<le> 4503599627370495" by simp
  then have "unat va \<le> 2 ^ 64 - 4096" using mult_le_mono1 [of "unat va div 4096" 4503599627370495 4096] m by simp
  then have "unat (va + 4095) = unat va + 4095" by (simp add: unat_word_ariths)
  moreover have "va + PGSIZE - 1 = va + 4095" by (simp add: PGSIZE_def)
  moreover obtain q where "unat va = q * 4096" using m by metis
  then have "(unat va + 4095) div 4096 * 4096 = unat va" by simp
  ultimately show "PGROUNDDOWN (va + PGSIZE - 1) = va" by (simp add: word_unat_eq_iff unat_PGROUNDDOWN)
qed

section \<open>mappages\<close>

lemma pte_found:
  "node s root (va_path va) = Some t \<Longrightarrow> pte s root va = ld64 s t (PTX va)"
  by (simp add: pte_def)

lemma mappages_page:
  assumes ok: "pt_ok s root vs" and va: "upage_addr va" and n: "3 \<le> length vs" and np: "\<not> present (pte s root va)"
  obtains s' vs' where "mappages root va PGSIZE pa perm s = Ok (0, s')" "pt_ok s' root vs'" "\<exists>ws. vs = ws @ vs'"
    "length vs \<le> length vs' + 3" "\<forall>w. upage_addr w \<longrightarrow> pte s' root w = (if w = va then or (or pa perm) PTE_P else pte s root w)"
    "\<forall>v. v \<notin> tabs s root \<union> set vs \<longrightarrow> pages s' v = pages s v" "page_ok s' = page_ok s"
    "tabs s root \<subseteq> tabs s' root" "tabs s' root \<subseteq> tabs s root \<union> (set vs - set vs')"
proof -
  have u: "PMX va < 256" using va PMX_user by (simp add: upage_addr_def)
  obtain t s1 vs' where 1: "walkpgdir root va True s = Ok (Some (t, PTX va), s1)" "grows s root vs s1 vs'"
    "node s1 root (va_path va) = Some t" "length vs \<le> length vs' + 3"
    by (rule walkpgdir_alloc [OF ok u n])
  note g = 1(2) [unfolded grows_def]
  have ok1: "pt_ok s1 root vs'" using g by simp
  define s' where "s' = st64 t (PTX va) (or (or pa perm) PTE_P) s1"
  note st = store_entry [OF ok1 u 1(3) s'_def]
  have "ld64 s1 t (PTX va) = pte s root va" using pte_found [OF 1(3)] g u by simp
  then have "mappages root va PGSIZE pa perm s = Ok (0, s')"
    using np 1(1) va by (simp add: mappages_def PGROUND_page upage_addr_def s'_def)
  moreover have "pte s' root w = (if w = va then or (or pa perm) PTE_P else pte s root w)" if w: "upage_addr w" for w
  proof -
    have "PMX w < 256" using w PMX_user by (simp add: upage_addr_def)
    then show ?thesis using st(3) [of w] same_entry [OF va w] g by simp
  qed
  moreover have "pages s' v = pages s v" if v: "v \<notin> tabs s root \<union> set vs" for v
  proof -
    have "t \<in> tabs s1 root" using node_in_tabs [OF va_path_upath [OF u] 1(3)] .
    then have "v \<noteq> t" using g v by auto
    then show ?thesis using st(4) g v by simp
  qed
  ultimately show ?thesis using that [of s' vs'] st(1,2,5) 1(4) g by simp
qed

end
