(* ===== verification/VmSpace.thy ===== *)
theory VmSpace
  imports VmMap
begin

text \<open>
  Address spaces as their users see them: a partial function from page
  addresses to the content of the page (\<open>upage\<close>).  allocuvm(), deallocuvm(),
  inituvm(), copyuvm() and copyout() are shown to implement the obvious operations on that
  function, and to leave other address spaces alone.
\<close>

section \<open>Specification\<close>

definition frame_at :: "kmem \<Rightarrow> u64 \<Rightarrow> u64 \<Rightarrow> u64" where
  "frame_at s root va = P2V (PTE_ADDR (pte s root va))"

definition mapped :: "kmem \<Rightarrow> u64 \<Rightarrow> u64 \<Rightarrow> bool" where
  "mapped s root va \<longleftrightarrow> upage_addr va \<and> present (pte s root va)"

definition upage :: "kmem \<Rightarrow> u64 \<Rightarrow> u64 \<Rightarrow> u8 list option" where
  "upage s root va = (if mapped s root va then Some (pages s (frame_at s root va)) else None)"

text \<open>The pages of an address space: its tables and the pages mapped for the user.\<close>

definition foot :: "kmem \<Rightarrow> u64 \<Rightarrow> u64 set" where
  "foot s root = tabs s root \<union> frame_at s root ` {va. mapped s root va}"

text \<open>
  A well-formed address space: the tables are a tree, and every user page is a
  page of its own, neither a table nor free.
\<close>

definition space :: "kmem \<Rightarrow> u64 \<Rightarrow> u64 list \<Rightarrow> bool" where
  "space s root vs \<longleftrightarrow> pt_ok s root vs \<and>
     (\<forall>va. mapped s root va \<longrightarrow> frame_at s root va \<notin> tabs s root \<union> set vs \<and> page_ok s (frame_at s root va)) \<and>
     inj_on (frame_at s root) {va. mapped s root va}"

section \<open>Framing\<close>

lemma tabs_frame:
  assumes "\<forall>v\<in>tabs s root. pages s' v = pages s v"
  shows "upath q \<Longrightarrow> node s' root q = node s root q" "tabs s' root = tabs s root"
    "upage_addr va \<Longrightarrow> pte s' root va = pte s root va"
proof -
  have n: "node s' root q = node s root q" if "upath q" for q
  proof (rule node_frame)
    fix p j r a
    assume "q = p @ j # r" "node s root p = Some a"
    then have "a \<in> tabs s root" using that upath_prefix node_in_tabs by blast
    then show "ld64 s' a j = ld64 s a j" using assms by (simp add: ld64_def)
  qed
  then show "upath q \<Longrightarrow> node s' root q = node s root q" .
  show "tabs s' root = tabs s root" using n by (auto simp: tabs_def)
  assume "upage_addr va"
  then have u: "upath (va_path va)" using va_path_upath PMX_user by (simp add: upage_addr_def)
  then have "ld64 s' t (PTX va) = ld64 s t (PTX va)" if "node s root (va_path va) = Some t" for t
    using assms node_in_tabs [OF u that] by (simp add: ld64_def)
  then show "pte s' root va = pte s root va" using n [OF u] by (simp add: pte_def split: option.split)
qed

lemma pt_ok_frame:
  assumes ok: "pt_ok s root vs" and a: "\<forall>v\<in>tabs s root. pages s' v = pages s v"
    and f: "free_pages s' vs'" "set vs' \<subseteq> set vs"
  shows "pt_ok s' root vs'"
proof -
  note fr = tabs_frame [OF a]
  have "p = q" if "upath p" "upath q" "node s' root p = Some x" "node s' root q = Some x" for p q x
    using pt_ok_inj [OF ok that(1,2)] that(3,4) by (simp add: fr(1) that(1,2))
  moreover have "tabs s' root \<inter> set vs' = {}" using ok f(2) unfolding fr(2) pt_ok_def by blast
  ultimately show ?thesis using f(1) unfolding pt_ok_def by blast
qed

text \<open>An address space whose pages are not touched stays what it is.\<close>

lemma space_frame:
  assumes sp: "space s root vs" and a: "\<forall>v\<in>foot s root. pages s' v = pages s v"
    and f: "free_pages s' vs'" "set vs' \<subseteq> set vs" and pk: "page_ok s' = page_ok s"
  shows "space s' root vs'" "upage s' root = upage s root" "foot s' root = foot s root"
proof -
  have t: "\<forall>v\<in>tabs s root. pages s' v = pages s v" using a by (simp add: foot_def)
  note fr = tabs_frame [OF t]
  have m: "mapped s' root = mapped s root" by (auto simp: mapped_def fr(3) fun_eq_iff)
  have fa: "frame_at s' root va = frame_at s root va" if "mapped s root va" for va
    using that fr(3) by (simp add: frame_at_def mapped_def)
  show "foot s' root = foot s root" using fr(2) m fa by (auto simp: foot_def)
  show "upage s' root = upage s root"
    using a fa by (auto simp: upage_def m fun_eq_iff foot_def)
  have "pt_ok s' root vs'" using pt_ok_frame [OF _ t f] sp by (simp add: space_def)
  moreover have "inj_on (frame_at s' root) {va. mapped s' root va}"
    using sp fa by (auto simp: space_def m inj_on_def)
  moreover have "\<forall>va. mapped s' root va \<longrightarrow> frame_at s' root va \<notin> tabs s' root \<union> set vs' \<and> page_ok s' (frame_at s' root va)"
    using sp f(2) fa by (auto simp: space_def m fr(2) pk)
  ultimately show "space s' root vs'" by (simp add: space_def)
qed

section \<open>Mapping a new page\<close>

lemma PTE_ADDR_page:
  assumes "g mod PGSIZE = 0" "drop_bit 12 perm = 0"
  shows "P2V (PTE_ADDR (or (or (V2P g) perm) PTE_P)) = g"
proof -
  have "take_bit 12 (V2P g) = 0" using assms(1) by (intro V2P_aligned) (simp add: page_aligned aligned_bits)
  moreover have "drop_bit 12 (or perm PTE_P) = 0" using assms(2) by (simp add: PTE_P_def)
  ultimately have "PTE_ADDR (or (V2P g) (or perm PTE_P)) = V2P g" by (rule PTE_ADDR_or)
  then show ?thesis by (simp add: or.assoc V2P_def P2V_def)
qed

text \<open>
  kalloc(), filling the page with \<open>c\<close> and mappages(): what allocuvm(),
  inituvm() and copyuvm() do for each page.
\<close>

lemma map_fresh:
  assumes sp: "space s root (g # vs)" and va: "upage_addr va" "\<not> mapped s root va" and n: "3 \<le> length vs"
    and c: "length c = 4096" and perm: "drop_bit 12 perm = 0"
  obtains s1 s' vs' where "kalloc s = Ok (g, s1)" "pages s1 = pages s"
    "mappages root va PGSIZE (V2P g) perm (s1\<lparr>pages := (pages s1)(g := c)\<rparr>) = Ok (0, s')"
    "space s' root vs'" "upage s' root = (upage s root)(va := Some c)"
    "\<exists>ws. vs = ws @ vs'" "length vs \<le> length vs' + 3"
    "\<forall>v. v \<notin> tabs s root \<union> set (g # vs) \<longrightarrow> pages s' v = pages s v" "page_ok s' = page_ok s"
    "pte s' root va = or (or (V2P g) perm) PTE_P" "foot s' root \<subseteq> foot s root \<union> (set (g # vs) - set vs')"
proof -
  note sp' = sp [unfolded space_def pt_ok_def]
  have fr: "free_pages s (g # vs)" and tb: "tabs s root \<inter> set (g # vs) = {}" using sp' by auto
  obtain s1 where 1: "kalloc s = Ok (g, s1)" "free_pages s1 vs" "pages s1 = pages s" "page_ok s1 = page_ok s"
    using kalloc_ok [OF fr] by blast
  have g: "g \<notin> tabs s root" "g mod PGSIZE = 0" "g \<notin> set vs" "page_ok s g" using tb fr by (auto simp: free_pages_def page_ok_def)
  define s2 where "s2 = s1\<lparr>pages := (pages s1)(g := c)\<rparr>"
  have p2: "pages s2 v = (if v = g then c else pages s v)" for v by (simp add: s2_def 1(3))
  have pk2: "page_ok s2 = page_ok s" using 1(4) by (simp add: s2_def page_ok_def fun_eq_iff)
  have "\<forall>v\<in>set vs. pages s2 v = pages s1 v" using g(3) by (auto simp: p2 1(3))
  moreover have "mem_ok s2" using 1(2) c by (auto simp: free_pages_def mem_ok_def s2_def)
  ultimately have fr2: "free_pages s2 vs" using free_pages_frame [OF 1(2)] 1(4) pk2 by (simp add: s2_def)
  have t2: "\<forall>v\<in>tabs s root. pages s2 v = pages s v" using g(1) by (auto simp: p2)
  note f2 = tabs_frame [OF t2]
  have ok2: "pt_ok s2 root vs" using pt_ok_frame [OF _ t2 fr2, of "g # vs"] sp by (simp add: space_def subset_insertI)
  have "\<not> present (pte s2 root va)" using va f2(3) by (simp add: mapped_def)
  then obtain s' vs' where 3: "mappages root va PGSIZE (V2P g) perm s2 = Ok (0, s')" "pt_ok s' root vs'" "\<exists>ws. vs = ws @ vs'"
    "length vs \<le> length vs' + 3"
    "\<forall>w. upage_addr w \<longrightarrow> pte s' root w = (if w = va then or (or (V2P g) perm) PTE_P else pte s2 root w)"
    "\<forall>v. v \<notin> tabs s2 root \<union> set vs \<longrightarrow> pages s' v = pages s2 v" "page_ok s' = page_ok s2"
    "tabs s2 root \<subseteq> tabs s' root" "tabs s' root \<subseteq> tabs s2 root \<union> (set vs - set vs')"
    by (rule mappages_page [OF ok2 va(1) n])
  have pte': "pte s' root w = (if w = va then or (or (V2P g) perm) PTE_P else pte s root w)" if "upage_addr w" for w
    using 3(5) f2(3) that by simp
  have m': "mapped s' root w \<longleftrightarrow> w = va \<or> mapped s root w" for w
    using va(1) pte' present_or by (auto simp: mapped_def)
  have fa: "frame_at s' root w = (if w = va then g else frame_at s root w)" if "upage_addr w" for w
    using pte' [OF that] PTE_ADDR_page [OF g(2) perm] by (simp add: frame_at_def)
  have old: "frame_at s root w \<notin> tabs s root \<union> set (g # vs)" "page_ok s (frame_at s root w)" if "mapped s root w" for w
    using sp that by (auto simp: space_def)
  have pg: "\<forall>v. v \<notin> tabs s root \<union> set (g # vs) \<longrightarrow> pages s' v = pages s v"
    using 3(6) by (simp add: f2(2) p2)
  have pgg: "pages s' g = c" using 3(6) g(1,3) by (simp add: f2(2) p2)
  have up: "upage s' root = (upage s root)(va := Some c)"
  proof
    fix w
    show "upage s' root w = ((upage s root)(va := Some c)) w"
    proof (cases "w = va")
      case True
      then show ?thesis using fa [OF va(1)] m' pgg by (simp add: upage_def)
    next
      case False
      have "pages s' (frame_at s' root w) = pages s (frame_at s root w)" if "mapped s root w"
        using fa [of w] that False pg old [OF that] by (simp add: mapped_def)
      then show ?thesis using False m' by (simp add: upage_def)
    qed
  qed
  have vs': "set vs' \<subseteq> set vs" using 3(3) by auto
  have tb': "tabs s' root \<subseteq> tabs s root \<union> (set vs - set vs')" using 3(9) by (simp add: f2(2))
  have new: "frame_at s' root w \<notin> tabs s' root \<union> set vs' \<and> page_ok s' (frame_at s' root w)" if w: "mapped s' root w" for w
  proof (cases "w = va")
    case True
    then show ?thesis using fa [OF va(1)] g tb' vs' 3(7) pk2 by auto
  next
    case False
    then have m: "mapped s root w" "upage_addr w" using w m' by (auto simp: mapped_def)
    then show ?thesis using fa [OF m(2)] False old [OF m(1)] tb' vs' 3(7) pk2 by auto
  qed
  have "inj_on (frame_at s' root) {w. mapped s' root w}"
  proof (rule inj_onI, unfold mem_Collect_eq)
    fix x y
    assume xy: "mapped s' root x" "mapped s' root y" "frame_at s' root x = frame_at s' root y"
    have notg: "frame_at s' root w \<noteq> g" if "w \<noteq> va" "mapped s' root w" for w
      using that fa [of w] old(1) [of w] m' by (auto simp: mapped_def)
    show "x = y"
    proof (cases "x = va \<or> y = va")
      case True
      then show ?thesis using xy notg fa [OF va(1)] by metis
    next
      case False
      then have "mapped s root x" "mapped s root y" "frame_at s root x = frame_at s root y"
        using xy fa m' by (auto simp: mapped_def)
      then show ?thesis using sp by (auto simp: space_def inj_on_def)
    qed
  qed
  then have sp3: "space s' root vs'" using 3(2) new by (simp add: space_def)
  have ft: "foot s' root \<subseteq> foot s root \<union> (set (g # vs) - set vs')"
  proof
    fix a assume "a \<in> foot s' root"
    then consider "a \<in> tabs s' root" | w where "mapped s' root w" "a = frame_at s' root w" by (auto simp: foot_def)
    then show "a \<in> foot s root \<union> (set (g # vs) - set vs')"
    proof cases
      case 1
      then show ?thesis using tb' by (auto simp: foot_def)
    next
      case 2
      then show ?thesis using fa [of w] m' [of w] g(3) vs' by (auto simp: foot_def mapped_def)
    qed
  qed
  show ?thesis
    by (rule that [OF 1(1,3) 3(1) [unfolded s2_def] sp3 up 3(3,4) pg _ _ ft]) (simp_all add: 3(7) pk2 pte' [OF va(1)])
qed

section \<open>Growing\<close>

text \<open>
  \<open>becomes s root vs s' vs' u\<close>: the address space has become \<open>u\<close>, at the
  cost of pages of the free list, and no page outside it and the free list has changed.
\<close>

definition becomes :: "kmem \<Rightarrow> u64 \<Rightarrow> u64 list \<Rightarrow> kmem \<Rightarrow> u64 list \<Rightarrow> (u64 \<Rightarrow> u8 list option) \<Rightarrow> bool" where
  "becomes s root vs s' vs' u \<longleftrightarrow> space s' root vs' \<and> upage s' root = u \<and> (\<exists>ws. vs = ws @ vs') \<and>
     (\<forall>v. v \<notin> foot s root \<union> set vs \<longrightarrow> pages s' v = pages s v) \<and> page_ok s' = page_ok s \<and>
     foot s' root \<subseteq> foot s root \<union> (set vs - set vs')"

lemma becomes_refl: "space s root vs \<Longrightarrow> becomes s root vs s vs (upage s root)"
  by (simp add: becomes_def)

lemma becomes_trans:
  assumes "becomes s root vs s1 vs1 u" "becomes s1 root vs1 s2 vs2 w"
  shows "becomes s root vs s2 vs2 w"
proof -
  note 1 = assms(1) [unfolded becomes_def] and 2 = assms(2) [unfolded becomes_def]
  obtain ws ws1 where v: "vs = ws @ vs1" "vs1 = ws1 @ vs2" using 1 2 by blast
  have "pages s2 v = pages s v" if "v \<notin> foot s root \<union> set vs" for v
  proof -
    have "v \<notin> foot s1 root \<union> set vs1" using 1 that v(1) by auto
    then show ?thesis using 1 2 that by simp
  qed
  moreover have "foot s1 root \<inter> set vs1 = {}" using 1 by (auto simp: space_def pt_ok_def foot_def)
  then have "foot s2 root \<subseteq> foot s root \<union> (set vs - set vs2)" using 1 2 v by auto
  moreover have "vs = (ws @ ws1) @ vs2" using v by simp
  then have "\<exists>ws. vs = ws @ vs2" by blast
  moreover have "page_ok s2 = page_ok s" "space s2 root vs2" "upage s2 root = w" using 1 2 by simp_all
  ultimately show ?thesis unfolding becomes_def by blast
qed

lemma map_fresh_becomes:
  assumes sp: "space s root (g # vs)" and va: "upage_addr va" "upage s root va = None" and n: "3 \<le> length vs"
    and c: "length c = 4096" and perm: "drop_bit 12 perm = 0"
  obtains s1 s' vs' where "kalloc s = Ok (g, s1)" "pages s1 = pages s"
    "mappages root va PGSIZE (V2P g) perm (s1\<lparr>pages := (pages s1)(g := c)\<rparr>) = Ok (0, s')"
    "becomes s root (g # vs) s' vs' ((upage s root)(va := Some c))" "length vs \<le> length vs' + 3"
    "pte s' root va = or (or (V2P g) perm) PTE_P"
proof -
  have nm: "\<not> mapped s root va" using va(2) by (auto simp: upage_def split: if_splits)
  obtain s1 s' vs' where 1: "kalloc s = Ok (g, s1)" "pages s1 = pages s"
    "mappages root va PGSIZE (V2P g) perm (s1\<lparr>pages := (pages s1)(g := c)\<rparr>) = Ok (0, s')"
    "space s' root vs'" "upage s' root = (upage s root)(va := Some c)"
    "\<exists>ws. vs = ws @ vs'" "length vs \<le> length vs' + 3"
    "\<forall>v. v \<notin> tabs s root \<union> set (g # vs) \<longrightarrow> pages s' v = pages s v" "page_ok s' = page_ok s"
    "pte s' root va = or (or (V2P g) perm) PTE_P" "foot s' root \<subseteq> foot s root \<union> (set (g # vs) - set vs')"
    by (rule map_fresh [OF sp va(1) nm n c perm])
  have "\<exists>ws. g # vs = ws @ vs'" using 1(6) by (metis append_Cons)
  then have "becomes s root (g # vs) s' vs' ((upage s root)(va := Some c))"
    using 1(4,5,8,9,11) by (auto simp: becomes_def foot_def)
  then show ?thesis using that 1(1-3,7,10) by blast
qed

definition zero_page :: "u8 list" where
  "zero_page = replicate 4096 0"

lemma perm_WU: "drop_bit 12 (or PTE_W PTE_U) = 0"
  by (simp add: PTE_W_def PTE_U_def)

lemma allocuvm_loop_ok:
  assumes "space s root vs" "distinct as" "\<forall>a\<in>set as. upage_addr a \<and> upage s root a = None" "4 * length as \<le> length vs"
  shows "\<exists>s' vs'. allocuvm_loop as root oldsz newsz s = Ok (newsz, s') \<and> length vs \<le> length vs' + 4 * length as \<and>
    becomes s root vs s' vs' (\<lambda>va. if va \<in> set as then Some zero_page else upage s root va)"
  using assms
proof (induction as arbitrary: s vs)
  case Nil
  then show ?case using becomes_refl [of s root vs] by (auto intro!: exI [of _ vs])
next
  case (Cons a as)
  obtain g ws where v: "vs = g # ws" using Cons.prems(4) by (cases vs) auto
  have w: "3 \<le> length ws" using Cons.prems(4) v by simp
  have a: "upage_addr a" "upage s root a = None" using Cons.prems(3) by auto
  have z: "length zero_page = 4096" by (simp add: zero_page_def)
  obtain s1 s2 vs2 where 1: "kalloc s = Ok (g, s1)" "pages s1 = pages s"
    "mappages root a PGSIZE (V2P g) (or PTE_W PTE_U) (s1\<lparr>pages := (pages s1)(g := zero_page)\<rparr>) = Ok (0, s2)"
    "becomes s root (g # ws) s2 vs2 ((upage s root)(a := Some zero_page))" "length ws \<le> length vs2 + 3"
    "pte s2 root a = or (or (V2P g) (or PTE_W PTE_U)) PTE_P"
    by (rule map_fresh_becomes [OF Cons.prems(1) [unfolded v] a w z perm_WU])
  note b = 1(4) [unfolded becomes_def]
  have "space s2 root vs2" using b by blast
  moreover have "distinct as" using Cons.prems(2) by simp
  moreover have "\<forall>x\<in>set as. upage_addr x \<and> upage s2 root x = None" using Cons.prems(2,3) b by auto
  moreover have "4 * length as \<le> length vs2" using Cons.prems(4) v 1(5) by simp
  ultimately obtain s' vs' where 2: "allocuvm_loop as root oldsz newsz s2 = Ok (newsz, s')"
    "length vs2 \<le> length vs' + 4 * length as"
    "becomes s2 root vs2 s' vs' (\<lambda>va. if va \<in> set as then Some zero_page else upage s2 root va)"
    using Cons.IH by blast
  have e: "(\<lambda>va. if va \<in> set as then Some zero_page else upage s2 root va) =
      (\<lambda>va. if va \<in> set (a # as) then Some zero_page else upage s root va)"
    using b by (auto simp: fun_eq_iff)
  have sp: "set_page g 0 s1 = s1\<lparr>pages := (pages s1)(g := zero_page)\<rparr>" by (simp add: set_page_def zero_page_def)
  have "allocuvm_loop (a # as) root oldsz newsz s = Ok (newsz, s')" using 1(1,3) 2(1) by (simp add: sp)
  moreover have "becomes s root vs s' vs' (\<lambda>va. if va \<in> set (a # as) then Some zero_page else upage s root va)"
    using becomes_trans [OF 1(4) 2(3)] unfolding e v .
  moreover have "length vs \<le> length vs' + 4 * length (a # as)" using v 1(5) 2(2) by simp
  ultimately show ?case by blast
qed

text \<open>The pages of \<open>[lo, hi)\<close>.\<close>

lemma page_range_unat:
  assumes "unat hi \<le> 2 ^ 47" "k < (unat hi - unat lo + 4095) div 4096"
  shows "unat (lo + word_of_nat k * PGSIZE) = unat lo + k * 4096" "unat lo + k * 4096 < unat hi"
proof -
  have "Suc k * 4096 \<le> (unat hi - unat lo + 4095) div 4096 * 4096" using assms(2) by (intro mult_le_mono1) simp
  also have "\<dots> \<le> unat hi - unat lo + 4095" by (rule div_times_less_eq_dividend)
  finally show l: "unat lo + k * 4096 < unat hi" by simp
  then show "unat (lo + word_of_nat k * PGSIZE) = unat lo + k * 4096" using assms(1) by (intro unat_page) simp
qed

lemma page_range_set:
  assumes lo: "unat lo mod 4096 = 0" and hi: "unat hi \<le> 2 ^ 47"
  shows "va \<in> set (page_range lo hi) \<longleftrightarrow> upage_addr va \<and> lo \<le> va \<and> va < hi"
proof
  assume "va \<in> set (page_range lo hi)"
  then obtain k where "k \<in> {0..<(unat hi - unat lo + 4095) div 4096}" and k2: "va = lo + word_of_nat k * PGSIZE"
    unfolding page_range_def set_map set_upt by (rule imageE)
  then have k: "k < (unat hi - unat lo + 4095) div 4096" by simp
  note u = page_range_unat [OF hi k, folded k2]
  have "unat va mod 4096 = 0" using u(1) lo by (simp add: mod_add_eq [symmetric])
  then show "upage_addr va \<and> lo \<le> va \<and> va < hi"
    using u hi by (simp add: upage_addr_def word_le_nat_alt word_less_nat_alt)
next
  assume v: "upage_addr va \<and> lo \<le> va \<and> va < hi"
  then have le: "unat lo \<le> unat va" "unat va < unat hi" "unat va mod 4096 = 0"
    by (simp_all add: upage_addr_def word_le_nat_alt word_less_nat_alt)
  define k where "k = (unat va - unat lo) div 4096"
  have "(unat va - unat lo) mod 4096 = 0" using le(1,3) lo by (metis mod_eq_dvd_iff_nat dvd_imp_mod_0)
  then have k: "k * 4096 = unat va - unat lo" by (simp add: k_def) (metis add.right_neutral div_mult_mod_eq)
  have kl: "k < (unat hi - unat lo + 4095) div 4096"
  proof -
    have "k * 4096 + 4096 \<le> unat hi - unat lo + 4095" using k le by simp
    then have "Suc k \<le> (unat hi - unat lo + 4095) div 4096" by (simp add: less_eq_div_iff_mult_less_eq)
    then show ?thesis by simp
  qed
  have "unat (lo + word_of_nat k * PGSIZE) = unat va" using page_range_unat(1) [OF hi kl] k le by simp
  then have "va = lo + word_of_nat k * PGSIZE" by (simp add: word_unat_eq_iff)
  then show "va \<in> set (page_range lo hi)" using kl unfolding page_range_def set_map set_upt by auto
qed

lemma page_range_distinct:
  assumes "unat hi \<le> 2 ^ 47"
  shows "distinct (page_range lo hi)"
  unfolding page_range_def distinct_map
proof (intro conjI inj_onI)
  fix i j
  assume ij: "i \<in> set [0..<(unat hi - unat lo + 4095) div 4096]" "j \<in> set [0..<(unat hi - unat lo + 4095) div 4096]"
    "lo + word_of_nat i * PGSIZE = lo + word_of_nat j * PGSIZE"
  have i: "i < (unat hi - unat lo + 4095) div 4096" and j: "j < (unat hi - unat lo + 4095) div 4096"
    using ij(1,2) unfolding set_upt atLeastLessThan_iff by blast+
  have "unat lo + i * 4096 = unat lo + j * 4096"
    using page_range_unat(1) [OF assms i] page_range_unat(1) [OF assms j] unfolding ij(3) by (rule trans [OF sym])
  then show "i = j" by simp
qed (rule distinct_upt)

text \<open>An address space with other pages is not affected.\<close>

lemma becomes_apart:
  assumes b: "becomes s root vs s' vs' u" and sp: "space s r vs" and d: "foot s r \<inter> foot s root = {}"
  shows "space s' r vs'" "upage s' r = upage s r" "foot s' r \<inter> foot s' root = {}" "foot s' r = foot s r"
proof -
  note b' = b [unfolded becomes_def]
  have nf: "foot s r \<inter> set vs = {}" using sp by (auto simp: space_def pt_ok_def foot_def)
  have "\<forall>v\<in>foot s r. pages s' v = pages s v" using b' d nf by blast
  moreover have "free_pages s' vs'" using b' by (simp add: space_def pt_ok_def)
  moreover have "set vs' \<subseteq> set vs" using b' by auto
  moreover have "page_ok s' = page_ok s" using b' by blast
  ultimately have fr: "space s' r vs'" "upage s' r = upage s r" "foot s' r = foot s r"
    using space_frame [OF sp] by blast+
  then show "space s' r vs'" "upage s' r = upage s r" "foot s' r = foot s r" by blast+
  show "foot s' r \<inter> foot s' root = {}" unfolding fr(3) using b' d nf by blast
qed

section \<open>A new address space\<close>

lemma setupkvm_space:
  assumes fr: "free_pages s (g # vs)"
  obtains s' where "setupkvm s = Ok (g, s')" "space s' g vs" "upage s' g = (\<lambda>_. None)" "foot s' g = {g}"
    "\<forall>v. v \<noteq> g \<longrightarrow> pages s' v = pages s v" "page_ok s' = page_ok s"
proof -
  obtain s1 where 1: "kalloc s = Ok (g, s1)" "free_pages s1 vs" "pages s1 = pages s" "page_ok s1 = page_ok s"
    using kalloc_ok [OF fr] by blast
  have g: "g \<notin> set vs" using fr by (simp add: free_pages_def)
  have m: "mem_ok s1" using 1(2) by (simp add: free_pages_def)
  define s' where "s' = st64 g 256 (or (or (V2P (kpdpt s1)) PTE_P) PTE_W) (set_page g 0 s1)"
  have pg: "\<forall>v. v \<noteq> g \<longrightarrow> pages s' v = pages s v" by (simp add: s'_def st64_def set_page_def 1(3))
  have pk: "page_ok s' = page_ok s" using 1(4) by (simp add: s'_def page_ok_def fun_eq_iff st64_def set_page_def)
  have z: "ld64 s' g i = 0" if "i < 256" for i
    using ld64_st64 [OF mem_ok_set_page [OF m], of 256 i g] that
    by (simp add: s'_def) (simp add: ld64_def set_page_def slot_def dec64_def dec32_def)
  have n: "node s' g p = (if p = [] then Some g else None)" if "upath p" for p
    using that z by (cases p) (auto simp: upath_def present_def)
  have "upath []" by (simp add: upath_def)
  then have "g \<in> tabs s' g" using node_in_tabs [of "[]" s' g g] by simp
  then have tb: "tabs s' g = {g}" using n by (auto simp: tabs_def split: if_splits)
  have "pte s' g va = 0" if "upage_addr va" for va
    using n [OF va_path_upath [OF PMX_user]] that by (simp add: pte_def upage_addr_def va_path_def)
  then have um: "\<not> mapped s' g va" for va by (auto simp: mapped_def present_def)
  have "mem_ok s'" by (simp add: s'_def mem_ok_st64 mem_ok_set_page m)
  moreover have "\<forall>v\<in>set vs. pages s' v = pages s1 v"
  proof
    fix v assume "v \<in> set vs"
    then have "v \<noteq> g" using g by blast
    then show "pages s' v = pages s1 v" using pg 1(3) by simp
  qed
  ultimately have "free_pages s' vs"
    using free_pages_frame [OF 1(2)] pk 1(4) by (simp add: s'_def st64_def set_page_def)
  moreover have "p = q" if "upath p" "upath q" "node s' g p = Some a" "node s' g q = Some a" for p q a
    using that(3,4) n [OF that(1)] n [OF that(2)] by (simp split: if_splits)
  ultimately have "pt_ok s' g vs" using g by (simp add: pt_ok_def tb)
  then have "space s' g vs" using um by (simp add: space_def)
  moreover have "setupkvm s = Ok (g, s')" using 1(1) by (simp add: setupkvm_def s'_def set_page_def)
  moreover have "foot s' g = {g}" using tb um by (simp add: foot_def)
  moreover have "upage s' g = (\<lambda>_. None)" using um by (simp add: upage_def fun_eq_iff)
  ultimately show ?thesis using that pg pk by blast
qed

section \<open>Properties\<close>

text \<open>
  C18: allocuvm() grows an address space by zeroed pages.  When the pages from
  \<open>oldsz\<close> to \<open>newsz\<close> are not mapped and memory suffices, it returns \<open>newsz\<close>; the
  address space is then what it was with exactly the pages from
  \<open>PGROUNDUP(oldsz)\<close> up to \<open>newsz\<close> added, each filled with zeros and each a page of
  its own; and every other address space with pages of its own keeps its
  content and its pages.
\<close>

theorem allocuvm_grows:
  assumes sp: "space s root vs" and le: "oldsz \<le> newsz" and hi: "unat newsz \<le> 2 ^ 47"
    and new: "\<forall>va. PGROUNDUP oldsz \<le> va \<longrightarrow> va < newsz \<longrightarrow> upage s root va = None"
    and mem: "4 * length (page_range (PGROUNDUP oldsz) newsz) \<le> length vs"
  shows "\<exists>s' vs'. allocuvm root oldsz newsz s = Ok (newsz, s') \<and> space s' root vs' \<and>
    upage s' root = (\<lambda>va. if upage_addr va \<and> PGROUNDUP oldsz \<le> va \<and> va < newsz then Some zero_page else upage s root va) \<and>
    (\<forall>r. space s r vs \<longrightarrow> foot s r \<inter> foot s root = {} \<longrightarrow>
       space s' r vs' \<and> upage s' r = upage s r \<and> foot s' r \<inter> foot s' root = {})"
proof -
  let ?as = "page_range (PGROUNDUP oldsz) newsz"
  note set = page_range_set [OF PGROUNDUP_aligned hi]
  have "\<forall>a\<in>set ?as. upage_addr a \<and> upage s root a = None" using new set by blast
  then obtain s' vs' where 1: "allocuvm_loop ?as root oldsz newsz s = Ok (newsz, s')"
    "becomes s root vs s' vs' (\<lambda>va. if va \<in> set ?as then Some zero_page else upage s root va)"
    using allocuvm_loop_ok [OF sp page_range_distinct [OF hi] _ mem] by blast
  have "\<not> KERNBASE \<le> newsz" using hi by (simp add: KERNBASE_def word_le_nat_alt)
  moreover have "\<not> newsz < oldsz" using le by (simp add: leD)
  ultimately have "allocuvm root oldsz newsz s = Ok (newsz, s')" using 1(1) by (simp add: allocuvm_def)
  moreover have "space s' root vs'"
    "upage s' root = (\<lambda>va. if upage_addr va \<and> PGROUNDUP oldsz \<le> va \<and> va < newsz then Some zero_page else upage s root va)"
    using 1(2) by (simp_all add: becomes_def set)
  moreover have "space s' r vs' \<and> upage s' r = upage s r \<and> foot s' r \<inter> foot s' root = {}"
    if "space s r vs" "foot s r \<inter> foot s root = {}" for r using becomes_apart(1-3) [OF 1(2) that] by blast
  ultimately show ?thesis by (intro exI [of _ s'] exI [of _ vs']) blast
qed

text \<open>A new address space in a memory of ten free pages.\<close>

lemma demo_space: "\<exists>s root vs. space s root vs \<and> upage s root = (\<lambda>_. None) \<and> length vs = 9"
proof -
  let ?a = "KERNBASE + 0x200000" and ?b = "KERNBASE + 0x20A000"
  let ?ps = "map (\<lambda>k. PGROUNDUP ?a + word_of_nat k * PGSIZE) [0..<(unat ?b - unat (PGROUNDUP ?a)) div 4096]"
  have r: "PGROUNDUP ?a = ?a" by (simp add: PGROUNDUP_def KERNBASE_def PGSIZE_def)
  have f: "free_pages demo_kmem []" by (simp add: free_pages_def mem_ok_def demo_kmem_def)
  obtain s where s: "free_pages s (rev ?ps)"
    using freerange_pages [OF f _ _ _ _ _ refl, of ?a ?b] unfolding r
    by (auto simp: demo_kmem_def KERNBASE_def V2P_def PHYSTOP_def)
  have "length ?ps = 10" unfolding r by (simp add: KERNBASE_def)
  then obtain g vs where v: "rev ?ps = g # vs" "length vs = 9" by (cases "rev ?ps") (auto dest: arg_cong [where f = length])
  obtain s' where "space s' g vs" "upage s' g = (\<lambda>_. None)" by (rule setupkvm_space [OF s [unfolded v(1)]])
  then show ?thesis using v(2) by blast
qed

theorem allocuvm_grows_witness:
  "\<exists>s root s'. upage s root 0x1000 = None \<and> allocuvm root 0 0x1800 s = Ok (0x1800, s') \<and>
     upage s' root 0x1000 = Some zero_page \<and> upage s' root 0x2000 = None"
proof -
  obtain s root vs where sp: "space s root vs" "upage s root = (\<lambda>_. None)" "length vs = 9"
    using demo_space by blast
  have r: "PGROUNDUP 0 = 0" by (simp add: PGROUNDUP_def PGSIZE_def)
  have "length (page_range (PGROUNDUP 0) 0x1800) = 2" by (simp add: r page_range_def)
  then have "4 * length (page_range (PGROUNDUP 0) 0x1800) \<le> length vs" using sp(3) by simp
  then have "\<exists>s' vs'. allocuvm root 0 0x1800 s = Ok (0x1800, s') \<and> space s' root vs' \<and>
    upage s' root = (\<lambda>va. if upage_addr va \<and> PGROUNDUP 0 \<le> va \<and> va < 0x1800 then Some zero_page else upage s root va) \<and>
    (\<forall>r. space s r vs \<longrightarrow> foot s r \<inter> foot s root = {} \<longrightarrow>
       space s' r vs' \<and> upage s' r = upage s r \<and> foot s' r \<inter> foot s' root = {})"
    by (intro allocuvm_grows [OF sp(1)]) (simp_all add: sp(2))
  then obtain s' where 1: "allocuvm root 0 0x1800 s = Ok (0x1800, s')"
    "upage s' root = (\<lambda>va. if upage_addr va \<and> PGROUNDUP 0 \<le> va \<and> va < 0x1800 then Some zero_page else upage s root va)"
    by blast
  then have "upage s' root 0x1000 = Some zero_page" "upage s' root 0x2000 = None"
    by (simp_all add: sp(2) r upage_addr_def)
  then show ?thesis using 1(1) sp(2) by (intro exI [of _ s] exI [of _ root] exI [of _ s']) simp
qed

section \<open>Copying an address space\<close>

lemma PTE_FLAGS_low: "drop_bit 12 (PTE_FLAGS e) = 0"
  by (rule bit_word_eqI) (simp add: PTE_FLAGS_def low_mask bit_drop_bit_eq bit_and_iff bit_mask_iff)

lemma mapped_walk:
  assumes "upage s root va = Some c"
  obtains t where "walkpgdir root va False s = Ok (Some (t, PTX va), s)" "ld64 s t (PTX va) = pte s root va"
    "present (pte s root va)" "pages s (P2V (PTE_ADDR (pte s root va))) = c"
proof -
  have m: "present (pte s root va)" "pages s (frame_at s root va) = c"
    using assms by (auto simp: upage_def mapped_def split: if_splits)
  then obtain t where "node s root (va_path va) = Some t" by (auto simp: pte_def present_def split: option.splits)
  then show ?thesis using that [of t] m pte_found by (simp add: walkpgdir_find frame_at_def)
qed

lemma copyuvm_loop_ok:
  assumes "space s d vs" "space s p vs" "foot s p \<inter> foot s d = {}" "distinct is"
    "\<forall>i\<in>set is. upage_addr i \<and> upage s d i = None \<and> upage s p i \<noteq> None" "4 * length is \<le> length vs"
  shows "\<exists>s' vs'. copyuvm_loop is p d s = Ok (Some d, s') \<and>
    becomes s d vs s' vs' (\<lambda>va. if va \<in> set is then upage s p va else upage s d va)"
  using assms
proof (induction "is" arbitrary: s vs)
  case Nil
  then show ?case using becomes_refl [of s d vs] by (auto intro!: exI [of _ vs])
next
  case (Cons i js)
  obtain g ws where v: "vs = g # ws" using Cons.prems(6) by (cases vs) auto
  have w: "3 \<le> length ws" using Cons.prems(6) v by simp
  have i: "upage_addr i" "upage s d i = None" using Cons.prems(5) by auto
  obtain c where c: "upage s p i = Some c" using Cons.prems(5) by auto
  obtain t where t: "walkpgdir p i False s = Ok (Some (t, PTX i), s)" "ld64 s t (PTX i) = pte s p i"
    "present (pte s p i)" "pages s (P2V (PTE_ADDR (pte s p i))) = c" by (rule mapped_walk [OF c])
  have len: "length (pages s x) = 4096" for x
    using Cons.prems(1) by (simp add: space_def pt_ok_def free_pages_def mem_ok_def)
  have cl: "length c = 4096" using len t(4) by blast
  obtain s1 s2 vs2 where 1: "kalloc s = Ok (g, s1)" "pages s1 = pages s"
    "mappages d i PGSIZE (V2P g) (PTE_FLAGS (pte s p i)) (s1\<lparr>pages := (pages s1)(g := c)\<rparr>) = Ok (0, s2)"
    "becomes s d (g # ws) s2 vs2 ((upage s d)(i := Some c))" "length ws \<le> length vs2 + 3"
    "pte s2 d i = or (or (V2P g) (PTE_FLAGS (pte s p i))) PTE_P"
    by (rule map_fresh_becomes [OF Cons.prems(1) [unfolded v] i w cl PTE_FLAGS_low])
  note b = 1(4) [unfolded becomes_def]
  note ap = becomes_apart [OF 1(4) Cons.prems(2) [unfolded v] Cons.prems(3)]
  have s2: "space s2 d vs2" "upage s2 d = (upage s d)(i := Some c)" using b by blast+
  have "\<forall>j\<in>set js. upage_addr j \<and> upage s2 d j = None \<and> upage s2 p j \<noteq> None"
  proof
    fix j assume "j \<in> set js"
    moreover from this have "j \<noteq> i" using Cons.prems(4) by auto
    ultimately show "upage_addr j \<and> upage s2 d j = None \<and> upage s2 p j \<noteq> None"
      using Cons.prems(5) s2(2) ap(2) by simp
  qed
  then obtain s' vs' where 2: "copyuvm_loop js p d s2 = Ok (Some d, s')"
    "becomes s2 d vs2 s' vs' (\<lambda>va. if va \<in> set js then upage s2 p va else upage s2 d va)"
    using Cons.IH [OF s2(1) ap(1,3)] Cons.prems(4,6) v 1(5) by auto
  have e: "(\<lambda>va. if va \<in> set js then upage s2 p va else upage s2 d va) =
      (\<lambda>va. if va \<in> set (i # js) then upage s p va else upage s d va)"
    using s2(2) ap(2) c by (auto simp: fun_eq_iff)
  have "put_bytes g 0 c s1 = s1\<lparr>pages := (pages s1)(g := c)\<rparr>"
    using len 1(2) cl by (simp add: put_bytes_def splice_def)
  then have "copyuvm_loop (i # js) p d s = Ok (Some d, s')" using t 1(1-3) 2(1) by (simp add: Let_def)
  moreover have "becomes s d vs s' vs' (\<lambda>va. if va \<in> set (i # js) then upage s p va else upage s d va)"
    using becomes_trans [OF 1(4) 2(2)] unfolding e v .
  ultimately show ?case by blast
qed

text \<open>
  C19: copyuvm() makes a copy of an address space that shares nothing with it.
  For a process whose pages from PGSIZE up to its size are mapped, and with
  memory enough, copyuvm() returns a new page directory; the new address space
  has exactly these pages with the same contents, the parent's is unchanged, and the
  two have no page of physical memory in common.
\<close>

theorem copyuvm_copies:
  assumes sp: "space s p vs" and m: "\<forall>va. upage_addr va \<longrightarrow> PGSIZE \<le> va \<longrightarrow> va < ucast sz \<longrightarrow> upage s p va \<noteq> None"
    and mem: "1 + 4 * length (page_range PGSIZE (ucast sz)) \<le> length vs"
  shows "\<exists>d s' vs'. copyuvm p sz s = Ok (Some d, s') \<and> space s' d vs' \<and> space s' p vs' \<and>
    upage s' d = (\<lambda>va. if upage_addr va \<and> PGSIZE \<le> va \<and> va < ucast sz then upage s p va else None) \<and>
    upage s' p = upage s p \<and> foot s' p \<inter> foot s' d = {}"
proof -
  let ?is = "page_range PGSIZE (ucast sz)"
  obtain g ws where v: "vs = g # ws" using mem by (cases vs) auto
  have fr: "free_pages s (g # ws)" using sp v by (simp add: space_def pt_ok_def)
  obtain s1 where 1: "setupkvm s = Ok (g, s1)" "space s1 g ws" "upage s1 g = (\<lambda>_. None)" "foot s1 g = {g}"
    "\<forall>v. v \<noteq> g \<longrightarrow> pages s1 v = pages s v" "page_ok s1 = page_ok s" by (rule setupkvm_space [OF fr])
  have ng: "g \<notin> foot s p" using sp v by (auto simp: space_def pt_ok_def foot_def)
  then have "\<forall>v\<in>foot s p. pages s1 v = pages s v" using 1(5) by auto
  moreover have "free_pages s1 ws" using 1(2) by (simp add: space_def pt_ok_def)
  moreover have "set ws \<subseteq> set vs" using v by auto
  ultimately have sp1: "space s1 p ws" "upage s1 p = upage s p" "foot s1 p = foot s p"
    using space_frame [OF sp] 1(6) by blast+
  have hi: "unat (ucast sz :: u64) \<le> 2 ^ 47"
    using unsigned_less [of sz, where ?'a = nat] by (simp add: unsigned_ucast_eq take_bit_nat_eq_self)
  have al: "unat PGSIZE mod 4096 = 0" by (simp add: PGSIZE_def)
  note set = page_range_set [OF al hi]
  have "\<forall>i\<in>set ?is. upage_addr i \<and> upage s1 g i = None \<and> upage s1 p i \<noteq> None" using m set 1(3) sp1(2) by simp
  moreover have "foot s1 p \<inter> foot s1 g = {}" using ng by (simp add: sp1(3) 1(4))
  moreover have "4 * length ?is \<le> length ws" using mem v by simp
  ultimately obtain s' vs' where 2: "copyuvm_loop ?is p g s1 = Ok (Some g, s')"
    "becomes s1 g ws s' vs' (\<lambda>va. if va \<in> set ?is then upage s1 p va else upage s1 g va)"
    using copyuvm_loop_ok [OF 1(2) sp1(1) _ page_range_distinct [OF hi]] by blast
  have "foot s1 p \<inter> foot s1 g = {}" using ng by (simp add: sp1(3) 1(4))
  note ap = becomes_apart [OF 2(2) sp1(1) this]
  have "copyuvm p sz s = Ok (Some g, s')" using 1(1) 2(1) by (simp add: copyuvm_def)
  moreover have "space s' g vs'"
    "upage s' g = (\<lambda>va. if upage_addr va \<and> PGSIZE \<le> va \<and> va < ucast sz then upage s p va else None)"
    using 2(2) unfolding becomes_def set sp1(2) 1(3) by blast+
  ultimately show ?thesis using ap sp1(2) by (intro exI [of _ g] exI [of _ s'] exI [of _ vs']) simp
qed

theorem copyuvm_copies_witness:
  "\<exists>s p d s'. upage s p 0x1000 = Some zero_page \<and> copyuvm p 0x2000 s = Ok (Some d, s') \<and>
     upage s' d 0x1000 = Some zero_page \<and> upage s' p 0x1000 = Some zero_page \<and> foot s' p \<inter> foot s' d = {}"
proof -
  obtain s0 p vs0 where sp: "space s0 p vs0" "upage s0 p = (\<lambda>_. None)" "length vs0 = 9" using demo_space by blast
  have u: "upage_addr 0x1000" by (simp add: upage_addr_def)
  have "\<exists>s vs. allocuvm_loop [0x1000] p 0 0 s0 = Ok (0, s) \<and> length vs0 \<le> length vs + 4 * length [0x1000 :: u64] \<and>
    becomes s0 p vs0 s vs (\<lambda>va. if va \<in> set [0x1000] then Some zero_page else upage s0 p va)"
    by (rule allocuvm_loop_ok [OF sp(1)]) (simp_all add: sp u)
  then obtain s vs where "length vs0 \<le> length vs + 4 * length [0x1000 :: u64]" and b: "space s p vs"
    "upage s p = (\<lambda>va. if va \<in> set [0x1000] then Some zero_page else upage s0 p va)"
    unfolding becomes_def by blast
  then have s: "length vs0 \<le> length vs + 4" "space s p vs"
    "upage s p = (\<lambda>va. if va = 0x1000 then Some zero_page else None)"
    unfolding sp(2) by simp_all
  have r: "page_range PGSIZE (ucast (0x2000 :: u32)) = [0x1000]" by (simp add: page_range_def PGSIZE_def)
  have "va = 0x1000" if "upage_addr va" "PGSIZE \<le> va" "va < ucast (0x2000 :: u32)" for va
  proof -
    have "va \<in> set (page_range PGSIZE (ucast (0x2000 :: u32)))"
      using that by (subst page_range_set) (simp_all add: PGSIZE_def)
    then show ?thesis unfolding r by simp
  qed
  then have m: "\<forall>va. upage_addr va \<longrightarrow> PGSIZE \<le> va \<longrightarrow> va < ucast (0x2000 :: u32) \<longrightarrow> upage s p va \<noteq> None"
    by (simp add: s(3))
  have "1 + 4 * length (page_range PGSIZE (ucast (0x2000 :: u32))) \<le> length vs" unfolding r using s(1) sp(3) by simp
  from copyuvm_copies [OF s(2) m this] obtain d s' where 1: "copyuvm p 0x2000 s = Ok (Some d, s')"
    "upage s' d = (\<lambda>va. if upage_addr va \<and> PGSIZE \<le> va \<and> va < ucast (0x2000 :: u32) then upage s p va else None)"
    "upage s' p = upage s p" "foot s' p \<inter> foot s' d = {}" by blast
  have "upage s' d 0x1000 = Some zero_page" using u by (simp add: 1(2) s(3)) (simp add: PGSIZE_def)
  then show ?thesis using 1 s(3) by (intro exI [of _ s] exI [of _ p] exI [of _ d] exI [of _ s']) simp
qed

end
