(* ===== verification/Decimal.thy ===== *)
theory Decimal
  imports Prelude
begin

text \<open>
  Decimal numerals as texts: the notation that the drawing assistant writes, that the
  user programs read and that both printf()s print.
\<close>

section \<open>Characters\<close>

definition is_digit :: "char \<Rightarrow> bool" where
  "is_digit c \<longleftrightarrow> 48 \<le> (of_char c :: nat) \<and> (of_char c :: nat) \<le> 57"

definition digit_val :: "char \<Rightarrow> int" where
  "digit_val c = int (of_char c) - 48"

definition digit_char :: "nat \<Rightarrow> char" where
  "digit_char d = char_of (48 + d)"

lemma digit_char_simps [simp]:
  assumes "d < 10"
  shows "is_digit (digit_char d)" "digit_val (digit_char d) = int d"
proof -
  have n: "(of_char (digit_char d) :: nat) = 48 + d" using assms by (simp add: digit_char_def)
  then show "is_digit (digit_char d)" using assms by (simp add: is_digit_def)
  then show "digit_val (digit_char d) = int d" using n by (simp add: digit_val_def)
qed

section \<open>Numerals\<close>

fun nat_str :: "nat \<Rightarrow> string" where
  "nat_str n = (if n < 10 then [digit_char n] else nat_str (n div 10) @ [digit_char (n mod 10)])"

declare nat_str.simps [simp del]

definition int_str :: "int \<Rightarrow> string" where
  "int_str z = (if z < 0 then CHR ''-'' # nat_str (nat (- z)) else nat_str (nat z))"

text \<open>The value of a run of digits, read from the left.\<close>

definition digits_val :: "int \<Rightarrow> string \<Rightarrow> int" where
  "digits_val acc s = foldl (\<lambda>r c. r * 10 + digit_val c) acc s"

lemma digits_val_simps [simp]:
  "digits_val acc [] = acc"
  "digits_val acc (c # s) = digits_val (acc * 10 + digit_val c) s"
  "digits_val acc (s @ t) = digits_val (digits_val acc s) t"
  by (simp_all add: digits_val_def)

lemma nat_str_ok:
  "nat_str n \<noteq> []" "list_all is_digit (nat_str n)" "digits_val 0 (nat_str n) = int n"
proof (induction n rule: nat_str.induct)
  case (1 n)
  { case 1 show ?case by (subst nat_str.simps) simp
  next
    case 2 then show ?case using 1 by (subst nat_str.simps) simp
  next
    case 3
    have "int (n div 10) * 10 + int (n mod 10) = int n" by presburger
    then show ?case using 1 by (subst nat_str.simps) simp
  }
qed

lemma nat_str_cons: obtains d s where "nat_str n = d # s" "is_digit d"
  using nat_str_ok(1,2) [of n] by (cases "nat_str n") auto

lemma not_digit [simp]: "\<not> is_digit CHR '' ''" "\<not> is_digit CHR 0x09" "\<not> is_digit CHR ''-''" "\<not> is_digit CHR 0x0A"
  by (simp_all add: is_digit_def)

end
