(* ===== verification/Ulib.thy ===== *)
theory Ulib
  imports Decimal Kstring
begin

text \<open>
  src/ulib.c, the C library of the user programs.  The routines that only read
  their strings work on the characters up to the terminating zero byte; those that
  write memory work on the byte memory of theory \<open>Kstring\<close>.  Names that src/string.c
  also uses carry the prefix \<open>u_\<close>.
\<close>

section \<open>Model\<close>

text \<open>The character under a string pointer: 0 at the end.\<close>

definition cval :: "string \<Rightarrow> int" where
  "cval s = (case s of [] \<Rightarrow> 0 | c # _ \<Rightarrow> int (of_char c))"

fun strcmp :: "string \<Rightarrow> string \<Rightarrow> int" where
  "strcmp (a # p) (b # q) = (if a = b then strcmp p q else int (of_char a) - int (of_char b))"
| "strcmp p q = cval p - cval q"

fun u_strncmp :: "string \<Rightarrow> string \<Rightarrow> nat \<Rightarrow> int" where
  "u_strncmp p q 0 = 0"
| "u_strncmp (a # p) (b # q) (Suc n) = (if a = b then u_strncmp p q n else int (of_char a) - int (of_char b))"
| "u_strncmp p q (Suc n) = cval p - cval q"

fun u_strlen :: "string \<Rightarrow> nat" where
  "u_strlen [] = 0"
| "u_strlen (c # s) = 1 + u_strlen s"

text \<open>strchr() returns a pointer to the first occurrence: the rest of the string from there.\<close>

fun strchr :: "string \<Rightarrow> char \<Rightarrow> string option" where
  "strchr [] c = None"
| "strchr (a # s) c = (if a = c then Some (a # s) else strchr s c)"

definition wrap32 :: "int \<Rightarrow> int" where
  "wrap32 z = signed_take_bit 31 z"

fun atoi_loop :: "int \<Rightarrow> string \<Rightarrow> int" where
  "atoi_loop n (c # s) = (if is_digit c then atoi_loop (wrap32 (n * 10 + digit_val c)) s else n)"
| "atoi_loop n [] = n"

definition atoi :: "string \<Rightarrow> int" where
  "atoi s = atoi_loop 0 s"

text \<open>gets(): \<open>rd\<close> reads one character from standard input, or reports the end of it.\<close>

fun gets_loop :: "('s \<Rightarrow> char option \<times> 's) \<Rightarrow> nat \<Rightarrow> 's \<Rightarrow> string \<times> 's" where
  "gets_loop rd 0 s = ([], s)"
| "gets_loop rd (Suc n) s =
     (case rd s of
        (None, s) \<Rightarrow> ([], s)
      | (Some c, s) \<Rightarrow>
          if c = CHR 0x0A \<or> c = CHR 0x0D then ([c], s)
          else (let (buf, s) = gets_loop rd n s in (c # buf, s)))"

definition gets :: "('s \<Rightarrow> char option \<times> 's) \<Rightarrow> int \<Rightarrow> 's \<Rightarrow> string \<times> 's" where
  "gets rd n s = gets_loop rd (nat (n - 1)) s"

partial_function (option) strcpy :: "memory \<Rightarrow> u64 \<Rightarrow> u64 \<Rightarrow> memory option" where
  "strcpy m s t = (let m' = m(s := m t) in if m' s = 0 then Some m' else strcpy m' (s + 1) (t + 1))"

definition u_memset :: "memory \<Rightarrow> u64 \<Rightarrow> u8 \<Rightarrow> u32 \<Rightarrow> memory" where
  "u_memset m dst c n = stosb m dst c (unat n)"

definition u_memmove :: "memory \<Rightarrow> u64 \<Rightarrow> u64 \<Rightarrow> int \<Rightarrow> memory" where
  "u_memmove m dst src n = copy_up m dst src (nat n)"

section \<open>Strings\<close>

definition cstring :: "string \<Rightarrow> bool" where
  "cstring s \<longleftrightarrow> CHR 0x00 \<notin> set s"

lemma of_char_0_iff: "(of_char c :: nat) = 0 \<longleftrightarrow> c = CHR 0x00"
proof -
  have "(of_char c :: nat) = of_char (CHR 0x00) \<longleftrightarrow> c = CHR 0x00" by (rule of_char_eq_iff)
  then show ?thesis by simp
qed

lemma cstring_simps [simp]: "cstring []" "cstring (c # s) \<longleftrightarrow> c \<noteq> CHR 0x00 \<and> cstring s"
  "cstring (s @ t) \<longleftrightarrow> cstring s \<and> cstring t"
  by (auto simp: cstring_def)

lemma strcmp_0_iff: "cstring p \<Longrightarrow> cstring q \<Longrightarrow> strcmp p q = 0 \<longleftrightarrow> p = q"
  by (induction p q rule: strcmp.induct) (auto simp: cval_def of_char_0_iff split: list.splits)

lemma strncmp_0_iff: "cstring p \<Longrightarrow> cstring q \<Longrightarrow> u_strncmp p q n = 0 \<longleftrightarrow> take n p = take n q"
  by (induction p q n rule: u_strncmp.induct) (auto simp: cval_def of_char_0_iff split: list.splits)

lemma u_strlen_length [simp]: "u_strlen s = length s"
  by (induction s) auto

lemma strchr_append: "c \<notin> set s \<Longrightarrow> strchr (s @ c # t) c = Some (c # t)"
  by (induction s) auto

lemma strchr_None: "strchr s c = None \<longleftrightarrow> c \<notin> set s"
  by (induction s) auto

lemma strchr_Some: "strchr s c = Some t \<longleftrightarrow> (\<exists>u. s = takeWhile (\<lambda>x. x \<noteq> c) s @ t \<and> t = c # u)"
  by (induction s) auto

lemma strchr_tl: "Some t = strchr s c \<Longrightarrow> length (tl t) < length s"
  by (induction s) (auto split: if_splits)

text \<open>strcpy() returns when the string it copies ends before the copy reaches it.\<close>

lemma strcpy_returns:
  assumes "\<forall>k<j. m (t + of_nat k) \<noteq> 0" "m (t + of_nat j) = 0" "\<forall>i\<le>j. \<forall>k\<le>j. s + of_nat i \<noteq> t + of_nat k"
  shows "strcpy m s t = Some (copy_up m s t (Suc j))"
  using assms
proof (induction j arbitrary: m s t)
  case 0
  then show ?case by (subst strcpy.simps) simp
next
  case (Suc j)
  let ?m = "m(s := m t)"
  have ne: "s + of_nat i \<noteq> t + of_nat k" if "i \<le> Suc j" "k \<le> Suc j" for i k using Suc.prems(3) that by blast
  have shift: "(t + 1) + of_nat k = t + of_nat (Suc k)" "(s + 1) + of_nat k = s + of_nat (Suc k)" for k by simp_all
  have keep: "?m (t + of_nat k) = m (t + of_nat k)" if "k \<le> Suc j" for k
    using ne [of 0 k] that by auto
  have "strcpy ?m (s + 1) (t + 1) = Some (copy_up ?m (s + 1) (t + 1) (Suc j))"
  proof (rule Suc.IH, unfold shift)
    show "\<forall>k<j. ?m (t + of_nat (Suc k)) \<noteq> 0" using Suc.prems(1) by (auto simp only: keep Suc_le_mono less_imp_le)
    show "?m (t + of_nat (Suc j)) = 0" using Suc.prems(2) by (simp only: keep order_refl)
    show "\<forall>i\<le>j. \<forall>k\<le>j. s + of_nat (Suc i) \<noteq> t + of_nat (Suc k)" by (intro allI impI ne) simp_all
  qed
  moreover have "m t \<noteq> 0" using Suc.prems(1) [rule_format, of 0] by simp
  ultimately show ?case by (subst strcpy.simps, subst copy_up.simps) (simp only: Let_def fun_upd_same if_False)
qed

section \<open>Numbers\<close>

definition int32 :: "int \<Rightarrow> bool" where
  "int32 z \<longleftrightarrow> - (2 ^ 31) \<le> z \<and> z < 2 ^ 31"

lemma wrap32_id [simp]: "int32 z \<Longrightarrow> wrap32 z = z"
  by (simp add: wrap32_def int32_def signed_take_bit_int_eq_self)

lemma int32_wrap32 [simp]: "int32 (wrap32 z)"
  using signed_take_bit_int_greater_eq_minus_exp [of 31 z] signed_take_bit_int_less_exp [of 31 z]
  by (simp add: wrap32_def int32_def)

lemma wrap32_add_mult: "wrap32 (wrap32 z * 10 + d) = wrap32 (z * 10 + d)"
proof -
  have "take_bit 32 (signed_take_bit 31 z * 10 + d) = take_bit 32 (z * 10 + d)"
  proof -
    have "take_bit 32 (signed_take_bit 31 z) = take_bit 32 z" by (simp add: take_bit_signed_take_bit)
    then have "take_bit 32 (signed_take_bit 31 z * 10) = take_bit 32 (z * 10)" by (metis take_bit_mult)
    then show ?thesis by (metis take_bit_add)
  qed
  then show ?thesis unfolding wrap32_def using signed_take_bit_eq_iff_take_bit_eq [of 31] by fastforce
qed

text \<open>A wrapping loop over digits reads their value modulo \<open>2\<^sup>3\<^sup>2\<close>.\<close>

lemma atoi_loop_digits:
  "list_all is_digit s \<Longrightarrow> (case t of c # _ \<Rightarrow> \<not> is_digit c | [] \<Rightarrow> True) \<Longrightarrow>
     atoi_loop (wrap32 n) (s @ t) = wrap32 (digits_val n s)"
proof (induction s arbitrary: n)
  case Nil
  then show ?case by (auto split: list.splits)
qed (simp add: wrap32_add_mult)

text \<open>atoi() of a decimal numeral that fits an int is its value, whatever follows that is not a digit.\<close>

lemma atoi_reads_numeral:
  assumes "int n < 2 ^ 31" "case t of c # _ \<Rightarrow> \<not> is_digit c | [] \<Rightarrow> True"
  shows "atoi (nat_str n @ t) = int n"
proof -
  have "int32 0" "int32 (int n)" using assms by (simp_all add: int32_def)
  then show ?thesis using atoi_loop_digits [OF nat_str_ok(2) assms(2), of 0 n] by (simp add: atoi_def nat_str_ok(3))
qed

end
