(* ===== verification/Drawlib.thy ===== *)
theory Drawlib
  imports Prelude "HOL-Library.Signed_Division" "HOL-Library.Multiset"
begin

text \<open>
  src/drawlib.c: the drawing operations on a canvas of one byte per pixel.  An
  operation is a partial function on canvases: \<open>None\<close> stands for a write outside the
  canvas or for a loop that does not end, so that a result \<open>Some c\<close> says that
  neither happens.  The two loops whose end is not evident (the line walker and
  the search for an ellipse's extent) are defined by \<open>partial_function\<close>.

  Coordinates are exact integers.  The C code computes with 32-bit \<open>int\<close>; the
  two agree as long as no sum or product of the code leaves that range, which the
  bounds property of canvas_line() makes precise for the line walker.  Colours
  are bytes.
\<close>

section \<open>Canvas\<close>

definition CANVAS_WIDTH :: int where "CANVAS_WIDTH = 320"
definition CANVAS_HEIGHT :: int where "CANVAS_HEIGHT = 200"
definition CANVAS_SIZE :: int where "CANVAS_SIZE = CANVAS_WIDTH * CANVAS_HEIGHT"
definition POLYGON_MAX_POINTS :: int where "POLYGON_MAX_POINTS = 16"
definition DISPLAY_CHUNK :: int where "DISPLAY_CHUNK = 1000"

type_synonym canvas = "u8 list"

text \<open>\<open>canvas[k] = color\<close>\<close>

definition poke :: "int \<Rightarrow> u8 \<Rightarrow> canvas \<Rightarrow> canvas option" where
  "poke k color c = (if 0 \<le> k \<and> k < int (length c) then Some (c[nat k := color]) else None)"

fun fold_o :: "('a \<Rightarrow> 's \<Rightarrow> 's option) \<Rightarrow> 'a list \<Rightarrow> 's \<Rightarrow> 's option" where
  "fold_o f [] s = Some s"
| "fold_o f (x # xs) s = Option.bind (f x s) (fold_o f xs)"

definition canvas_clear :: "u8 \<Rightarrow> canvas \<Rightarrow> canvas option" where
  "canvas_clear color = fold_o (\<lambda>k. poke k color) [0..CANVAS_SIZE - 1]"

definition canvas_pixel :: "int \<Rightarrow> int \<Rightarrow> u8 \<Rightarrow> canvas \<Rightarrow> canvas option" where
  "canvas_pixel x y color c =
     (if x < 0 \<or> CANVAS_WIDTH \<le> x \<or> y < 0 \<or> CANVAS_HEIGHT \<le> y then Some c
      else poke (y * CANVAS_WIDTH + x) color c)"

definition draw_hline :: "int \<Rightarrow> int \<Rightarrow> int \<Rightarrow> u8 \<Rightarrow> canvas \<Rightarrow> canvas option" where
  "draw_hline y x0 x1 color c =
     (if y < 0 \<or> CANVAS_HEIGHT \<le> y then Some c
      else
        let (left, right) = (if x1 < x0 then (x1, x0) else (x0, x1)) in
        if right < 0 \<or> CANVAS_WIDTH \<le> left then Some c
        else
          let left = (if left < 0 then 0 else left);
              right = (if CANVAS_WIDTH \<le> right then CANVAS_WIDTH - 1 else right)
          in fold_o (\<lambda>x. poke (y * CANVAS_WIDTH + x) color) [left..right] c)"

section \<open>Helpers\<close>

definition abs_int :: "int \<Rightarrow> int" where
  "abs_int v = (if v < 0 then - v else v)"

definition min3 :: "int \<Rightarrow> int \<Rightarrow> int \<Rightarrow> int" where
  "min3 a b c = (let r = a; r = (if b < r then b else r) in if c < r then c else r)"

definition max3 :: "int \<Rightarrow> int \<Rightarrow> int \<Rightarrow> int" where
  "max3 a b c = (let r = a; r = (if r < b then b else r) in if r < c then c else r)"

definition edge_function :: "int \<Rightarrow> int \<Rightarrow> int \<Rightarrow> int \<Rightarrow> int \<Rightarrow> int \<Rightarrow> int" where
  "edge_function ax ay bx by' px py = (px - ax) * (by' - ay) - (py - ay) * (bx - ax)"

definition swap_int :: "nat \<Rightarrow> nat \<Rightarrow> int list \<Rightarrow> int list" where
  "swap_int i j vs = vs[i := vs ! j, j := vs ! i]"

definition sort_step :: "nat \<Rightarrow> nat \<Rightarrow> int list \<Rightarrow> int list" where
  "sort_step i j vs = (if vs ! j < vs ! i then swap_int i j vs else vs)"

definition sort_inner :: "nat \<Rightarrow> nat \<Rightarrow> int list \<Rightarrow> int list" where
  "sort_inner cnt i = fold (sort_step i) [i + 1..<cnt]"

definition sort_ints :: "nat \<Rightarrow> int list \<Rightarrow> int list" where
  "sort_ints cnt = fold (sort_inner cnt) [0..<cnt]"

section \<open>Lines, rectangles, triangles\<close>

partial_function (option) line_loop ::
  "int \<Rightarrow> int \<Rightarrow> int \<Rightarrow> int \<Rightarrow> int \<Rightarrow> int \<Rightarrow> u8 \<Rightarrow> int \<Rightarrow> int \<Rightarrow> int \<Rightarrow> canvas \<Rightarrow> canvas option" where
  "line_loop x2 y2 dx dy sx sy color x1 y1 err c =
     Option.bind (canvas_pixel x1 y1 color c) (\<lambda>c.
       if x1 = x2 \<and> y1 = y2 then Some c
       else
         let err2 = 2 * err;
             (err, x1) = (if dy \<le> err2 then (err + dy, x1 + sx) else (err, x1));
             (err, y1) = (if err2 \<le> dx then (err + dx, y1 + sy) else (err, y1))
         in line_loop x2 y2 dx dy sx sy color x1 y1 err c)"

definition canvas_line :: "int \<Rightarrow> int \<Rightarrow> int \<Rightarrow> int \<Rightarrow> u8 \<Rightarrow> canvas \<Rightarrow> canvas option" where
  "canvas_line x1 y1 x2 y2 color c =
     (let dx = abs_int (x2 - x1);
          sx = (if x1 < x2 then 1 else -1);
          dy = - abs_int (y2 - y1);
          sy = (if y1 < y2 then 1 else -1)
      in line_loop x2 y2 dx dy sx sy color x1 y1 (dx + dy) c)"

definition canvas_rect :: "int \<Rightarrow> int \<Rightarrow> int \<Rightarrow> int \<Rightarrow> u8 \<Rightarrow> canvas \<Rightarrow> canvas option" where
  "canvas_rect x y w h color c =
     (if w \<le> 0 \<or> h \<le> 0 then Some c
      else
        Option.bind (canvas_line x y (x + w - 1) y color c) (\<lambda>c.
        Option.bind (canvas_line x y x (y + h - 1) color c) (\<lambda>c.
        Option.bind (canvas_line (x + w - 1) y (x + w - 1) (y + h - 1) color c) (\<lambda>c.
        canvas_line x (y + h - 1) (x + w - 1) (y + h - 1) color c))))"

definition canvas_fillrect :: "int \<Rightarrow> int \<Rightarrow> int \<Rightarrow> int \<Rightarrow> u8 \<Rightarrow> canvas \<Rightarrow> canvas option" where
  "canvas_fillrect x y w h color c =
     (if w \<le> 0 \<or> h \<le> 0 then Some c
      else fold_o (\<lambda>row. draw_hline (y + row) x (x + w - 1) color) [0..h - 1] c)"

definition canvas_triangle :: "int \<Rightarrow> int \<Rightarrow> int \<Rightarrow> int \<Rightarrow> int \<Rightarrow> int \<Rightarrow> u8 \<Rightarrow> canvas \<Rightarrow> canvas option" where
  "canvas_triangle x1 y1 x2 y2 x3 y3 color c =
     Option.bind (canvas_line x1 y1 x2 y2 color c) (\<lambda>c.
     Option.bind (canvas_line x2 y2 x3 y3 color c) (\<lambda>c.
     canvas_line x3 y3 x1 y1 color c))"

definition in_triangle :: "int \<Rightarrow> int \<Rightarrow> int \<Rightarrow> int \<Rightarrow> int \<Rightarrow> int \<Rightarrow> int \<Rightarrow> int \<Rightarrow> bool" where
  "in_triangle x1 y1 x2 y2 x3 y3 x y =
     (let area = edge_function x1 y1 x2 y2 x3 y3;
          w0 = edge_function x2 y2 x3 y3 x y;
          w1 = edge_function x3 y3 x1 y1 x y;
          w2 = edge_function x1 y1 x2 y2 x y
      in 0 < area \<and> 0 \<le> w0 \<and> 0 \<le> w1 \<and> 0 \<le> w2 \<or> area < 0 \<and> w0 \<le> 0 \<and> w1 \<le> 0 \<and> w2 \<le> 0)"

definition canvas_filltriangle :: "int \<Rightarrow> int \<Rightarrow> int \<Rightarrow> int \<Rightarrow> int \<Rightarrow> int \<Rightarrow> u8 \<Rightarrow> canvas \<Rightarrow> canvas option" where
  "canvas_filltriangle x1 y1 x2 y2 x3 y3 color c =
     (let min_x = min3 x1 x2 x3; max_x = max3 x1 x2 x3; min_y = min3 y1 y2 y3; max_y = max3 y1 y2 y3 in
      if edge_function x1 y1 x2 y2 x3 y3 = 0 then canvas_triangle x1 y1 x2 y2 x3 y3 color c
      else
        let min_x = (if min_x < 0 then 0 else min_x);
            max_x = (if CANVAS_WIDTH \<le> max_x then CANVAS_WIDTH - 1 else max_x);
            min_y = (if min_y < 0 then 0 else min_y);
            max_y = (if CANVAS_HEIGHT \<le> max_y then CANVAS_HEIGHT - 1 else max_y)
        in fold_o (\<lambda>y. fold_o (\<lambda>x c.
             if in_triangle x1 y1 x2 y2 x3 y3 x y then canvas_pixel x y color c else Some c)
             [min_x..max_x]) [min_y..max_y] c)"

section \<open>Circles and ellipses\<close>

text \<open>The midpoint loop shared by canvas_circle() and canvas_fillcircle(): \<open>body cx cy\<close> is drawn at each step.\<close>

function circle_loop :: "(int \<Rightarrow> int \<Rightarrow> canvas \<Rightarrow> canvas option) \<Rightarrow> int \<Rightarrow> int \<Rightarrow> int \<Rightarrow> canvas \<Rightarrow> canvas option" where
  "circle_loop body cx cy err c =
     (if cy \<le> cx then
        Option.bind (body cx cy c) (\<lambda>c.
          let cy = cy + 1 in
          if err < 0 then circle_loop body cx cy (err + 2 * cy + 1) c
          else let cx = cx - 1 in circle_loop body cx cy (err + 2 * (cy - cx) + 1) c)
      else Some c)"
  by pat_completeness auto
termination by (relation "measure (\<lambda>(body, cx, cy, err, c). nat (cx - cy + 1))") auto

definition circle_points :: "int \<Rightarrow> int \<Rightarrow> u8 \<Rightarrow> int \<Rightarrow> int \<Rightarrow> canvas \<Rightarrow> canvas option" where
  "circle_points x y color cx cy =
     fold_o (\<lambda>(a, b). canvas_pixel a b color)
       [(x + cx, y + cy), (x + cy, y + cx), (x - cy, y + cx), (x - cx, y + cy),
        (x - cx, y - cy), (x - cy, y - cx), (x + cy, y - cx), (x + cx, y - cy)]"

definition canvas_circle :: "int \<Rightarrow> int \<Rightarrow> int \<Rightarrow> u8 \<Rightarrow> canvas \<Rightarrow> canvas option" where
  "canvas_circle x y radius color c =
     (if radius < 0 then Some c else circle_loop (circle_points x y color) radius 0 (1 - radius) c)"

definition circle_spans :: "int \<Rightarrow> int \<Rightarrow> u8 \<Rightarrow> int \<Rightarrow> int \<Rightarrow> canvas \<Rightarrow> canvas option" where
  "circle_spans x y color cx cy =
     fold_o (\<lambda>(row, a, b). draw_hline row a b color)
       [(y + cy, x - cx, x + cx), (y - cy, x - cx, x + cx), (y + cx, x - cy, x + cy), (y - cx, x - cy, x + cy)]"

definition canvas_fillcircle :: "int \<Rightarrow> int \<Rightarrow> int \<Rightarrow> u8 \<Rightarrow> canvas \<Rightarrow> canvas option" where
  "canvas_fillcircle x y radius color c =
     (if radius < 0 then Some c else circle_loop (circle_spans x y color) radius 0 (1 - radius) c)"

text \<open>\<open>while(p * p * r2 <= inside) p++;\<close>\<close>

partial_function (option) extent_loop :: "int \<Rightarrow> int \<Rightarrow> int \<Rightarrow> int option" where
  "extent_loop r2 inside p = (if p * p * r2 \<le> inside then extent_loop r2 inside (p + 1) else Some p)"

definition canvas_ellipse :: "int \<Rightarrow> int \<Rightarrow> int \<Rightarrow> int \<Rightarrow> u8 \<Rightarrow> canvas \<Rightarrow> canvas option" where
  "canvas_ellipse x y rx ry color c =
     (if rx < 0 \<or> ry < 0 then Some c
      else if rx = 0 \<and> ry = 0 then canvas_pixel x y color c
      else if rx = 0 then fold_o (\<lambda>px. canvas_pixel x (y + px) color) [- ry..ry] c
      else
        fold_o (\<lambda>px c.
          let rx2 = rx * rx; ry2 = ry * ry; inside = ry2 * (rx2 - px * px) in
          Option.bind (extent_loop rx2 inside 0) (\<lambda>py.
            let py = py - 1 in
            Option.bind (canvas_pixel (x + px) (y + py) color c) (canvas_pixel (x + px) (y - py) color)))
          [- rx..rx] c)"

definition canvas_fillellipse :: "int \<Rightarrow> int \<Rightarrow> int \<Rightarrow> int \<Rightarrow> u8 \<Rightarrow> canvas \<Rightarrow> canvas option" where
  "canvas_fillellipse x y rx ry color c =
     (if rx < 0 \<or> ry < 0 then Some c
      else if rx = 0 \<and> ry = 0 then canvas_pixel x y color c
      else if rx = 0 then fold_o (\<lambda>py. canvas_pixel x (y + py) color) [- ry..ry] c
      else if ry = 0 then draw_hline y (x - rx) (x + rx) color c
      else
        let rx2 = rx * rx; ry2 = ry * ry in
        fold_o (\<lambda>py c.
          let inside = rx2 * (ry2 - py * py) in
          Option.bind (extent_loop ry2 inside 0) (\<lambda>px.
            let px = px - 1 in draw_hline (y + py) (x - px) (x + px) color c)) [- ry..ry] c)"

section \<open>Polygons\<close>

definition canvas_polygon :: "int list \<Rightarrow> int list \<Rightarrow> nat \<Rightarrow> u8 \<Rightarrow> canvas \<Rightarrow> canvas option" where
  "canvas_polygon xs ys cnt color c =
     (if cnt < 2 then Some c
      else fold_o (\<lambda>i. let next = (i + 1) mod cnt in
        canvas_line (xs ! i) (ys ! i) (xs ! next) (ys ! next) color) [0..<cnt] c)"

text \<open>Where edge \<open>i\<close> crosses row \<open>y\<close>: C division truncates towards 0.\<close>

definition crossing :: "int list \<Rightarrow> int list \<Rightarrow> nat \<Rightarrow> int \<Rightarrow> nat \<Rightarrow> int option" where
  "crossing xs ys cnt y i =
     (let next = (i + 1) mod cnt; y0 = ys ! i; y1 = ys ! next; x0 = xs ! i; x1 = xs ! next in
      if y0 = y1 then None
      else if y0 \<le> y \<and> y < y1 \<or> y1 \<le> y \<and> y < y0 then Some (x0 + (y - y0) * (x1 - x0) sdiv (y1 - y0))
      else None)"

fun draw_spans :: "int \<Rightarrow> u8 \<Rightarrow> int list \<Rightarrow> canvas \<Rightarrow> canvas option" where
  "draw_spans y color (a # b # rest) c = Option.bind (draw_hline y a b color c) (draw_spans y color rest)"
| "draw_spans y color _ c = Some c"

definition canvas_fillpolygon :: "int list \<Rightarrow> int list \<Rightarrow> nat \<Rightarrow> u8 \<Rightarrow> canvas \<Rightarrow> canvas option" where
  "canvas_fillpolygon xs ys cnt color c =
     (if cnt < 3 \<or> POLYGON_MAX_POINTS < int cnt then Some c
      else
        let min_y = fold (\<lambda>i m. if ys ! i < m then ys ! i else m) [1..<cnt] (ys ! 0);
            max_y = fold (\<lambda>i m. if m < ys ! i then ys ! i else m) [1..<cnt] (ys ! 0);
            min_y = (if min_y < 0 then 0 else min_y);
            max_y = (if CANVAS_HEIGHT \<le> max_y then CANVAS_HEIGHT - 1 else max_y)
        in fold_o (\<lambda>y c.
             let hits = List.map_filter (crossing xs ys cnt y) [0..<cnt] in
             if length hits < 2 then Some c
             else draw_spans y color (sort_ints (length hits) hits) c) [min_y..max_y] c)"

section \<open>Showing the canvas\<close>

text \<open>
  The system calls are parameters: \<open>open'\<close> of the display, \<open>write\<close> and \<open>close\<close> on
  the state of the kernel.
\<close>

fun blit_loop :: "(int \<Rightarrow> u8 list \<Rightarrow> 's \<Rightarrow> int \<times> 's) \<Rightarrow> int \<Rightarrow> int list \<Rightarrow> canvas \<Rightarrow> 's \<Rightarrow> bool \<times> 's" where
  "blit_loop write fd [] c s = (True, s)"
| "blit_loop write fd (off # offs) c s =
     (let chunk = CANVAS_SIZE - off;
          chunk = (if DISPLAY_CHUNK < chunk then DISPLAY_CHUNK else chunk);
          (written, s) = write fd (take (nat chunk) (drop (nat off) c)) s
      in if written \<noteq> chunk then (False, s) else blit_loop write fd offs c s)"

definition canvas_blit ::
  "('s \<Rightarrow> int \<times> 's) \<Rightarrow> (int \<Rightarrow> u8 list \<Rightarrow> 's \<Rightarrow> int \<times> 's) \<Rightarrow> (int \<Rightarrow> 's \<Rightarrow> 's) \<Rightarrow> canvas \<Rightarrow> 's \<Rightarrow> int \<times> 's" where
  "canvas_blit open' write close c s =
     (let (fd, s) = open' s in
      if fd < 0 then (-1, s)
      else
        let (ok, s) = blit_loop write fd (map (\<lambda>k. int k * DISPLAY_CHUNK) [0..<nat ((CANVAS_SIZE + DISPLAY_CHUNK - 1) div DISPLAY_CHUNK)]) c s;
            s = close fd s
        in if ok then (0, s) else (-1, s))"

end
