(* ===== verification/DrawSpec.thy ===== *)
theory DrawSpec
  imports Drawlib
begin

text \<open>
  What the operations of theory \<open>Drawlib\<close> draw.  \<open>draws f S color\<close> says that on
  every canvas of the right size \<open>f\<close> ends, writes inside the canvas only, gives the
  pixels of the point set \<open>S\<close> that lie on the canvas the colour and leaves all others
  alone.  Each operation is given its point set.
\<close>

section \<open>Painting a set of points\<close>

definition canvas_ok :: "canvas \<Rightarrow> bool" where
  "canvas_ok c \<longleftrightarrow> int (length c) = CANVAS_SIZE"

definition on_canvas :: "int \<Rightarrow> int \<Rightarrow> bool" where
  "on_canvas x y \<longleftrightarrow> 0 \<le> x \<and> x < CANVAS_WIDTH \<and> 0 \<le> y \<and> y < CANVAS_HEIGHT"

definition pix :: "canvas \<Rightarrow> int \<Rightarrow> int \<Rightarrow> u8" where
  "pix c x y = c ! nat (y * CANVAS_WIDTH + x)"

definition paints :: "canvas \<Rightarrow> (int \<times> int) set \<Rightarrow> u8 \<Rightarrow> canvas \<Rightarrow> bool" where
  "paints c S color c' \<longleftrightarrow> canvas_ok c' \<and>
     (\<forall>x y. on_canvas x y \<longrightarrow> pix c' x y = (if (x, y) \<in> S then color else pix c x y))"

definition draws :: "(canvas \<Rightarrow> canvas option) \<Rightarrow> (int \<times> int) set \<Rightarrow> u8 \<Rightarrow> bool" where
  "draws f S color \<longleftrightarrow> (\<forall>c. canvas_ok c \<longrightarrow> (\<exists>c'. f c = Some c' \<and> paints c S color c'))"

lemmas canvas_consts = CANVAS_WIDTH_def CANVAS_HEIGHT_def CANVAS_SIZE_def

lemma draws_skip: "draws Some {} color"
  by (simp add: draws_def paints_def)

lemma draws_bind:
  assumes "draws f S color" "draws g T color"
  shows "draws (\<lambda>c. Option.bind (f c) g) (S \<union> T) color"
  unfolding draws_def
proof (intro allI impI)
  fix c assume "canvas_ok c"
  then obtain c1 where 1: "f c = Some c1" "paints c S color c1" using assms(1) by (auto simp: draws_def)
  then obtain c2 where "g c1 = Some c2" "paints c1 T color c2" using assms(2) by (auto simp: draws_def paints_def)
  then show "\<exists>c'. Option.bind (f c) g = Some c' \<and> paints c (S \<union> T) color c'" using 1 by (auto simp: paints_def)
qed

lemma draws_fold:
  "(\<And>a. a \<in> set as \<Longrightarrow> draws (f a) (S a) color) \<Longrightarrow> draws (fold_o f as) (\<Union>a\<in>set as. S a) color"
proof (induction as)
  case Nil
  have "fold_o f [] = Some" by (rule ext) simp
  then show ?case using draws_skip by simp
next
  case (Cons a as)
  have "fold_o f (a # as) = (\<lambda>c. Option.bind (f a c) (fold_o f as))" by (rule ext) simp
  then show ?case using draws_bind [of "f a" "S a" color "fold_o f as" "\<Union>a\<in>set as. S a"] Cons by simp
qed

text \<open>Only the points on the canvas matter.\<close>

lemma draws_cong:
  assumes "draws f S color" "\<And>x y. on_canvas x y \<Longrightarrow> (x, y) \<in> S \<longleftrightarrow> (x, y) \<in> T"
  shows "draws f T color"
  using assms by (auto simp: draws_def paints_def)

lemma draws_off: "(\<And>x y. on_canvas x y \<Longrightarrow> (x, y) \<notin> T) \<Longrightarrow> draws Some T color"
  by (rule draws_cong [OF draws_skip]) auto

lemma draws_poke:
  assumes "on_canvas x y"
  shows "draws (poke (y * CANVAS_WIDTH + x) color) {(x, y)} color"
  unfolding draws_def
proof (intro allI impI)
  fix c assume c: "canvas_ok c"
  have k: "0 \<le> y * CANVAS_WIDTH + x" "y * CANVAS_WIDTH + x < int (length c)"
    using assms c by (auto simp: on_canvas_def canvas_ok_def canvas_consts)
  have "pix (c[nat (y * CANVAS_WIDTH + x) := color]) u v = (if (u, v) = (x, y) then color else pix c u v)"
    if "on_canvas u v" for u v
  proof -
    have "(v * 320 + u) div 320 = v" "(v * 320 + u) mod 320 = u" "(y * 320 + x) div 320 = y" "(y * 320 + x) mod 320 = x"
      using assms that by (simp_all add: on_canvas_def canvas_consts)
    then have "v * 320 + u = y * 320 + x \<longleftrightarrow> u = x \<and> v = y" by metis
    then have "nat (v * CANVAS_WIDTH + u) = nat (y * CANVAS_WIDTH + x) \<longleftrightarrow> (u, v) = (x, y)"
      using assms that by (simp add: on_canvas_def canvas_consts eq_nat_nat_iff)
    moreover have "nat (v * CANVAS_WIDTH + u) < length c"
      using that c by (auto simp: on_canvas_def canvas_ok_def canvas_consts)
    ultimately show ?thesis by (auto simp: pix_def nth_list_update)
  qed
  then show "\<exists>c'. poke (y * CANVAS_WIDTH + x) color c = Some c' \<and> paints c {(x, y)} color c'"
    using k c by (auto simp: poke_def paints_def canvas_ok_def)
qed

lemma draws_pixel: "draws (canvas_pixel x y color) {(x, y)} color"
proof (cases "on_canvas x y")
  case True
  then have "canvas_pixel x y color = poke (y * CANVAS_WIDTH + x) color"
    by (auto simp: canvas_pixel_def on_canvas_def fun_eq_iff)
  then show ?thesis using draws_poke [OF True] by simp
next
  case False
  then have "canvas_pixel x y color = Some" by (auto simp: canvas_pixel_def on_canvas_def fun_eq_iff)
  then show ?thesis using False draws_off [of "{(x, y)}" color] by auto
qed

definition hline :: "int \<Rightarrow> int \<Rightarrow> int \<Rightarrow> (int \<times> int) set" where
  "hline y x0 x1 = {(x, y') | x y'. y' = y \<and> min x0 x1 \<le> x \<and> x \<le> max x0 x1}"

lemma draws_hline: "draws (draw_hline y x0 x1 color) (hline y x0 x1) color"
proof -
  let ?l = "min x0 x1" and ?r = "max x0 x1"
  have lr: "(if x1 < x0 then (x1, x0) else (x0, x1)) = (?l, ?r)" by auto
  show ?thesis
  proof (cases "y < 0 \<or> CANVAS_HEIGHT \<le> y \<or> ?r < 0 \<or> CANVAS_WIDTH \<le> ?l")
    case True
    then have "draw_hline y x0 x1 color = Some" unfolding draw_hline_def lr by (auto simp: fun_eq_iff)
    moreover have "(px, py) \<notin> hline y x0 x1" if "on_canvas px py" for px py
      using True that by (auto simp: hline_def on_canvas_def)
    ultimately show ?thesis using draws_off [of "hline y x0 x1" color] by simp
  next
    case False
    let ?ls = "[max 0 ?l..min (CANVAS_WIDTH - 1) ?r]"
    have n: "\<not> (y < 0 \<or> CANVAS_HEIGHT \<le> y)" "\<not> (?r < 0 \<or> CANVAS_WIDTH \<le> ?l)" using False by blast+
    have l: "(if a < 0 then 0 else a) = max 0 a" for a :: int by auto
    have r: "(if CANVAS_WIDTH \<le> a then CANVAS_WIDTH - 1 else a) = min (CANVAS_WIDTH - 1) a" for a by auto
    have e: "draw_hline y x0 x1 color = fold_o (\<lambda>x. poke (y * CANVAS_WIDTH + x) color) ?ls"
      by (rule ext) (simp only: draw_hline_def lr Let_def prod.case if_not_P [OF n(1)] if_not_P [OF n(2)] l r)
    have "on_canvas x y" if "x \<in> set ?ls" for x
      using False that unfolding on_canvas_def set_upto atLeastAtMost_iff canvas_consts by linarith
    then have "draws (fold_o (\<lambda>x. poke (y * CANVAS_WIDTH + x) color) ?ls) (\<Union>x\<in>set ?ls. {(x, y)}) color"
      by (intro draws_fold draws_poke)
    then show ?thesis unfolding e
    proof (rule draws_cong)
      fix px py assume "on_canvas px py"
      then have "px \<in> set ?ls \<longleftrightarrow> ?l \<le> px \<and> px \<le> ?r" by (auto simp: on_canvas_def)
      then show "(px, py) \<in> (\<Union>x\<in>set ?ls. {(x, y)}) \<longleftrightarrow> (px, py) \<in> hline y x0 x1"
        unfolding hline_def by blast
    qed
  qed
qed

section \<open>Clearing and rectangles\<close>

lemma draws_clear: "draws (canvas_clear color) UNIV color"
proof -
  let ?S = "\<lambda>k. {(k mod CANVAS_WIDTH, k div CANVAS_WIDTH)}"
  have "draws (poke k color) (?S k) color" if "k \<in> set [0..CANVAS_SIZE - 1]" for k
  proof -
    have "on_canvas (k mod CANVAS_WIDTH) (k div CANVAS_WIDTH)"
      using that by (auto simp: on_canvas_def canvas_consts)
    from draws_poke [OF this, of color] show ?thesis by simp
  qed
  then have "draws (canvas_clear color) (\<Union>k\<in>set [0..CANVAS_SIZE - 1]. ?S k) color"
    unfolding canvas_clear_def by (rule draws_fold)
  then show ?thesis
  proof (rule draws_cong)
    fix x y assume "on_canvas x y"
    then have "y * CANVAS_WIDTH + x \<in> set [0..CANVAS_SIZE - 1]" "(y * CANVAS_WIDTH + x) mod CANVAS_WIDTH = x"
      "(y * CANVAS_WIDTH + x) div CANVAS_WIDTH = y"
      by (auto simp: on_canvas_def canvas_consts)
    then show "(x, y) \<in> (\<Union>k\<in>set [0..CANVAS_SIZE - 1]. ?S k) \<longleftrightarrow> (x, y) \<in> UNIV" by force
  qed
qed

definition box :: "int \<Rightarrow> int \<Rightarrow> int \<Rightarrow> int \<Rightarrow> (int \<times> int) set" where
  "box x y w h = {(px, py). x \<le> px \<and> px < x + w \<and> y \<le> py \<and> py < y + h}"

lemma draws_fillrect: "draws (canvas_fillrect x y w h color) (box x y w h) color"
proof (cases "w \<le> 0 \<or> h \<le> 0")
  case True
  then have "canvas_fillrect x y w h color = Some" by (auto simp: canvas_fillrect_def fun_eq_iff)
  then show ?thesis using True draws_off [of "box x y w h" color] by (auto simp: box_def)
next
  case False
  have "draws (fold_o (\<lambda>row. draw_hline (y + row) x (x + w - 1) color) [0..h - 1])
      (\<Union>row\<in>set [0..h - 1]. hline (y + row) x (x + w - 1)) color"
    by (rule draws_fold, rule draws_hline)
  moreover have "canvas_fillrect x y w h color = fold_o (\<lambda>row. draw_hline (y + row) x (x + w - 1) color) [0..h - 1]"
    using False by (auto simp: canvas_fillrect_def fun_eq_iff)
  moreover have "(\<Union>row\<in>set [0..h - 1]. hline (y + row) x (x + w - 1)) = box x y w h"
  proof (intro set_eqI, clarify)
    fix px py
    show "(px, py) \<in> (\<Union>row\<in>set [0..h - 1]. hline (y + row) x (x + w - 1)) \<longleftrightarrow> (px, py) \<in> box x y w h"
      using False by (auto simp: hline_def box_def intro!: bexI [of _ "py - y"])
  qed
  ultimately show ?thesis by simp
qed

section \<open>Lines\<close>

text \<open>
  The walker after \<open>i\<close> steps in x and \<open>j\<close> in y, on a line of \<open>dx\<close> by \<open>dd\<close>
  steps: twice its distance from the ideal line, scaled, stays below the larger extent.
\<close>

definition near :: "int \<Rightarrow> int \<Rightarrow> int \<Rightarrow> int \<Rightarrow> bool" where
  "near dx dd i j \<longleftrightarrow> 0 \<le> i \<and> i \<le> dx \<and> 0 \<le> j \<and> j \<le> dd \<and> \<bar>2 * (dd * i - dx * j)\<bar> \<le> max dx dd"

definition walk_err :: "int \<Rightarrow> int \<Rightarrow> int \<Rightarrow> int \<Rightarrow> int" where
  "walk_err dx dd i j = dx * (j + 1) - dd * (i + 1)"

lemma near_wide_step:
  assumes n: "near dx dd i j" and w: "dd \<le> dx" and ne: "\<not> (i = dx \<and> j = dd)"
  shows "i < dx" "- dd \<le> 2 * walk_err dx dd i j"
    "2 * walk_err dx dd i j \<le> dx \<Longrightarrow> near dx dd (i + 1) (j + 1)"
    "\<not> 2 * walk_err dx dd i j \<le> dx \<Longrightarrow> near dx dd (i + 1) j"
proof -
  note n' = n [unfolded near_def]
  have m: "max dx dd = dx" using w by simp
  have e: "2 * (dd * i - dx * j) \<le> dx" "- dx \<le> 2 * (dd * i - dx * j)" using n' m by linarith+
  show i: "i < dx"
  proof (rule ccontr)
    assume "\<not> i < dx"
    then have i: "i = dx" and j: "j < dd" using n' ne by auto
    have "dx * 1 \<le> dx * (dd - j)" using j n' by (intro mult_left_mono) auto
    moreover have "dd * i - dx * j = dx * (dd - j)" by (simp add: i algebra_simps)
    ultimately have "2 * dx \<le> dx" using e(1) by simp
    then show False using n' j w by linarith
  qed
  show "- dd \<le> 2 * walk_err dx dd i j"
    using e w by (simp add: walk_err_def algebra_simps)
  show "near dx dd (i + 1) (j + 1)" if y: "2 * walk_err dx dd i j \<le> dx"
  proof -
    have "j < dd"
    proof (rule ccontr)
      assume "\<not> j < dd"
      then have j: "j = dd" using n' by simp
      have "0 \<le> dd * (dx - i - 1)" using i n' by (intro mult_nonneg_nonneg) auto
      then show False using y i n' by (simp add: walk_err_def j algebra_simps)
    qed
    then show ?thesis using y e i n' w by (simp add: near_def walk_err_def m algebra_simps)
  qed
  show "near dx dd (i + 1) j" if "\<not> 2 * walk_err dx dd i j \<le> dx"
    using that e i n' w by (auto simp: near_def walk_err_def m algebra_simps abs_le_iff)
qed

lemma near_tall_step:
  assumes n: "near dx dd i j" and w: "dx < dd" and ne: "\<not> (i = dx \<and> j = dd)"
  shows "j < dd" "2 * walk_err dx dd i j \<le> dx"
    "- dd \<le> 2 * walk_err dx dd i j \<Longrightarrow> near dx dd (i + 1) (j + 1)"
    "\<not> - dd \<le> 2 * walk_err dx dd i j \<Longrightarrow> near dx dd i (j + 1)"
proof -
  note n' = n [unfolded near_def]
  have m: "max dx dd = dd" using w by simp
  have e: "2 * (dd * i - dx * j) \<le> dd" "- dd \<le> 2 * (dd * i - dx * j)" using n' m by linarith+
  show j: "j < dd"
  proof (rule ccontr)
    assume "\<not> j < dd"
    then have j: "j = dd" and i: "i < dx" using n' ne by auto
    have "dd * 1 \<le> dd * (dx - i)" using i n' w by (intro mult_left_mono) auto
    moreover have "dd * i - dx * j = - (dd * (dx - i))" by (simp add: j algebra_simps)
    ultimately have "2 * dd \<le> dd" using e(2) by simp
    then show False using n' i w by linarith
  qed
  show "2 * walk_err dx dd i j \<le> dx"
    using e w by (simp add: walk_err_def algebra_simps)
  show "near dx dd (i + 1) (j + 1)" if x: "- dd \<le> 2 * walk_err dx dd i j"
  proof -
    have "i < dx"
    proof (rule ccontr)
      assume "\<not> i < dx"
      then have i: "i = dx" using n' by simp
      have "0 \<le> dx * (dd - j - 1)" using j n' by (intro mult_nonneg_nonneg) auto
      then show False using x j n' by (simp add: walk_err_def i algebra_simps)
    qed
    then show ?thesis using x e j n' w by (simp add: near_def walk_err_def m algebra_simps)
  qed
  show "near dx dd i (j + 1)" if "\<not> - dd \<le> 2 * walk_err dx dd i j"
    using that e j n' w by (auto simp: near_def walk_err_def m algebra_simps abs_le_iff)
qed

text \<open>The points of the walker from \<open>(i, j)\<close> on.\<close>

definition line_path :: "int \<Rightarrow> int \<Rightarrow> int \<Rightarrow> int \<Rightarrow> (int \<times> int) list \<Rightarrow> bool" where
  "line_path dx dd i j ps \<longleftrightarrow> list_all (\<lambda>(a, b). near dx dd a b) ps \<and>
     (if dd \<le> dx then map fst ps = [i..dx] else map snd ps = [j..dd])"

lemma line_loop_draws:
  assumes s: "sx \<noteq> 0" "sy \<noteq> 0" and n: "near dx dd i j"
  shows "\<exists>ps. line_path dx dd i j ps \<and>
    draws (line_loop (x + sx * dx) (y + sy * dd) dx (- dd) sx sy color (x + sx * i) (y + sy * j) (walk_err dx dd i j))
      ((\<lambda>(a, b). (x + sx * a, y + sy * b)) ` set ps) color"
  using n
proof (induction "nat (dx - i + (dd - j))" arbitrary: i j rule: less_induct)
  case less
  let ?L = "\<lambda>i j. line_loop (x + sx * dx) (y + sy * dd) dx (- dd) sx sy color (x + sx * i) (y + sy * j) (walk_err dx dd i j)"
  let ?S = "\<lambda>ps. (\<lambda>(a, b). (x + sx * a, y + sy * b)) ` set ps"
  have px: "draws (canvas_pixel (x + sx * i) (y + sy * j) color) {(x + sx * i, y + sy * j)} color" by (rule draws_pixel)
  have upd: "walk_err dx dd (i + 1) j = walk_err dx dd i j + - dd" "walk_err dx dd i (j + 1) = walk_err dx dd i j + dx"
    "walk_err dx dd (i + 1) (j + 1) = walk_err dx dd i j + - dd + dx" by (simp_all add: walk_err_def algebra_simps)
  have step: "\<exists>ps. line_path dx dd i j ps \<and> draws (?L i j) (?S ps) color"
    if ij: "near dx dd i' j'" "nat (dx - i' + (dd - j')) < nat (dx - i + (dd - j))"
      and e: "?L i j = (\<lambda>c. Option.bind (canvas_pixel (x + sx * i) (y + sy * j) color c) (?L i' j'))"
      and nx: "if dd \<le> dx then i' = i + 1 \<and> i < dx else j' = j + 1 \<and> j < dd" for i' j'
  proof -
    obtain ps where ps: "line_path dx dd i' j' ps" "draws (?L i' j') (?S ps) color" using less.hyps [OF ij(2,1)] by blast
    have "line_path dx dd i j ((i, j) # ps)"
      using ps(1) less.prems nx by (auto simp: line_path_def upto_rec1 split: if_splits)
    moreover have "draws (?L i j) (?S ((i, j) # ps)) color" using draws_bind [OF px ps(2)] e by simp
    ultimately show ?thesis by blast
  qed
  have neq: "x + sx * i = x + sx * dx \<and> y + sy * j = y + sy * dd \<longleftrightarrow> i = dx \<and> j = dd" using s by auto
  show ?case
  proof (cases "i = dx \<and> j = dd")
    case True
    then have "?L i j = canvas_pixel (x + sx * i) (y + sy * j) color"
      by (intro ext) (subst line_loop.simps, simp)
    then show ?thesis using px True less.prems by (intro exI [of _ "[(i, j)]"]) (simp add: line_path_def)
  next
    case False
    have unf: "?L i j = (\<lambda>c. Option.bind (canvas_pixel (x + sx * i) (y + sy * j) color c)
      (if - dd \<le> 2 * walk_err dx dd i j then if 2 * walk_err dx dd i j \<le> dx then ?L (i + 1) (j + 1) else ?L (i + 1) j
       else if 2 * walk_err dx dd i j \<le> dx then ?L i (j + 1) else ?L i j))"
      by (intro ext) (subst line_loop.simps, simp only: neq False if_False upd, simp add: Let_def algebra_simps)
    show ?thesis
    proof (cases "dd \<le> dx")
      case w: True
      note st = near_wide_step [OF less.prems w False]
      show ?thesis
      proof (cases "2 * walk_err dx dd i j \<le> dx")
        case True
        then show ?thesis using st w unf by (intro step [of "i + 1" "j + 1"]) (auto simp: near_def)
      next
        case False
        then show ?thesis using st w unf by (intro step [of "i + 1" j]) (auto simp: near_def)
      qed
    next
      case w: False
      note st = near_tall_step [OF less.prems _ False]
      show ?thesis
      proof (cases "- dd \<le> 2 * walk_err dx dd i j")
        case True
        then show ?thesis using st w unf by (intro step [of "i + 1" "j + 1"]) (auto simp: near_def)
      next
        case False
        then show ?thesis using st w unf by (intro step [of i "j + 1"]) (auto simp: near_def)
      qed
    qed
  qed
qed

lemma near_ends:
  assumes "near dx dd a b"
  shows "dd \<le> dx \<Longrightarrow> a = 0 \<Longrightarrow> b = 0" "dd \<le> dx \<Longrightarrow> a = dx \<Longrightarrow> b = dd"
    "dx < dd \<Longrightarrow> b = 0 \<Longrightarrow> a = 0" "dx < dd \<Longrightarrow> b = dd \<Longrightarrow> a = dx"
proof -
  have n0: "v = 0" if "0 \<le> u" "0 \<le> v" "v \<le> u" "2 * (u * v) \<le> u" for u v :: int
  proof (rule ccontr)
    assume "v \<noteq> 0"
    then have "u * 1 \<le> u * v" using that by (intro mult_left_mono) auto
    then show False using that \<open>v \<noteq> 0\<close> by linarith
  qed
  note n = assms [unfolded near_def]
  show "dd \<le> dx \<Longrightarrow> a = 0 \<Longrightarrow> b = 0" using n by (intro n0 [of dx b]) (auto simp: abs_le_iff)
  show "dx < dd \<Longrightarrow> b = 0 \<Longrightarrow> a = 0" using n by (intro n0 [of dd a]) (auto simp: abs_le_iff)
  show "b = dd" if "dd \<le> dx" "a = dx"
  proof -
    have "2 * (dx * (dd - b)) \<le> dx" using n that by (simp add: abs_le_iff algebra_simps)
    then show ?thesis using n0 [of dx "dd - b"] n that by simp
  qed
  show "a = dx" if "dx < dd" "b = dd"
  proof -
    have "2 * (dd * (dx - a)) \<le> dd" using n that by (simp add: abs_le_iff algebra_simps)
    then show ?thesis using n0 [of dd "dx - a"] n that by simp
  qed
qed

definition sgn1 :: "int \<Rightarrow> int \<Rightarrow> int" where
  "sgn1 a b = (if a < b then 1 else -1)"

definition along :: "int \<Rightarrow> int \<Rightarrow> int \<Rightarrow> int \<Rightarrow> int \<times> int \<Rightarrow> int \<times> int" where
  "along x1 y1 x2 y2 = (\<lambda>(a, b). (x1 + sgn1 x1 x2 * a, y1 + sgn1 y1 y2 * b))"

lemma canvas_line_path:
  "\<exists>ps. line_path \<bar>x2 - x1\<bar> \<bar>y2 - y1\<bar> 0 0 ps \<and>
     draws (canvas_line x1 y1 x2 y2 color) (along x1 y1 x2 y2 ` set ps) color"
proof -
  let ?dx = "\<bar>x2 - x1\<bar>" and ?dd = "\<bar>y2 - y1\<bar>"
  have s: "sgn1 x1 x2 \<noteq> 0" "sgn1 y1 y2 \<noteq> 0" by (simp_all add: sgn1_def)
  have n: "near ?dx ?dd 0 0" by (simp add: near_def)
  have e: "x1 + sgn1 x1 x2 * ?dx = x2" "y1 + sgn1 y1 y2 * ?dd = y2" by (auto simp: sgn1_def)
  have "canvas_line x1 y1 x2 y2 color =
      line_loop x2 y2 ?dx (- ?dd) (sgn1 x1 x2) (sgn1 y1 y2) color x1 y1 (walk_err ?dx ?dd 0 0)"
    by (rule ext) (simp add: canvas_line_def abs_int_def sgn1_def walk_err_def abs_if Let_def)
  then show ?thesis using line_loop_draws [OF s n, of x1 y1 color] unfolding e along_def by simp
qed

lemma line_path_ends:
  assumes "line_path dx dd 0 0 ps" "0 \<le> dx" "0 \<le> dd"
  shows "ps \<noteq> []" "hd ps = (0, 0)" "last ps = (dx, dd)" "int (length ps) = max dx dd + 1"
proof -
  have near: "near dx dd (fst p) (snd p)" if "p \<in> set ps" for p
    using assms(1) that by (auto simp: line_path_def list_all_iff)
  have "ps \<noteq> [] \<and> hd ps = (0, 0) \<and> last ps = (dx, dd) \<and> int (length ps) = max dx dd + 1"
  proof (cases "dd \<le> dx")
    case True
    then have m: "map fst ps = [0..dx]" using assms(1) by (simp add: line_path_def)
    then have ne: "ps \<noteq> []" using assms(2) by auto
    have "fst (hd ps) = 0" using arg_cong [OF m, of hd] ne assms(2) by (simp add: hd_map upto_rec1)
    moreover have "fst (last ps) = dx" using arg_cong [OF m, of last] ne assms(2) by (simp add: last_map upto_rec2)
    moreover have "int (length ps) = dx + 1" using arg_cong [OF m, of length] assms(2) by simp
    ultimately show ?thesis
      using ne True near_ends(1) [OF near [of "hd ps"]] near_ends(2) [OF near [of "last ps"]] by (auto simp: prod_eq_iff)
  next
    case False
    then have m: "map snd ps = [0..dd]" using assms(1) by (simp add: line_path_def)
    then have ne: "ps \<noteq> []" using assms(3) by auto
    have "snd (hd ps) = 0" using arg_cong [OF m, of hd] ne assms(3) by (simp add: hd_map upto_rec1)
    moreover have "snd (last ps) = dd" using arg_cong [OF m, of last] ne assms(3) by (simp add: last_map upto_rec2)
    moreover have "int (length ps) = dd + 1" using arg_cong [OF m, of length] assms(3) by simp
    ultimately show ?thesis
      using ne False near_ends(3) [OF near [of "hd ps"]] near_ends(4) [OF near [of "last ps"]] by (auto simp: prod_eq_iff)
  qed
  then show "ps \<noteq> []" "hd ps = (0, 0)" "last ps = (dx, dd)" "int (length ps) = max dx dd + 1" by blast+
qed

text \<open>Distance from the ideal line, in the coordinates of the canvas.\<close>

lemma near_along:
  assumes "near \<bar>x2 - x1\<bar> \<bar>y2 - y1\<bar> a b" "along x1 y1 x2 y2 (a, b) = (px, py)"
  shows "2 * \<bar>(px - x1) * (y2 - y1) - (py - y1) * (x2 - x1)\<bar> \<le> max \<bar>x2 - x1\<bar> \<bar>y2 - y1\<bar>"
    "min x1 x2 \<le> px" "px \<le> max x1 x2" "min y1 y2 \<le> py" "py \<le> max y1 y2"
proof -
  have p: "px = x1 + sgn1 x1 x2 * a" "py = y1 + sgn1 y1 y2 * b" using assms(2) by (auto simp: along_def)
  have e: "x2 - x1 = sgn1 x1 x2 * \<bar>x2 - x1\<bar>" "y2 - y1 = sgn1 y1 y2 * \<bar>y2 - y1\<bar>" by (auto simp: sgn1_def)
  have "(px - x1) * (y2 - y1) - (py - y1) * (x2 - x1) =
      sgn1 x1 x2 * sgn1 y1 y2 * (\<bar>y2 - y1\<bar> * a - \<bar>x2 - x1\<bar> * b)"
    by (subst e(1), subst e(2)) (simp add: p algebra_simps)
  then have "\<bar>(px - x1) * (y2 - y1) - (py - y1) * (x2 - x1)\<bar> = \<bar>\<bar>y2 - y1\<bar> * a - \<bar>x2 - x1\<bar> * b\<bar>"
    by (simp add: abs_mult sgn1_def)
  then show "2 * \<bar>(px - x1) * (y2 - y1) - (py - y1) * (x2 - x1)\<bar> \<le> max \<bar>x2 - x1\<bar> \<bar>y2 - y1\<bar>"
    using assms(1) abs_mult [of 2 "\<bar>y2 - y1\<bar> * a - \<bar>x2 - x1\<bar> * b"] unfolding near_def abs_numeral by argo
  show "min x1 x2 \<le> px" "px \<le> max x1 x2" "min y1 y2 \<le> py" "py \<le> max y1 y2"
    using assms(1) by (auto simp: near_def p sgn1_def)
qed

lemma draws_line_h: "draws (canvas_line x1 y x2 y color) (hline y x1 x2) color"
proof -
  obtain ps where ps: "line_path \<bar>x2 - x1\<bar> \<bar>y - y\<bar> 0 0 ps" "draws (canvas_line x1 y x2 y color) (along x1 y x2 y ` set ps) color"
    using canvas_line_path by blast
  then have m: "map fst ps = [0..\<bar>x2 - x1\<bar>]" by (simp add: line_path_def)
  have b: "snd p = 0" if "p \<in> set ps" for p
    using that ps(1) by (auto simp: line_path_def list_all_iff near_def)
  have "along x1 y x2 y ` set ps = (\<lambda>a. (x1 + sgn1 x1 x2 * a, y)) ` fst ` set ps"
    unfolding image_image by (rule image_cong) (auto simp: along_def dest: b)
  also have "fst ` set ps = {0..\<bar>x2 - x1\<bar>}" unfolding set_map [symmetric] m by simp
  also have "(\<lambda>a. (x1 + sgn1 x1 x2 * a, y)) ` {0..\<bar>x2 - x1\<bar>} = hline y x1 x2"
  proof (intro set_eqI iffI)
    fix q assume "q \<in> hline y x1 x2"
    then obtain px where "q = (px, y)" "min x1 x2 \<le> px" "px \<le> max x1 x2" by (auto simp: hline_def)
    then show "q \<in> (\<lambda>a. (x1 + sgn1 x1 x2 * a, y)) ` {0..\<bar>x2 - x1\<bar>}"
      by (intro image_eqI [of _ _ "\<bar>px - x1\<bar>"]) (auto simp: sgn1_def)
  qed (auto simp: hline_def sgn1_def)
  finally show ?thesis using ps(2) by simp
qed

definition vline :: "int \<Rightarrow> int \<Rightarrow> int \<Rightarrow> (int \<times> int) set" where
  "vline x y0 y1 = {(x', y) | x' y. x' = x \<and> min y0 y1 \<le> y \<and> y \<le> max y0 y1}"

lemma draws_line_v: "draws (canvas_line x y1 x y2 color) (vline x y1 y2) color"
proof -
  let ?d = "\<bar>y2 - y1\<bar>"
  obtain ps where ps: "line_path \<bar>x - x\<bar> ?d 0 0 ps" "draws (canvas_line x y1 x y2 color) (along x y1 x y2 ` set ps) color"
    using canvas_line_path by blast
  then have a: "fst p = 0" "0 \<le> snd p \<and> snd p \<le> ?d" if "p \<in> set ps" for p
    using that by (auto simp: line_path_def list_all_iff near_def)
  have "snd ` set ps = {0..?d}"
  proof (cases "?d = 0")
    case True
    then have "map fst ps = [0]" using ps(1) by (simp add: line_path_def)
    then obtain p where "ps = [p]" by auto
    then show ?thesis using a(2) [of p] True by auto
  next
    case False
    then have "map snd ps = [0..?d]" using ps(1) by (simp add: line_path_def)
    then show ?thesis unfolding set_map [symmetric] by simp
  qed
  moreover have "along x y1 x y2 ` set ps = (\<lambda>b. (x, y1 + sgn1 y1 y2 * b)) ` snd ` set ps"
    unfolding image_image by (rule image_cong) (auto simp: along_def dest: a(1))
  moreover have "(\<lambda>b. (x, y1 + sgn1 y1 y2 * b)) ` {0..?d} = vline x y1 y2"
  proof (intro set_eqI iffI)
    fix q assume "q \<in> vline x y1 y2"
    then obtain py where "q = (x, py)" "min y1 y2 \<le> py" "py \<le> max y1 y2" by (auto simp: vline_def)
    then show "q \<in> (\<lambda>b. (x, y1 + sgn1 y1 y2 * b)) ` {0..?d}"
      by (intro image_eqI [of _ _ "\<bar>py - y1\<bar>"]) (auto simp: sgn1_def)
  qed (auto simp: vline_def sgn1_def)
  ultimately show ?thesis using ps(2) by simp
qed

definition border :: "int \<Rightarrow> int \<Rightarrow> int \<Rightarrow> int \<Rightarrow> (int \<times> int) set" where
  "border x y w h = {(px, py) \<in> box x y w h. px = x \<or> px = x + w - 1 \<or> py = y \<or> py = y + h - 1}"

lemma draws_rect: "draws (canvas_rect x y w h color) (border x y w h) color"
proof (cases "w \<le> 0 \<or> h \<le> 0")
  case True
  then have "canvas_rect x y w h color = Some" by (auto simp: canvas_rect_def fun_eq_iff)
  then show ?thesis using True draws_off [of "border x y w h" color] by (auto simp: border_def box_def)
next
  case False
  note d = draws_bind [OF draws_line_h [of x y "x + w - 1" color] draws_bind [OF draws_line_v [of x y "y + h - 1" color]
    draws_bind [OF draws_line_v [of "x + w - 1" y "y + h - 1" color] draws_line_h [of x "y + h - 1" "x + w - 1" color]]]]
  have e: "canvas_rect x y w h color = (\<lambda>c. Option.bind (canvas_line x y (x + w - 1) y color c) (\<lambda>c.
        Option.bind (canvas_line x y x (y + h - 1) color c) (\<lambda>c.
        Option.bind (canvas_line (x + w - 1) y (x + w - 1) (y + h - 1) color c) (\<lambda>c.
        canvas_line x (y + h - 1) (x + w - 1) (y + h - 1) color c))))"
    using False by (intro ext) (simp add: canvas_rect_def)
  show ?thesis unfolding e by (rule draws_cong [OF d]) (use False in \<open>auto simp: border_def box_def hline_def vline_def\<close>)
qed

section \<open>Triangles\<close>

text \<open>A point inside is a weighted mean of the corners, so it lies in their bounding box.\<close>

lemma mean_bounds:
  fixes w0 :: int
  assumes "0 \<le> w0" "0 \<le> w1" "0 \<le> w2" "w0 + w1 + w2 = a" "0 < a" "w0 * x1 + w1 * x2 + w2 * x3 = a * p"
  shows "min3 x1 x2 x3 \<le> p" "p \<le> max3 x1 x2 x3"
proof -
  have m: "min3 x1 x2 x3 \<le> x1" "min3 x1 x2 x3 \<le> x2" "min3 x1 x2 x3 \<le> x3"
    "x1 \<le> max3 x1 x2 x3" "x2 \<le> max3 x1 x2 x3" "x3 \<le> max3 x1 x2 x3"
    by (auto simp: min3_def max3_def Let_def)
  have "a * p \<le> w0 * max3 x1 x2 x3 + w1 * max3 x1 x2 x3 + w2 * max3 x1 x2 x3"
    unfolding assms(6) [symmetric] using assms(1-3) m by (intro add_mono mult_left_mono) auto
  also have "\<dots> = a * max3 x1 x2 x3" unfolding assms(4) [symmetric] by (simp add: algebra_simps)
  finally show "p \<le> max3 x1 x2 x3" using assms(5) by simp
  have "a * min3 x1 x2 x3 = w0 * min3 x1 x2 x3 + w1 * min3 x1 x2 x3 + w2 * min3 x1 x2 x3"
    unfolding assms(4) [symmetric] by (simp add: algebra_simps)
  also have "\<dots> \<le> a * p" unfolding assms(6) [symmetric] using assms(1-3) m by (intro add_mono mult_left_mono) auto
  finally show "min3 x1 x2 x3 \<le> p" using assms(5) by simp
qed

lemma in_triangle_box:
  assumes "in_triangle x1 y1 x2 y2 x3 y3 x y"
  shows "min3 x1 x2 x3 \<le> x" "x \<le> max3 x1 x2 x3" "min3 y1 y2 y3 \<le> y" "y \<le> max3 y1 y2 y3"
proof -
  let ?a = "edge_function x1 y1 x2 y2 x3 y3"
  let ?w0 = "edge_function x2 y2 x3 y3 x y" and ?w1 = "edge_function x3 y3 x1 y1 x y" and ?w2 = "edge_function x1 y1 x2 y2 x y"
  have id: "?w0 + ?w1 + ?w2 = ?a" "?w0 * x1 + ?w1 * x2 + ?w2 * x3 = ?a * x" "?w0 * y1 + ?w1 * y2 + ?w2 * y3 = ?a * y"
    by (simp_all add: edge_function_def algebra_simps)
  consider "0 < ?a" "0 \<le> ?w0" "0 \<le> ?w1" "0 \<le> ?w2" | "?a < 0" "?w0 \<le> 0" "?w1 \<le> 0" "?w2 \<le> 0"
    using assms by (auto simp: in_triangle_def Let_def)
  then have "min3 x1 x2 x3 \<le> x \<and> x \<le> max3 x1 x2 x3 \<and> min3 y1 y2 y3 \<le> y \<and> y \<le> max3 y1 y2 y3"
  proof cases
    case 1
    show ?thesis using mean_bounds [OF 1(2-4) id(1) 1(1) id(2)] mean_bounds [OF 1(2-4) id(1) 1(1) id(3)] by auto
  next
    case 2
    have s: "- ?w0 + - ?w1 + - ?w2 = - ?a" "- ?w0 * x1 + - ?w1 * x2 + - ?w2 * x3 = - ?a * x"
      "- ?w0 * y1 + - ?w1 * y2 + - ?w2 * y3 = - ?a * y" using id by simp_all
    have p: "0 \<le> - ?w0" "0 \<le> - ?w1" "0 \<le> - ?w2" "0 < - ?a" using 2 by simp_all
    show ?thesis using mean_bounds [OF p(1-3) s(1) p(4) s(2)] mean_bounds [OF p(1-3) s(1) p(4) s(3)] by auto
  qed
  then show "min3 x1 x2 x3 \<le> x" "x \<le> max3 x1 x2 x3" "min3 y1 y2 y3 \<le> y" "y \<le> max3 y1 y2 y3" by blast+
qed

lemma draws_filltriangle:
  assumes "edge_function x1 y1 x2 y2 x3 y3 \<noteq> 0"
  shows "draws (canvas_filltriangle x1 y1 x2 y2 x3 y3 color) {(x, y). in_triangle x1 y1 x2 y2 x3 y3 x y} color"
proof -
  let ?T = "in_triangle x1 y1 x2 y2 x3 y3"
  let ?xs = "[max 0 (min3 x1 x2 x3)..min (CANVAS_WIDTH - 1) (max3 x1 x2 x3)]"
  let ?ys = "[max 0 (min3 y1 y2 y3)..min (CANVAS_HEIGHT - 1) (max3 y1 y2 y3)]"
  have l: "(if a < 0 then 0 else a) = max 0 a" for a :: int by auto
  have r: "(if m \<le> a then m - 1 else a) = min (m - 1) a" for a m :: int by auto
  have e: "canvas_filltriangle x1 y1 x2 y2 x3 y3 color =
      fold_o (\<lambda>y. fold_o (\<lambda>x c. if ?T x y then canvas_pixel x y color c else Some c) ?xs) ?ys"
    by (rule ext) (simp only: canvas_filltriangle_def Let_def if_not_P [OF assms] l r)
  have "draws (\<lambda>c. if ?T x y then canvas_pixel x y color c else Some c) {q. q = (x, y) \<and> ?T x y} color" for x y
    using draws_pixel [of x y color] draws_skip [of color] by (cases "?T x y") auto
  then have "draws (fold_o (\<lambda>x c. if ?T x y then canvas_pixel x y color c else Some c) ?xs) (\<Union>x\<in>set ?xs. {q. q = (x, y) \<and> ?T x y}) color" for y
    by (rule draws_fold)
  then have "draws (fold_o (\<lambda>y. fold_o (\<lambda>x c. if ?T x y then canvas_pixel x y color c else Some c) ?xs) ?ys)
      (\<Union>y\<in>set ?ys. \<Union>x\<in>set ?xs. {q. q = (x, y) \<and> ?T x y}) color" by (rule draws_fold)
  then show ?thesis unfolding e
  proof (rule draws_cong)
    fix x y assume "on_canvas x y"
    then have "x \<in> set ?xs \<and> y \<in> set ?ys" if "?T x y" using in_triangle_box [OF that] by (auto simp: on_canvas_def)
    then show "(x, y) \<in> (\<Union>y\<in>set ?ys. \<Union>x\<in>set ?xs. {q. q = (x, y) \<and> ?T x y}) \<longleftrightarrow> (x, y) \<in> {(x, y). ?T x y}"
      by auto
  qed
qed

section \<open>Ellipses\<close>

lemma extent_loop_ok:
  assumes "0 < r2" "0 \<le> p" "p = 0 \<and> 0 \<le> inside \<or> 0 < p \<and> (p - 1) * (p - 1) * r2 \<le> inside"
  shows "\<exists>q. extent_loop r2 inside p = Some q \<and> 0 < q \<and> (q - 1) * (q - 1) * r2 \<le> inside \<and> inside < q * q * r2"
  using assms(2,3)
proof (induction "nat (inside + 1 - p)" arbitrary: p rule: less_induct)
  case less
  show ?case
  proof (cases "p * p * r2 \<le> inside")
    case True
    have "p \<le> p * p * r2"
    proof (cases "p = 0")
      case False
      then have "1 \<le> p * r2" using less.prems(1) assms(1) by (simp add: int_one_le_iff_zero_less)
      then have "p * 1 \<le> p * (p * r2)" using less.prems(1) by (rule mult_left_mono)
      then show ?thesis by (simp add: mult.assoc)
    qed simp
    then have "nat (inside + 1 - (p + 1)) < nat (inside + 1 - p)" using True by simp
    then have "\<exists>q. extent_loop r2 inside (p + 1) = Some q \<and> 0 < q \<and> (q - 1) * (q - 1) * r2 \<le> inside \<and> inside < q * q * r2"
      using less.hyps [of "p + 1"] less.prems True by simp
    then show ?thesis using True by (subst extent_loop.simps) simp
  next
    case False
    moreover from this less.prems have "0 < p" by auto
    ultimately show ?thesis using less.prems by (subst extent_loop.simps) auto
  qed
qed

lemma square_le_iff: "0 \<le> q \<Longrightarrow> v * v \<le> q * q \<longleftrightarrow> \<bar>v\<bar> \<le> (q :: int)"
  using abs_le_square_iff [of v q] by (simp add: power2_eq_square)

text \<open>The loop finds the extent of a row: the largest \<open>v\<close> with \<open>v * v * r2 <= inside\<close>.\<close>

lemma extent_span:
  fixes r2 :: int
  assumes "0 < r2" "0 < q" "(q - 1) * (q - 1) * r2 \<le> inside" "inside < q * q * r2"
  shows "v * v * r2 \<le> inside \<longleftrightarrow> \<bar>v\<bar> \<le> q - 1"
proof
  assume "v * v * r2 \<le> inside"
  then have "v * v * r2 < q * q * r2" using assms(4) by (rule le_less_trans)
  then have "v * v < q * q" unfolding mult_less_cancel_right_pos [OF assms(1)] .
  then have "\<not> q \<le> \<bar>v\<bar>" using mult_mono [of q "\<bar>v\<bar>" q "\<bar>v\<bar>"] assms(2) by auto
  then show "\<bar>v\<bar> \<le> q - 1" by simp
next
  assume "\<bar>v\<bar> \<le> q - 1"
  then have "v * v \<le> (q - 1) * (q - 1)" using square_le_iff [of "q - 1" v] assms(2) by simp
  then have "v * v * r2 \<le> (q - 1) * (q - 1) * r2" using assms(1) by (intro mult_right_mono) auto
  then show "v * v * r2 \<le> inside" using assms(3) by simp
qed

definition ellipse :: "int \<Rightarrow> int \<Rightarrow> int \<Rightarrow> int \<Rightarrow> (int \<times> int) set" where
  "ellipse x y rx ry = {(px, py). \<bar>px - x\<bar> \<le> rx \<and> \<bar>py - y\<bar> \<le> ry \<and>
     (px - x) * (px - x) * (ry * ry) + (py - y) * (py - y) * (rx * rx) \<le> rx * rx * (ry * ry)}"

lemma square_nonneg_diff: "\<bar>u\<bar> \<le> r \<Longrightarrow> 0 \<le> r * r - u * (u :: int)"
  using square_le_iff [of r u] by simp

lemma ellipse_row:
  assumes "0 < rx" "0 < ry" "0 < q" "(q - 1) * (q - 1) * (ry * ry) \<le> rx * rx * (ry * ry - v * v)"
    "rx * rx * (ry * ry - v * v) < q * q * (ry * ry)" "\<bar>v\<bar> \<le> ry"
  shows "(px, y + v) \<in> ellipse x y rx ry \<longleftrightarrow> \<bar>px - x\<bar> \<le> q - 1"
proof -
  have "0 < ry * ry" using assms(2) by simp
  note sp = extent_span [OF this assms(3-5)]
  have "(px - x) * (px - x) * (ry * ry) + v * v * (rx * rx) \<le> rx * rx * (ry * ry) \<longleftrightarrow>
      (px - x) * (px - x) * (ry * ry) \<le> rx * rx * (ry * ry - v * v)" by (simp add: algebra_simps)
  moreover have "\<bar>px - x\<bar> \<le> rx" if "(px - x) * (px - x) * (ry * ry) \<le> rx * rx * (ry * ry - v * v)"
  proof -
    have "rx * rx * (ry * ry - v * v) \<le> rx * rx * (ry * ry)" by (intro mult_left_mono) auto
    then have "(px - x) * (px - x) * (ry * ry) \<le> rx * rx * (ry * ry)" using that by linarith
    then have "(px - x) * (px - x) \<le> rx * rx" unfolding mult_le_cancel_right_pos [OF \<open>0 < ry * ry\<close>] .
    then show ?thesis using square_le_iff [of rx "px - x"] assms(1) by simp
  qed
  ultimately show ?thesis using sp assms(6) by (auto simp: ellipse_def)
qed

lemma draws_fillellipse: "draws (canvas_fillellipse x y rx ry color) (ellipse x y rx ry) color"
proof -
  consider "rx < 0 \<or> ry < 0" | "rx = 0" "ry = 0" | "rx = 0" "0 < ry" | "0 < rx" "ry = 0" | "0 < rx" "0 < ry" by linarith
  then show ?thesis
  proof cases
    case 1
    then have "canvas_fillellipse x y rx ry color = Some" by (auto simp: canvas_fillellipse_def fun_eq_iff)
    moreover have "ellipse x y rx ry = {}" using 1 by (auto simp: ellipse_def)
    ultimately show ?thesis using draws_skip by simp
  next
    case 2
    then have "canvas_fillellipse x y rx ry color = canvas_pixel x y color" by (simp add: canvas_fillellipse_def fun_eq_iff)
    then show ?thesis using 2 by (auto simp: ellipse_def intro!: draws_cong [OF draws_pixel])
  next
    case 3
    then have e: "canvas_fillellipse x y rx ry color = fold_o (\<lambda>py. canvas_pixel x (y + py) color) [- ry..ry]"
      by (simp add: canvas_fillellipse_def fun_eq_iff)
    have d: "draws (fold_o (\<lambda>py. canvas_pixel x (y + py) color) [- ry..ry]) (\<Union>py\<in>set [- ry..ry]. {(x, y + py)}) color"
      by (rule draws_fold, rule draws_pixel)
    have "(px, py) \<in> (\<Union>py\<in>set [- ry..ry]. {(x, y + py)}) \<longleftrightarrow> (px, py) \<in> ellipse x y rx ry" for px py
      using 3 by (auto simp: ellipse_def intro!: bexI [of _ "py - y"])
    then show ?thesis unfolding e by (rule draws_cong [OF d])
  next
    case 4
    then have "canvas_fillellipse x y rx ry color = draw_hline y (x - rx) (x + rx) color"
      by (simp add: canvas_fillellipse_def fun_eq_iff)
    then show ?thesis using 4 by (auto simp: ellipse_def hline_def intro!: draws_cong [OF draws_hline])
  next
    case 5
    let ?row = "\<lambda>py c. Option.bind (extent_loop (ry * ry) (rx * rx * (ry * ry - py * py)) 0)
      (\<lambda>px. draw_hline (y + py) (x - (px - 1)) (x + (px - 1)) color c)"
    have e: "canvas_fillellipse x y rx ry color = fold_o ?row [- ry..ry]"
      using 5 by (intro ext) (simp add: canvas_fillellipse_def Let_def)
    have "draws (?row v) {(px, py). py = y + v \<and> (px, py) \<in> ellipse x y rx ry} color" if "v \<in> set [- ry..ry]" for v
    proof -
      have v: "\<bar>v\<bar> \<le> ry" using that by auto
      have "0 < ry * ry" "0 \<le> rx * rx * (ry * ry - v * v)" using 5 square_nonneg_diff [OF v] by simp_all
      then obtain q where q: "extent_loop (ry * ry) (rx * rx * (ry * ry - v * v)) 0 = Some q" "0 < q"
        "(q - 1) * (q - 1) * (ry * ry) \<le> rx * rx * (ry * ry - v * v)" "rx * rx * (ry * ry - v * v) < q * q * (ry * ry)"
        using extent_loop_ok [of "ry * ry" 0 "rx * rx * (ry * ry - v * v)"] by auto
      note r = ellipse_row [OF 5 q(2-4) v, where x = x and y = y]
      have h: "(px, py) \<in> hline (y + v) (x - (q - 1)) (x + (q - 1)) \<longleftrightarrow> py = y + v \<and> \<bar>px - x\<bar> \<le> q - 1" for px py
        using q(2) unfolding hline_def by auto
      have "draws (draw_hline (y + v) (x - (q - 1)) (x + (q - 1)) color) {(px, py). py = y + v \<and> (px, py) \<in> ellipse x y rx ry} color"
        by (rule draws_cong [OF draws_hline]) (unfold h r [symmetric], auto)
      then show ?thesis by (simp add: q(1))
    qed
    then have "draws (fold_o ?row [- ry..ry]) (\<Union>v\<in>set [- ry..ry]. {(px, py). py = y + v \<and> (px, py) \<in> ellipse x y rx ry}) color"
      by (rule draws_fold)
    then show ?thesis unfolding e
    proof (rule draws_cong)
      fix px py
      have "py - y \<in> set [- ry..ry]" if "(px, py) \<in> ellipse x y rx ry" using that by (auto simp: ellipse_def)
      then show "(px, py) \<in> (\<Union>v\<in>set [- ry..ry]. {(px, py). py = y + v \<and> (px, py) \<in> ellipse x y rx ry}) \<longleftrightarrow>
          (px, py) \<in> ellipse x y rx ry" by force
    qed
  qed
qed

end
