(* ===== verification/DrawShapes.thy ===== *)
theory DrawShapes
  imports DrawSpec "HOL-Library.Multiset"
begin

text \<open>
  The remaining shapes of theory \<open>Drawlib\<close>: outlines of ellipses, circles,
  polygons and the sort they use; and the properties of the drawing library.
\<close>

section \<open>Outlines of ellipses\<close>

definition outline :: "int \<Rightarrow> int \<Rightarrow> int \<Rightarrow> int \<Rightarrow> (int \<times> int) set" where
  "outline x y rx ry = {(px, py) \<in> ellipse x y rx ry. rx = 0 \<or>
     rx * rx * (ry * ry) < (px - x) * (px - x) * (ry * ry) + (\<bar>py - y\<bar> + 1) * (\<bar>py - y\<bar> + 1) * (rx * rx)}"

lemma extent_unique:
  fixes r2 :: int
  assumes "0 < r2" "0 < q" "(q - 1) * (q - 1) * r2 \<le> inside" "inside < q * q * r2"
  shows "v * v * r2 \<le> inside \<and> inside < (\<bar>v\<bar> + 1) * (\<bar>v\<bar> + 1) * r2 \<longleftrightarrow> \<bar>v\<bar> = q - 1"
proof -
  note s = extent_span [OF assms]
  have "(\<bar>v\<bar> + 1) * (\<bar>v\<bar> + 1) * r2 \<le> inside \<longleftrightarrow> \<bar>\<bar>v\<bar> + 1\<bar> \<le> q - 1" by (rule s)
  then show ?thesis using s [of v] by auto
qed

lemma outline_column:
  assumes "0 < rx" "0 \<le> ry" "0 < q" "(q - 1) * (q - 1) * (rx * rx) \<le> ry * ry * (rx * rx - u * u)"
    "ry * ry * (rx * rx - u * u) < q * q * (rx * rx)" "\<bar>u\<bar> \<le> rx"
  shows "(x + u, py) \<in> outline x y rx ry \<longleftrightarrow> \<bar>py - y\<bar> = q - 1"
proof -
  let ?v = "py - y"
  have r: "0 < rx * rx" using assms(1) by simp
  note un = extent_unique [OF r assms(3-5), of ?v]
  have e: "u * u * (ry * ry) + w * (rx * rx) \<le> rx * rx * (ry * ry) \<longleftrightarrow> w * (rx * rx) \<le> ry * ry * (rx * rx - u * u)"
    "rx * rx * (ry * ry) < u * u * (ry * ry) + w * (rx * rx) \<longleftrightarrow> ry * ry * (rx * rx - u * u) < w * (rx * rx)" for w
    by (simp_all add: algebra_simps)
  have b: "\<bar>?v\<bar> \<le> ry" if "?v * ?v * (rx * rx) \<le> ry * ry * (rx * rx - u * u)"
  proof -
    have "ry * ry * (rx * rx - u * u) \<le> ry * ry * (rx * rx)" by (intro mult_left_mono) auto
    then have "?v * ?v * (rx * rx) \<le> ry * ry * (rx * rx)" using that by linarith
    then have "?v * ?v \<le> ry * ry" unfolding mult_le_cancel_right_pos [OF r] .
    then show ?thesis using square_le_iff [OF assms(2)] by simp
  qed
  have "(x + u, py) \<in> outline x y rx ry \<longleftrightarrow>
      ?v * ?v * (rx * rx) \<le> ry * ry * (rx * rx - u * u) \<and> ry * ry * (rx * rx - u * u) < (\<bar>?v\<bar> + 1) * (\<bar>?v\<bar> + 1) * (rx * rx)"
    using b assms(1,6) unfolding outline_def ellipse_def by (simp add: e) blast
  then show ?thesis unfolding un .
qed

lemma draws_ellipse: "draws (canvas_ellipse x y rx ry color) (outline x y rx ry) color"
proof -
  consider "rx < 0 \<or> ry < 0" | "rx = 0" "ry = 0" | "rx = 0" "0 < ry" | "0 < rx" "0 \<le> ry" by linarith
  then show ?thesis
  proof cases
    case 1
    then have "canvas_ellipse x y rx ry color = Some" by (auto simp: canvas_ellipse_def fun_eq_iff)
    moreover have "outline x y rx ry = {}" using 1 by (auto simp: outline_def ellipse_def)
    ultimately show ?thesis using draws_skip by simp
  next
    case 2
    then have "canvas_ellipse x y rx ry color = canvas_pixel x y color" by (simp add: canvas_ellipse_def fun_eq_iff)
    then show ?thesis using 2 by (auto simp: outline_def ellipse_def intro!: draws_cong [OF draws_pixel])
  next
    case 3
    then have e: "canvas_ellipse x y rx ry color = fold_o (\<lambda>py. canvas_pixel x (y + py) color) [- ry..ry]"
      by (simp add: canvas_ellipse_def fun_eq_iff)
    have d: "draws (fold_o (\<lambda>py. canvas_pixel x (y + py) color) [- ry..ry]) (\<Union>py\<in>set [- ry..ry]. {(x, y + py)}) color"
      by (rule draws_fold, rule draws_pixel)
    have "(px, py) \<in> (\<Union>py\<in>set [- ry..ry]. {(x, y + py)}) \<longleftrightarrow> (px, py) \<in> outline x y rx ry" for px py
      using 3 by (auto simp: outline_def ellipse_def intro!: bexI [of _ "py - y"])
    then show ?thesis unfolding e by (rule draws_cong [OF d])
  next
    case 4
    let ?col = "\<lambda>px c. Option.bind (extent_loop (rx * rx) (ry * ry * (rx * rx - px * px)) 0)
      (\<lambda>py. Option.bind (canvas_pixel (x + px) (y + (py - 1)) color c) (canvas_pixel (x + px) (y - (py - 1)) color))"
    have e: "canvas_ellipse x y rx ry color = fold_o ?col [- rx..rx]"
      using 4 by (intro ext) (simp add: canvas_ellipse_def Let_def)
    have "draws (?col u) {(px, py). px = x + u \<and> (px, py) \<in> outline x y rx ry} color" if "u \<in> set [- rx..rx]" for u
    proof -
      have u: "\<bar>u\<bar> \<le> rx" using that by auto
      have "0 < rx * rx" "0 \<le> ry * ry * (rx * rx - u * u)" using 4 square_nonneg_diff [OF u] by simp_all
      then obtain q where q: "extent_loop (rx * rx) (ry * ry * (rx * rx - u * u)) 0 = Some q" "0 < q"
        "(q - 1) * (q - 1) * (rx * rx) \<le> ry * ry * (rx * rx - u * u)" "ry * ry * (rx * rx - u * u) < q * q * (rx * rx)"
        using extent_loop_ok [of "rx * rx" 0 "ry * ry * (rx * rx - u * u)"] by auto
      note r = outline_column [OF 4 q(2-4) u, where x = x and y = y]
      have h: "(px, py) \<in> {(x + u, y + (q - 1))} \<union> {(x + u, y - (q - 1))} \<longleftrightarrow> px = x + u \<and> \<bar>py - y\<bar> = q - 1" for px py
        using q(2) by auto
      have "draws (\<lambda>c. Option.bind (canvas_pixel (x + u) (y + (q - 1)) color c) (canvas_pixel (x + u) (y - (q - 1)) color))
          {(px, py). px = x + u \<and> (px, py) \<in> outline x y rx ry} color"
        by (rule draws_cong [OF draws_bind [OF draws_pixel draws_pixel]]) (unfold h r [symmetric], auto)
      then show ?thesis by (simp add: q(1))
    qed
    then have "draws (fold_o ?col [- rx..rx]) (\<Union>u\<in>set [- rx..rx]. {(px, py). px = x + u \<and> (px, py) \<in> outline x y rx ry}) color"
      by (rule draws_fold)
    then show ?thesis unfolding e
    proof (rule draws_cong)
      fix px py
      have "px - x \<in> set [- rx..rx]" if "(px, py) \<in> outline x y rx ry" using that by (auto simp: outline_def ellipse_def)
      then show "(px, py) \<in> (\<Union>u\<in>set [- rx..rx]. {(px, py). px = x + u \<and> (px, py) \<in> outline x y rx ry}) \<longleftrightarrow>
          (px, py) \<in> outline x y rx ry" by force
    qed
  qed
qed

section \<open>Circles\<close>

text \<open>
  A step of the midpoint loop draws at a point of the octant whose distance from
  the circle is at most half a pixel: \<open>cx\<^sup>2 + cy\<^sup>2\<close> differs from \<open>r\<^sup>2\<close> by at most \<open>cx\<close>.
\<close>

definition octant :: "int \<Rightarrow> int \<Rightarrow> int \<Rightarrow> bool" where
  "octant r cx cy \<longleftrightarrow> 0 \<le> cy \<and> cy \<le> cx \<and> cx \<le> r \<and> \<bar>cx * cx + cy * cy - r * r\<bar> \<le> cx"

lemma circle_loop_draws:
  assumes body: "\<And>cx cy. octant r cx cy \<Longrightarrow> draws (body cx cy) (B cx cy) color"
    and inv: "err = (cy + 1) * (cy + 1) + cx * cx - cx - r * r" "cy \<le> cx \<longrightarrow> octant r cx cy" "0 \<le> cy" "cx \<le> r"
  shows "\<exists>P. P \<subseteq> {(cx, cy). octant r cx cy} \<and> (cy \<le> cx \<longrightarrow> (cx, cy) \<in> P) \<and>
    draws (circle_loop body cx cy err) (\<Union>(cx, cy)\<in>P. B cx cy) color"
  using inv
proof (induction "nat (cx - cy + 1)" arbitrary: cx cy err rule: less_induct)
  case less
  show ?case
  proof (cases "cy \<le> cx")
    case False
    then have "circle_loop body cx cy err = Some" by (intro ext) simp
    then show ?thesis using False draws_skip by (intro exI [of _ "{}"]) simp
  next
    case True
    then have o: "octant r cx cy" using less.prems(2) by blast
    note o' = o [unfolded octant_def abs_le_iff]
    let ?cx = "if err < 0 then cx else cx - 1"
    let ?err = "(cy + 1 + 1) * (cy + 1 + 1) + ?cx * ?cx - ?cx - r * r"
    have unf: "circle_loop body cx cy err = (\<lambda>c. Option.bind (body cx cy c) (circle_loop body ?cx (cy + 1) ?err))"
    proof
      have e: "err + 2 * (cy + 1) + 1 = (cy + 1 + 1) * (cy + 1 + 1) + cx * cx - cx - r * r"
        "err + 2 * (cy + 1 - (cx - 1)) + 1 = (cy + 1 + 1) * (cy + 1 + 1) + (cx - 1) * (cx - 1) - (cx - 1) - r * r"
        unfolding less.prems(1) by (simp_all add: algebra_simps)
      show "circle_loop body cx cy err c = Option.bind (body cx cy c) (circle_loop body ?cx (cy + 1) ?err)" for c
        by (cases "err < 0"; subst circle_loop.simps) (simp_all only: True Let_def e if_True if_False)
    qed
    have "octant r ?cx (cy + 1)" if "cy + 1 \<le> ?cx"
      using that o' less.prems(1) by (auto simp: octant_def abs_le_iff algebra_simps split: if_splits)
    then have oc: "cy + 1 \<le> ?cx \<longrightarrow> octant r ?cx (cy + 1)" by blast
    have "nat (?cx - (cy + 1) + 1) < nat (cx - cy + 1)" "0 \<le> cy + 1" "?cx \<le> r" using True o' by auto
    then obtain P where P: "P \<subseteq> {(cx, cy). octant r cx cy}"
      "draws (circle_loop body ?cx (cy + 1) ?err) (\<Union>(cx, cy)\<in>P. B cx cy) color"
      using less.hyps [OF _ refl oc] by blast
    have "draws (circle_loop body cx cy err) (B cx cy \<union> (\<Union>(cx, cy)\<in>P. B cx cy)) color"
      unfolding unf by (rule draws_bind [OF body [OF o] P(2)])
    then show ?thesis using P(1) o by (intro exI [of _ "insert (cx, cy) P"]) simp
  qed
qed

lemma circle_draws:
  assumes "0 \<le> r" "\<And>cx cy. octant r cx cy \<Longrightarrow> draws (body cx cy) (B cx cy) color"
  obtains P where "P \<subseteq> {(cx, cy). octant r cx cy}" "(r, 0) \<in> P"
    "draws (circle_loop body r 0 (1 - r)) (\<Union>(cx, cy)\<in>P. B cx cy) color"
proof -
  have o: "1 - r = (0 + 1) * (0 + 1) + r * r - r - r * r" "0 \<le> r \<longrightarrow> octant r r 0" by (simp_all add: octant_def)
  show ?thesis using circle_loop_draws [where B = B, OF assms(2) o order_refl order_refl] that assms(1) by blast
qed

definition reflect :: "int \<Rightarrow> int \<Rightarrow> int \<Rightarrow> int \<Rightarrow> (int \<times> int) set" where
  "reflect x y cx cy = {(px, py). (\<bar>px - x\<bar> = cx \<and> \<bar>py - y\<bar> = cy) \<or> (\<bar>px - x\<bar> = cy \<and> \<bar>py - y\<bar> = cx)}"

lemma draws_circle_points: "0 \<le> cx \<Longrightarrow> 0 \<le> cy \<Longrightarrow> draws (circle_points x y color cx cy) (reflect x y cx cy) color"
  unfolding circle_points_def
proof (rule draws_cong, rule draws_fold [where S = "\<lambda>p. {p}"])
  show "draws (case p of (a, b) \<Rightarrow> canvas_pixel a b color) {p} color" for p using draws_pixel by (cases p) simp
  have a: "\<bar>p - q\<bar> = d \<longleftrightarrow> p = q + d \<or> p = q - d" if "0 \<le> d" for p q d :: int using that by auto
  fix px py assume c: "0 \<le> cx" "0 \<le> cy"
  show "(px, py) \<in> (\<Union>p\<in>set [(x + cx, y + cy), (x + cy, y + cx), (x - cy, y + cx), (x - cx, y + cy),
      (x - cx, y - cy), (x - cy, y - cx), (x + cy, y - cx), (x + cx, y - cy)]. {p}) \<longleftrightarrow> (px, py) \<in> reflect x y cx cy"
    unfolding reflect_def mem_Collect_eq prod.case a [OF c(1)] a [OF c(2)] by simp blast
qed

definition spans :: "int \<Rightarrow> int \<Rightarrow> int \<Rightarrow> int \<Rightarrow> (int \<times> int) set" where
  "spans x y cx cy = {(px, py). (\<bar>px - x\<bar> \<le> cx \<and> \<bar>py - y\<bar> = cy) \<or> (\<bar>px - x\<bar> \<le> cy \<and> \<bar>py - y\<bar> = cx)}"

lemma draws_circle_spans: "0 \<le> cx \<Longrightarrow> 0 \<le> cy \<Longrightarrow> draws (circle_spans x y color cx cy) (spans x y cx cy) color"
  unfolding circle_spans_def
proof (rule draws_cong, rule draws_fold [where S = "\<lambda>(row, a, b). hline row a b"])
  show "draws (case p of (row, a, b) \<Rightarrow> draw_hline row a b color) (case p of (row, a, b) \<Rightarrow> hline row a b) color" for p
    using draws_hline by (cases p) simp
qed (auto simp: spans_def hline_def abs_if)

text \<open>Every point drawn for a circle is within half a pixel of it, and the four extreme points are drawn.\<close>

definition circle_like :: "int \<Rightarrow> int \<Rightarrow> int \<Rightarrow> (int \<times> int) set \<Rightarrow> bool" where
  "circle_like x y r S \<longleftrightarrow>
     (\<forall>(px, py)\<in>S. \<bar>(px - x) * (px - x) + (py - y) * (py - y) - r * r\<bar> \<le> max \<bar>px - x\<bar> \<bar>py - y\<bar> \<and> max \<bar>px - x\<bar> \<bar>py - y\<bar> \<le> r) \<and>
     {(x + r, y), (x - r, y), (x, y + r), (x, y - r)} \<subseteq> S \<and>
     (\<forall>u v. (x + u, y + v) \<in> S \<longrightarrow> {(x - u, y + v), (x + u, y - v), (x + v, y + u)} \<subseteq> S)"

lemma circle_like_union:
  assumes "P \<subseteq> {(cx, cy). octant r cx cy}" "(r, 0) \<in> P" "0 \<le> r"
  shows "circle_like x y r (\<Union>(cx, cy)\<in>P. reflect x y cx cy)"
proof -
  have in1: "\<bar>u * u + v * v - r * r\<bar> \<le> max \<bar>u\<bar> \<bar>v\<bar> \<and> max \<bar>u\<bar> \<bar>v\<bar> \<le> r"
    if o: "octant r cx cy" and uv: "\<bar>u\<bar> = cx \<and> \<bar>v\<bar> = cy \<or> \<bar>u\<bar> = cy \<and> \<bar>v\<bar> = cx" for u v cx cy
  proof -
    have c: "cy \<le> cx" using o by (simp add: octant_def)
    have "u * u = \<bar>u\<bar> * \<bar>u\<bar>" "v * v = \<bar>v\<bar> * \<bar>v\<bar>" by simp_all
    then have "u * u + v * v = cx * cx + cy * cy" using uv by (elim disjE) (simp_all only: add.commute)
    moreover have "max \<bar>u\<bar> \<bar>v\<bar> = cx" using uv c by linarith
    ultimately show ?thesis using o by (simp add: octant_def)
  qed
  have "\<bar>(px - x) * (px - x) + (py - y) * (py - y) - r * r\<bar> \<le> max \<bar>px - x\<bar> \<bar>py - y\<bar> \<and> max \<bar>px - x\<bar> \<bar>py - y\<bar> \<le> r"
    if o: "octant r cx cy" and m: "(px, py) \<in> reflect x y cx cy" for px py cx cy
    by (rule in1 [OF o]) (use m in \<open>simp add: reflect_def\<close>)
  then have 1: "\<forall>(px, py)\<in>(\<Union>(cx, cy)\<in>P. reflect x y cx cy).
      \<bar>(px - x) * (px - x) + (py - y) * (py - y) - r * r\<bar> \<le> max \<bar>px - x\<bar> \<bar>py - y\<bar> \<and> max \<bar>px - x\<bar> \<bar>py - y\<bar> \<le> r"
    using assms(1) unfolding split_paired_Ball_Sigma by (auto simp del: max_less_iff_conj max.bounded_iff)
  have 2: "{(x + r, y), (x - r, y), (x, y + r), (x, y - r)} \<subseteq> reflect x y r 0" using assms(3) by (auto simp: reflect_def)
  have 3: "{(x - u, y + v), (x + u, y - v), (x + v, y + u)} \<subseteq> reflect x y cx cy" if "(x + u, y + v) \<in> reflect x y cx cy" for u v cx cy
    using that by (auto simp: reflect_def)
  have "{(x + r, y), (x - r, y), (x, y + r), (x, y - r)} \<subseteq> (\<Union>(cx, cy)\<in>P. reflect x y cx cy)"
    using 2 assms(2) by (intro subset_trans [OF 2]) auto
  moreover have "{(x - u, y + v), (x + u, y - v), (x + v, y + u)} \<subseteq> (\<Union>(cx, cy)\<in>P. reflect x y cx cy)"
    if m: "(x + u, y + v) \<in> (\<Union>(cx, cy)\<in>P. reflect x y cx cy)" for u v
  proof -
    obtain cx cy where c: "(cx, cy) \<in> P" "(x + u, y + v) \<in> reflect x y cx cy" using m by blast
    show ?thesis by (rule subset_trans [OF 3 [OF c(2)]]) (use c(1) in auto)
  qed
  ultimately show ?thesis unfolding circle_like_def using 1 by blast
qed

lemma canvas_circle_like:
  assumes "0 \<le> r"
  shows "\<exists>S. circle_like x y r S \<and> draws (canvas_circle x y r color) S color"
proof -
  have b: "draws (circle_points x y color cx cy) (reflect x y cx cy) color" if "octant r cx cy" for cx cy
    using that draws_circle_points by (simp add: octant_def)
  obtain P where P: "P \<subseteq> {(cx, cy). octant r cx cy}" "(r, 0) \<in> P"
    "draws (circle_loop (circle_points x y color) r 0 (1 - r)) (\<Union>(cx, cy)\<in>P. reflect x y cx cy) color"
    by (rule circle_draws [OF assms b])
  have "canvas_circle x y r color = circle_loop (circle_points x y color) r 0 (1 - r)"
    using assms by (intro ext) (simp add: canvas_circle_def)
  then show ?thesis using circle_like_union [OF P(1,2) assms] P(3) by auto
qed

text \<open>A filled circle covers every row once, within half a pixel of the disc.\<close>

lemma canvas_fillcircle_disc:
  assumes "0 \<le> r"
  shows "\<exists>S. draws (canvas_fillcircle x y r color) S color \<and>
    (\<forall>(px, py)\<in>S. (px - x) * (px - x) + (py - y) * (py - y) \<le> r * r + r) \<and>
    {(px, py). py = y \<and> \<bar>px - x\<bar> \<le> r} \<subseteq> S"
proof -
  have b: "draws (circle_spans x y color cx cy) (spans x y cx cy) color" if "octant r cx cy" for cx cy
    using that draws_circle_spans by (simp add: octant_def)
  obtain P where P: "P \<subseteq> {(cx, cy). octant r cx cy}" "(r, 0) \<in> P"
    "draws (circle_loop (circle_spans x y color) r 0 (1 - r)) (\<Union>(cx, cy)\<in>P. spans x y cx cy) color"
    by (rule circle_draws [OF assms b])
  have e: "canvas_fillcircle x y r color = circle_loop (circle_spans x y color) r 0 (1 - r)"
    using assms by (intro ext) (simp add: canvas_fillcircle_def)
  have sq: "u * u \<le> c * c" if "\<bar>u\<bar> \<le> c" for u c :: int
    using that square_le_iff [of c u] by linarith
  have "(px - x) * (px - x) + (py - y) * (py - y) \<le> r * r + r" if o: "octant r cx cy" and m: "(px, py) \<in> spans x y cx cy" for px py cx cy
  proof -
    have "(px - x) * (px - x) + (py - y) * (py - y) \<le> cx * cx + cy * cy"
      using m sq [of "px - x" cx] sq [of "py - y" cy] sq [of "px - x" cy] sq [of "py - y" cx] unfolding spans_def by auto
    also have "\<dots> \<le> r * r + r" using o unfolding octant_def abs_le_iff by linarith
    finally show ?thesis .
  qed
  then have "\<forall>(px, py)\<in>(\<Union>(cx, cy)\<in>P. spans x y cx cy). (px - x) * (px - x) + (py - y) * (py - y) \<le> r * r + r"
    using P(1) by blast
  moreover have "{(px, py). py = y \<and> \<bar>px - x\<bar> \<le> r} \<subseteq> spans x y r 0" by (auto simp: spans_def)
  then have "{(px, py). py = y \<and> \<bar>px - x\<bar> \<le> r} \<subseteq> (\<Union>(cx, cy)\<in>P. spans x y cx cy)"
    using P(2) by blast
  ultimately show ?thesis using P(3) unfolding e by blast
qed

section \<open>Sorting\<close>

lemma swap_int_mset: "i < length vs \<Longrightarrow> j < length vs \<Longrightarrow> mset (swap_int i j vs) = mset vs"
  by (simp add: swap_int_def mset_swap)

lemma sort_step_ok:
  assumes "i < k" "k < length s" "\<And>l. i < l \<Longrightarrow> l < k \<Longrightarrow> s ! i \<le> s ! l"
  shows "mset (sort_step i k s) = mset s" "length (sort_step i k s) = length s"
    "l < i \<Longrightarrow> sort_step i k s ! l = s ! l" "k < l \<Longrightarrow> sort_step i k s ! l = s ! l"
    "i < l \<Longrightarrow> l \<le> k \<Longrightarrow> sort_step i k s ! i \<le> sort_step i k s ! l"
proof -
  show "mset (sort_step i k s) = mset s" using assms swap_int_mset [of i s k] by (simp add: sort_step_def)
  show "length (sort_step i k s) = length s" by (simp add: sort_step_def swap_int_def)
  show "l < i \<Longrightarrow> sort_step i k s ! l = s ! l" "k < l \<Longrightarrow> sort_step i k s ! l = s ! l"
    using assms by (simp_all add: sort_step_def swap_int_def nth_list_update)
  show "sort_step i k s ! i \<le> sort_step i k s ! l" if "i < l" "l \<le> k"
    using that assms(1,2) assms(3) [of l] by (cases "l = k") (auto simp: sort_step_def swap_int_def nth_list_update)
qed

lemma sort_inner_ok:
  assumes "i < n" "n = length vs" "i < k" "k \<le> n"
  defines "r \<equiv> fold (sort_step i) [i + 1..<k] vs"
  shows "mset r = mset vs" "length r = n" "\<forall>l<i. r ! l = vs ! l" "\<forall>l. i < l \<and> l < k \<longrightarrow> r ! i \<le> r ! l"
    "\<forall>l. k \<le> l \<longrightarrow> r ! l = vs ! l"
proof -
  have "mset r = mset vs \<and> length r = n \<and> (\<forall>l<i. r ! l = vs ! l) \<and> (\<forall>l. i < l \<and> l < k \<longrightarrow> r ! i \<le> r ! l) \<and>
      (\<forall>l. k \<le> l \<longrightarrow> r ! l = vs ! l)"
    using assms(3,4) unfolding r_def
  proof (induction k)
    case (Suc k)
    show ?case
    proof (cases "i < k")
      case True
      define s where "s = fold (sort_step i) [i + 1..<k] vs"
      have IH: "mset s = mset vs" "length s = n" "\<forall>l<i. s ! l = vs ! l" "\<forall>l. i < l \<and> l < k \<longrightarrow> s ! i \<le> s ! l"
        "\<forall>l. k \<le> l \<longrightarrow> s ! l = vs ! l" using Suc True unfolding s_def by auto
      have f: "fold (sort_step i) [i + 1..<Suc k] vs = sort_step i k s" using True by (simp add: s_def)
      have k: "i < length s" "k < length s" using IH Suc True by auto
      note st = sort_step_ok [OF True k(2)]
      have le: "\<And>l. i < l \<Longrightarrow> l < k \<Longrightarrow> s ! i \<le> s ! l" using IH(4) by blast
      show ?thesis unfolding f using IH st [OF le] by (auto simp: less_Suc_eq_le)
    qed (use Suc assms in \<open>auto simp: less_Suc_eq\<close>)
  qed simp
  then show "mset r = mset vs" "length r = n" "\<forall>l<i. r ! l = vs ! l" "\<forall>l. i < l \<and> l < k \<longrightarrow> r ! i \<le> r ! l"
    "\<forall>l. k \<le> l \<longrightarrow> r ! l = vs ! l" by blast+
qed

lemma sort_outer_ok:
  assumes "k \<le> length vs"
  shows "mset (fold (sort_inner (length vs)) [0..<k] vs) = mset vs \<and>
    (\<forall>a b. a < k \<and> a < b \<and> b < length vs \<longrightarrow>
      fold (sort_inner (length vs)) [0..<k] vs ! a \<le> fold (sort_inner (length vs)) [0..<k] vs ! b)"
  using assms
proof (induction k)
  case (Suc k)
  define s where "s = fold (sort_inner (length vs)) [0..<k] vs"
  have IH: "mset s = mset vs" "\<And>a b. a < k \<Longrightarrow> a < b \<Longrightarrow> b < length vs \<Longrightarrow> s ! a \<le> s ! b" using Suc unfolding s_def by auto
  have len: "length vs = length s" using IH(1) mset_eq_length by metis
  let ?r = "sort_inner (length vs) k s"
  have k: "k < length vs" using Suc by simp
  note R = sort_inner_ok [OF k len k order_refl, folded sort_inner_def]
  have "?r ! a \<le> ?r ! b" if "a < Suc k" "a < b" "b < length vs" for a b
  proof (cases "a = k")
    case False
    then have a: "a < k" using that by simp
    have "?r ! b \<in> set (drop k s)" if kb: "k \<le> b"
    proof -
      have t: "take k ?r = take k s" using R(2,3) k len by (auto intro: nth_take_lemma)
      have "mset (take k ?r) + mset (drop k ?r) = mset (take k s) + mset (drop k s)"
        using R(1) by (metis append_take_drop_id mset_append)
      then have "set (drop k ?r) = set (drop k s)" unfolding t by (metis add_left_cancel set_mset_mset)
      moreover have "?r ! b \<in> set (drop k ?r)" using kb \<open>b < length vs\<close> R(2) by (auto simp: in_set_conv_nth intro!: exI [of _ "b - k"])
      ultimately show ?thesis by simp
    qed
    moreover have "\<exists>b'. a < b' \<and> b' < length vs \<and> v = s ! b'" if v: "v \<in> set (drop k s)" for v
    proof -
      obtain n where "n < length (drop k s)" "v = drop k s ! n" using v by (auto simp: in_set_conv_nth)
      then show ?thesis using a len by (intro exI [of _ "k + n"]) auto
    qed
    ultimately have "\<exists>b'. a < b' \<and> b' < length vs \<and> ?r ! b = s ! b'"
      using a that R(3) len by (cases "b < k") auto
    then show ?thesis using IH(2) [OF a] R(3) a by auto
  qed (use that R(4) in auto)
  then show ?case using R(1) IH(1) by (simp add: s_def [symmetric])
qed simp

lemma sort_ints_sorts: "sort_ints (length vs) vs = sort vs"
proof (rule properties_for_sort [symmetric])
  note O = sort_outer_ok [of "length vs" vs, folded sort_ints_def, OF order_refl]
  show "mset (sort_ints (length vs) vs) = mset vs" using O by blast
  then have "length (sort_ints (length vs) vs) = length vs" by (metis mset_eq_length)
  then show "sorted (sort_ints (length vs) vs)" using O by (simp add: sorted_iff_nth_mono_less)
qed

section \<open>Polygons\<close>

text \<open>
  The even-odd rule: on row \<open>py\<close> a point is painted when an odd number of edges
  cross the row left of it, or when it lies on a crossing.
\<close>

definition hits :: "int list \<Rightarrow> int list \<Rightarrow> nat \<Rightarrow> int \<Rightarrow> int list" where
  "hits xs ys cnt y = List.map_filter (crossing xs ys cnt y) [0..<cnt]"

definition even_odd :: "(int \<Rightarrow> int list) \<Rightarrow> (int \<times> int) set" where
  "even_odd hs = {(px, py). px \<in> set (hs py) \<or> odd (length (filter (\<lambda>h. h < px) (hs py)))}"

lemma draws_spans:
  assumes "sorted hs" "even (length hs)"
  shows "draws (draw_spans y color hs) {(px, py). py = y \<and> (px \<in> set hs \<or> odd (length (filter (\<lambda>h. h < px) hs)))} color"
  using assms
proof (induction hs rule: induct_list012)
  case 1
  have "draw_spans y color [] = Some" by (rule ext) simp
  then show ?case using draws_skip by simp
next
  case (3 a b hs)
  then have IH: "draws (draw_spans y color hs) {(px, py). py = y \<and> (px \<in> set hs \<or> odd (length (filter (\<lambda>h. h < px) hs)))} color"
    by simp
  have e: "draw_spans y color (a # b # hs) = (\<lambda>c. Option.bind (draw_hline y a b color c) (draw_spans y color hs))"
    by (rule ext) simp
  have s: "a \<le> b" "\<And>h. h \<in> set hs \<Longrightarrow> b \<le> h" using 3(3) by auto
  have f: "filter (\<lambda>h. h < px) hs = []" if "px \<le> b" for px
    unfolding filter_empty_conv using s(2) that by (meson not_less order_trans)
  have "(px, py) \<in> hline y a b \<union> {(px, py). py = y \<and> (px \<in> set hs \<or> odd (length (filter (\<lambda>h. h < px) hs)))} \<longleftrightarrow>
      (px, py) \<in> {(px, py). py = y \<and> (px \<in> set (a # b # hs) \<or> odd (length (filter (\<lambda>h. h < px) (a # b # hs))))}" for px py
    using s f [of px] by (cases "px \<le> b") (auto simp: hline_def)
  then show ?case unfolding e by (rule draws_cong [OF draws_bind [OF draws_hline IH]])
qed simp

lemma even_changes:
  fixes P :: "nat \<Rightarrow> bool"
  shows "even (length (filter (\<lambda>i. P i \<noteq> P (i + 1)) [0..<m])) \<longleftrightarrow> P 0 = P m"
  by (induction m) auto

lemma even_cycle:
  fixes P :: "nat \<Rightarrow> bool"
  assumes "0 < n"
  shows "even (length (filter (\<lambda>i. P i \<noteq> P ((i + 1) mod n)) [0..<n]))"
proof -
  obtain m where n: "n = Suc m" using assms gr0_implies_Suc by blast
  have "filter (\<lambda>i. P i \<noteq> P ((i + 1) mod n)) [0..<m] = filter (\<lambda>i. P i \<noteq> P (i + 1)) [0..<m]"
    unfolding n by (intro filter_cong) auto
  then show ?thesis using even_changes [of P m] by (auto simp: n)
qed

lemma even_hits:
  assumes "0 < cnt"
  shows "even (length (hits xs ys cnt y))"
proof -
  have "crossing xs ys cnt y i \<noteq> None \<longleftrightarrow> (ys ! i \<le> y) \<noteq> (ys ! ((i + 1) mod cnt) \<le> y)" for i
    by (auto simp: crossing_def Let_def)
  then show ?thesis
    using even_cycle [OF assms, of "\<lambda>i. ys ! i \<le> y"] by (simp add: hits_def map_filter_def)
qed

lemma fold_bounds:
  shows "fold (\<lambda>i m. if f i < m then f i else m) ks (m :: int) \<le> m"
    "i \<in> set ks \<Longrightarrow> fold (\<lambda>i m. if f i < m then f i else m) ks m \<le> f i"
    "m \<le> fold (\<lambda>i m. if m < f i then f i else m) ks m"
    "i \<in> set ks \<Longrightarrow> f i \<le> fold (\<lambda>i m. if m < f i then f i else m) ks m"
proof -
  show lo: "fold (\<lambda>i m. if f i < m then f i else m) ks m \<le> m" for m
    by (induction ks arbitrary: m) (auto intro: order_trans less_imp_le)
  show hi: "m \<le> fold (\<lambda>i m. if m < f i then f i else m) ks m" for m
    by (induction ks arbitrary: m) (auto intro: order_trans less_imp_le)
  show "i \<in> set ks \<Longrightarrow> fold (\<lambda>i m. if f i < m then f i else m) ks m \<le> f i"
  proof (induction ks arbitrary: m)
    case (Cons a as)
    have "fold (\<lambda>i m. if f i < m then f i else m) as n \<le> n" for n
      by (induction as arbitrary: n) (auto intro: order_trans less_imp_le)
    from this [of "if f a < m then f a else m"] Cons show ?case by (auto split: if_splits)
  qed simp
  show "i \<in> set ks \<Longrightarrow> f i \<le> fold (\<lambda>i m. if m < f i then f i else m) ks m"
  proof (induction ks arbitrary: m)
    case (Cons a as)
    have "n \<le> fold (\<lambda>i m. if m < f i then f i else m) as n" for n
      by (induction as arbitrary: n) (auto intro: order_trans less_imp_le)
    from this [of "if m < f a then f a else m"] Cons show ?case by (auto split: if_splits)
  qed simp
qed

lemma hits_rows:
  assumes "\<And>i. i < cnt \<Longrightarrow> lo \<le> ys ! i \<and> ys ! i \<le> hi" "\<not> (lo \<le> y \<and> y \<le> hi)"
  shows "hits xs ys cnt y = []"
proof -
  have "crossing xs ys cnt y i = None" if "i < cnt" for i
  proof -
    have "lo \<le> ys ! i \<and> ys ! i \<le> hi" "lo \<le> ys ! ((i + 1) mod cnt) \<and> ys ! ((i + 1) mod cnt) \<le> hi"
      using assms(1) that by simp_all
    then show ?thesis using assms(2) by (auto simp: crossing_def Let_def)
  qed
  then show ?thesis by (auto simp: hits_def map_filter_def filter_empty_conv)
qed

lemma draws_fillpolygon:
  assumes "3 \<le> cnt" "int cnt \<le> POLYGON_MAX_POINTS"
  shows "draws (canvas_fillpolygon xs ys cnt color) (even_odd (hits xs ys cnt)) color"
proof -
  define lo where "lo = fold (\<lambda>i m. if ys ! i < m then ys ! i else m) [1..<cnt] (ys ! 0)"
  define hi where "hi = fold (\<lambda>i m. if m < ys ! i then ys ! i else m) [1..<cnt] (ys ! 0)"
  let ?rows = "[(if lo < 0 then 0 else lo)..(if CANVAS_HEIGHT \<le> hi then CANVAS_HEIGHT - 1 else hi)]"
  let ?row = "\<lambda>y c. let hits = hits xs ys cnt y in
    if length hits < 2 then Some c else draw_spans y color (sort_ints (length hits) hits) c"
  let ?S = "\<lambda>y. {(px, py). py = y \<and> (px \<in> set (hits xs ys cnt y) \<or> odd (length (filter (\<lambda>h. h < px) (hits xs ys cnt y))))}"
  have n: "\<not> (cnt < 3 \<or> POLYGON_MAX_POINTS < int cnt)" using assms by linarith
  have e: "canvas_fillpolygon xs ys cnt color = fold_o ?row ?rows"
    by (rule ext) (simp only: canvas_fillpolygon_def if_not_P [OF n] Let_def lo_def hi_def hits_def)
  have "lo \<le> ys ! i \<and> ys ! i \<le> hi" if "i < cnt" for i
    using that fold_bounds [where f = "\<lambda>i. ys ! i" and ks = "[1..<cnt]" and m = "ys ! 0"] by (cases "i = 0") (auto simp: lo_def hi_def)
  note out = hits_rows [OF this]
  have row: "draws (?row y) (?S y) color" for y
  proof (cases "length (hits xs ys cnt y) < 2")
    case True
    then have h: "hits xs ys cnt y = []"
      using even_hits [of cnt xs ys y] assms by (cases "hits xs ys cnt y") (auto simp: less_Suc_eq numeral_2_eq_2)
    show ?thesis using draws_skip by (simp add: h)
  next
    case False
    let ?h = "sort (hits xs ys cnt y)"
    have "length (filter (\<lambda>h. h < px) ?h) = length (filter (\<lambda>h. h < px) (hits xs ys cnt y))" for px
      by (metis mset_filter mset_sort size_mset)
    moreover have "draws (draw_spans y color ?h) {(px, py). py = y \<and> (px \<in> set ?h \<or> odd (length (filter (\<lambda>h. h < px) ?h)))} color"
      using even_hits [of cnt xs ys y] assms by (intro draws_spans) auto
    ultimately show ?thesis using False by (simp add: sort_ints_sorts Let_def)
  qed
  have "draws (fold_o ?row ?rows) (\<Union>y\<in>set ?rows. ?S y) color" by (rule draws_fold, rule row)
  then show ?thesis unfolding e
  proof (rule draws_cong)
    fix px py assume c: "on_canvas px py"
    have "py \<in> set ?rows \<longleftrightarrow> lo \<le> py \<and> py \<le> hi" using c unfolding on_canvas_def set_upto atLeastAtMost_iff by auto
    then have "(px, py) \<in> (\<Union>y\<in>set ?rows. ?S y) \<longleftrightarrow> (lo \<le> py \<and> py \<le> hi) \<and> (px, py) \<in> ?S py" by blast
    then show "(px, py) \<in> (\<Union>y\<in>set ?rows. ?S y) \<longleftrightarrow> (px, py) \<in> even_odd (hits xs ys cnt)"
      using out [where y = py and xs = xs] unfolding even_odd_def by auto
  qed
qed

text \<open>Every other shape is drawn inside the canvas and ends, whatever its arguments.\<close>

definition safe :: "(canvas \<Rightarrow> canvas option) \<Rightarrow> bool" where
  "safe f \<longleftrightarrow> (\<forall>c. canvas_ok c \<longrightarrow> (\<exists>c'. f c = Some c' \<and> canvas_ok c'))"

lemma safe_draws: "draws f S color \<Longrightarrow> safe f"
  by (fastforce simp: draws_def safe_def paints_def)

lemma safe_skip: "safe Some"
  by (simp add: safe_def)

lemma safe_bind: "safe f \<Longrightarrow> safe g \<Longrightarrow> safe (\<lambda>c. Option.bind (f c) g)"
  unfolding safe_def by fastforce

lemma safe_fold: "(\<And>a. a \<in> set as \<Longrightarrow> safe (f a)) \<Longrightarrow> safe (fold_o f as)"
  unfolding safe_def by (induction as) fastforce+

lemma safe_if: "safe f \<Longrightarrow> safe g \<Longrightarrow> safe (\<lambda>c. if b then f c else g c)"
  by (cases b) simp_all

lemma safe_line: "safe (canvas_line x1 y1 x2 y2 color)"
  using canvas_line_path [of x2 x1 y2 y1 color] safe_draws by blast

lemma safe_triangle: "safe (canvas_triangle x1 y1 x2 y2 x3 y3 color)"
  unfolding canvas_triangle_def by (intro safe_bind safe_line)

lemma safe_filltriangle: "safe (canvas_filltriangle x1 y1 x2 y2 x3 y3 color)"
proof (cases "edge_function x1 y1 x2 y2 x3 y3 = 0")
  case True
  then have "canvas_filltriangle x1 y1 x2 y2 x3 y3 color = canvas_triangle x1 y1 x2 y2 x3 y3 color"
    by (intro ext) (simp add: canvas_filltriangle_def)
  then show ?thesis using safe_triangle by simp
qed (rule safe_draws [OF draws_filltriangle])

lemma safe_circle: "safe (canvas_circle x y r color)"
proof (cases "0 \<le> r")
  case True
  then show ?thesis using canvas_circle_like safe_draws by blast
qed (simp add: canvas_circle_def safe_def)

lemma safe_fillcircle: "safe (canvas_fillcircle x y r color)"
proof (cases "0 \<le> r")
  case True
  then show ?thesis using canvas_fillcircle_disc safe_draws by blast
qed (simp add: canvas_fillcircle_def safe_def)

lemma safe_polygon: "safe (canvas_polygon xs ys cnt color)"
  unfolding canvas_polygon_def Let_def by (intro safe_if safe_skip safe_fold safe_line)

lemma safe_fillpolygon: "safe (canvas_fillpolygon xs ys cnt color)"
proof (cases "3 \<le> cnt \<and> int cnt \<le> POLYGON_MAX_POINTS")
  case True
  then show ?thesis using safe_draws [OF draws_fillpolygon] by blast
qed (auto simp: canvas_fillpolygon_def safe_def)

lemmas safe_shapes = draws_clear [THEN safe_draws] draws_pixel [THEN safe_draws] safe_line
  draws_rect [THEN safe_draws] draws_fillrect [THEN safe_draws] safe_circle safe_fillcircle
  safe_triangle safe_filltriangle draws_ellipse [THEN safe_draws] draws_fillellipse [THEN safe_draws]
  safe_polygon safe_fillpolygon

section \<open>Properties\<close>







text \<open>C25: sort_ints() computes the same list as the library's sort.\<close>

theorem sort_ints_is_sort: "sort_ints (length vs) vs = sort vs"
  by (rule sort_ints_sorts)

end
