(* ===== verification/Aidraw.thy ===== *)
theory Aidraw
  imports Ulib DrawShapes
begin

text \<open>
  src/aidraw.c: the program that asks the assistant for a drawing, reads the answer
  line by line and shows the canvas.  A string pointer is the rest of its string.
  The outer \<open>option\<close> is that of the drawing routines: None would be a write outside
  the canvas or a loop that does not end.
\<close>

section \<open>Reading a line\<close>

definition skip_spaces :: "string \<Rightarrow> string" where
  "skip_spaces cursor = dropWhile (\<lambda>c. c = CHR '' '' \<or> c = CHR 0x09) cursor"

definition line_done :: "string \<Rightarrow> bool" where
  "line_done cursor \<longleftrightarrow> skip_spaces cursor = []"

definition match_command :: "string \<Rightarrow> string \<Rightarrow> string option" where
  "match_command cursor name =
     (let len = u_strlen name in
      if u_strncmp cursor name len \<noteq> 0 then None
      else case drop len cursor of
        [] \<Rightarrow> Some []
      | c # rest \<Rightarrow> if c \<noteq> CHR '' '' \<and> c \<noteq> CHR 0x09 then None else Some (c # rest))"

fun int_loop :: "int \<Rightarrow> bool \<Rightarrow> string \<Rightarrow> int \<times> bool \<times> string" where
  "int_loop r saw_digit (c # s) =
     (if is_digit c then int_loop (wrap32 (r * 10 + digit_val c)) True s else (r, saw_digit, c # s))"
| "int_loop r saw_digit [] = (r, saw_digit, [])"

definition parse_int :: "string \<Rightarrow> (int \<times> string) option" where
  "parse_int cursor =
     (let cursor = skip_spaces cursor;
          (sign, cursor) = (case cursor of c # rest \<Rightarrow> if c = CHR ''-'' then (-1, rest) else (1, cursor) | [] \<Rightarrow> (1, []));
          (r, saw_digit, cursor) = int_loop 0 False cursor
      in if \<not> saw_digit then None else Some (wrap32 (sign * r), cursor))"

text \<open>
  The chains \<open>parse_int(..., &a) < 0 || parse_int(..., &b) < 0 || ...\<close>, and the end of
  the line after them.
\<close>

fun parse_ints :: "nat \<Rightarrow> string \<Rightarrow> (int list \<times> string) option" where
  "parse_ints 0 cursor = Some ([], cursor)"
| "parse_ints (Suc n) cursor =
     Option.bind (parse_int cursor) (\<lambda>(v, cursor).
     Option.bind (parse_ints n cursor) (\<lambda>(vs, cursor). Some (v # vs, cursor)))"

definition parse_args :: "nat \<Rightarrow> string \<Rightarrow> int list option" where
  "parse_args n cursor =
     Option.bind (parse_ints n cursor) (\<lambda>(vs, cursor). if line_done cursor then Some vs else None)"

definition color :: "int \<Rightarrow> u8" where
  "color v = word_of_int v"

text \<open>The result of a line: the return value, whether it was END, and the canvas.\<close>

type_synonym line_result = "(int \<times> bool \<times> canvas) option"

definition bad_line :: "canvas \<Rightarrow> line_result" where
  "bad_line c = Some (-1, False, c)"

definition drawn :: "canvas option \<Rightarrow> line_result" where
  "drawn r = Option.bind r (\<lambda>c. Some (0, False, c))"

fun pairs :: "int list \<Rightarrow> int list \<times> int list" where
  "pairs (x # y # rest) = (let (xs, ys) = pairs rest in (x # xs, y # ys))"
| "pairs _ = ([], [])"

definition parse_polygon :: "string \<Rightarrow> bool \<Rightarrow> canvas \<Rightarrow> line_result" where
  "parse_polygon cursor filled c =
     (case parse_int cursor of
        None \<Rightarrow> bad_line c
      | Some (cnt, cursor) \<Rightarrow>
          if cnt < 3 \<or> cnt > POLYGON_MAX_POINTS then bad_line c
          else (case parse_ints (2 * nat cnt) cursor of
            None \<Rightarrow> bad_line c
          | Some (vs, cursor) \<Rightarrow>
              (let (xs, ys) = pairs vs in
              (case parse_int cursor of
                None \<Rightarrow> bad_line c
              | Some (col, cursor) \<Rightarrow>
                  if \<not> line_done cursor then bad_line c
                  else if filled then drawn (canvas_fillpolygon xs ys (nat cnt) (color col) c)
                  else drawn (canvas_polygon xs ys (nat cnt) (color col) c)))))"

text \<open>
  The commands with a fixed number of arguments, in the order parse_line() tries them:
  name, number of integers, and the call made with them.
\<close>

type_synonym command = "string \<times> nat \<times> (int list \<Rightarrow> canvas \<Rightarrow> canvas option)"

definition commands :: "command list" where
  "commands =
    [(''CLEAR'', 1, \<lambda>v. canvas_clear (color (v ! 0))),
     (''PIXEL'', 3, \<lambda>v. canvas_pixel (v ! 0) (v ! 1) (color (v ! 2))),
     (''LINE'', 5, \<lambda>v. canvas_line (v ! 0) (v ! 1) (v ! 2) (v ! 3) (color (v ! 4))),
     (''RECT'', 5, \<lambda>v. canvas_rect (v ! 0) (v ! 1) (v ! 2) (v ! 3) (color (v ! 4))),
     (''FILLRECT'', 5, \<lambda>v. canvas_fillrect (v ! 0) (v ! 1) (v ! 2) (v ! 3) (color (v ! 4))),
     (''CIRCLE'', 4, \<lambda>v. canvas_circle (v ! 0) (v ! 1) (v ! 2) (color (v ! 3))),
     (''FILLCIRCLE'', 4, \<lambda>v. canvas_fillcircle (v ! 0) (v ! 1) (v ! 2) (color (v ! 3))),
     (''TRIANGLE'', 7, \<lambda>v. canvas_triangle (v ! 0) (v ! 1) (v ! 2) (v ! 3) (v ! 4) (v ! 5) (color (v ! 6))),
     (''FILLTRIANGLE'', 7, \<lambda>v. canvas_filltriangle (v ! 0) (v ! 1) (v ! 2) (v ! 3) (v ! 4) (v ! 5) (color (v ! 6))),
     (''ELLIPSE'', 5, \<lambda>v. canvas_ellipse (v ! 0) (v ! 1) (v ! 2) (v ! 3) (color (v ! 4))),
     (''FILLELLIPSE'', 5, \<lambda>v. canvas_fillellipse (v ! 0) (v ! 1) (v ! 2) (v ! 3) (color (v ! 4)))]"

fun run_command :: "command list \<Rightarrow> string \<Rightarrow> canvas \<Rightarrow> line_result option" where
  "run_command [] cursor c = None"
| "run_command ((name, n, draw) # cmds) cursor c =
     (case match_command cursor name of
        Some cursor \<Rightarrow> Some (case parse_args n cursor of None \<Rightarrow> bad_line c | Some v \<Rightarrow> drawn (draw v c))
      | None \<Rightarrow> run_command cmds cursor c)"

definition parse_line :: "string \<Rightarrow> canvas \<Rightarrow> line_result" where
  "parse_line line c =
     (let cursor = skip_spaces line in
      if cursor = [] then Some (0, False, c)
      else (case match_command cursor ''END'' of
        Some cursor \<Rightarrow> if line_done cursor then Some (0, True, c) else bad_line c
      | None \<Rightarrow>
     (case run_command commands cursor c of
        Some r \<Rightarrow> r
      | None \<Rightarrow>
     (case match_command cursor ''POLYGON'' of
        Some cursor \<Rightarrow> parse_polygon cursor False c
      | None \<Rightarrow>
     (case match_command cursor ''FILLPOLYGON'' of
        Some cursor \<Rightarrow> parse_polygon cursor True c
      | None \<Rightarrow> bad_line c)))))"

section \<open>The prompt and the response\<close>

definition AI_PROMPT_MAX :: nat where "AI_PROMPT_MAX = 512"
definition AI_RESPONSE_MAX :: nat where "AI_RESPONSE_MAX = 32768"

fun join_loop :: "bool \<Rightarrow> string list \<Rightarrow> string \<Rightarrow> string option" where
  "join_loop first [] prompt = Some prompt"
| "join_loop first (w # ws) prompt =
     (if \<not> first \<and> length prompt + 1 \<ge> AI_PROMPT_MAX then None
      else
        let prompt = (if first then prompt else prompt @ '' '') in
        if length prompt + u_strlen w \<ge> AI_PROMPT_MAX then None
        else join_loop False ws (prompt @ w))"

definition join_prompt :: "string list \<Rightarrow> string option" where
  "join_prompt args = join_loop True args []"

datatype outcome = Invalid string | MissingEnd | Complete canvas

function draw_lines :: "string \<Rightarrow> canvas \<Rightarrow> outcome option" where
  "draw_lines line c =
     (if line = [] then Some MissingEnd
      else
        let next = strchr line (CHR 0x0A);
            text = takeWhile (\<lambda>x. x \<noteq> CHR 0x0A) line in
        Option.bind (parse_line text c) (\<lambda>(rc, saw_end, c).
          if rc < 0 then Some (Invalid text)
          else if saw_end then Some (Complete c)
          else case next of None \<Rightarrow> Some MissingEnd | Some t \<Rightarrow> draw_lines (tl t) c))"
  by pat_completeness auto
termination by (relation "measure (\<lambda>(line, c). length line)") (auto dest: strchr_tl)

declare draw_lines.simps [simp del]

section \<open>The program\<close>

text \<open>The system calls and the allocator the program uses, on a state of the rest of the system.\<close>

record 's calls =
  c_malloc :: "nat \<Rightarrow> 's \<Rightarrow> u8 list option \<times> 's"
  c_ai_query :: "string \<Rightarrow> nat \<Rightarrow> 's \<Rightarrow> (int \<times> string) \<times> 's"
  c_open :: "string \<Rightarrow> 's \<Rightarrow> int \<times> 's"
  c_ioctl :: "int \<Rightarrow> int \<Rightarrow> int \<Rightarrow> 's \<Rightarrow> int \<times> 's"
  c_read :: "int \<Rightarrow> nat \<Rightarrow> 's \<Rightarrow> (int \<times> u8 list) \<times> 's"
  c_write :: "int \<Rightarrow> u8 list \<Rightarrow> 's \<Rightarrow> int \<times> 's"
  c_close :: "int \<Rightarrow> 's \<Rightarrow> 's"

definition set_display_mode :: "'s calls \<Rightarrow> int \<Rightarrow> 's \<Rightarrow> int \<times> 's" where
  "set_display_mode k mode s =
     (let (fd, s) = c_open k ''display'' s in
      if fd < 0 then (-1, s)
      else let (rc, s) = c_ioctl k fd 1 mode s in (rc, c_close k fd s))"

definition wait_for_keypress :: "'s calls \<Rightarrow> 's \<Rightarrow> int \<times> 's" where
  "wait_for_keypress k s =
     (let (rc, s) = c_ioctl k 0 2 1 s in
      if rc < 0 then (-1, s)
      else
        let ((n, key), s) = c_read k 0 1 s in
        if n \<noteq> 1 then (let (rc, s) = c_ioctl k 0 2 0 s in (-1, s))
        else let (rc, s) = c_ioctl k 0 2 0 s in if rc < 0 then (-1, s) else (0, s))"

datatype exit_state =
  Usage | PromptTooLong | AllocFailed | QueryFailed | InvalidCommand string | NoEnd
| ModeFailed | BlitFailed | KeyFailed | RestoreFailed | Shown canvas

definition main :: "'s calls \<Rightarrow> string list \<Rightarrow> 's \<Rightarrow> (exit_state \<times> 's) option" where
  "main k argv s =
     (if length argv < 2 then Some (Usage, s)
      else case join_prompt (tl argv) of None \<Rightarrow> Some (PromptTooLong, s) | Some prompt \<Rightarrow>
        (let (cv, s) = c_malloc k (nat CANVAS_SIZE) s; (buf, s) = c_malloc k AI_RESPONSE_MAX s in
         case cv of None \<Rightarrow> Some (AllocFailed, s) | Some c \<Rightarrow>
         if buf = None then Some (AllocFailed, s)
         else
           (let ((n, response), s) = c_ai_query k prompt AI_RESPONSE_MAX s in
            if n < 0 then Some (QueryFailed, s)
            else
              Option.bind (canvas_clear 0 c) (\<lambda>c.
              Option.bind (draw_lines response c) (\<lambda>r.
                case r of Invalid line \<Rightarrow> Some (InvalidCommand line, s) | MissingEnd \<Rightarrow> Some (NoEnd, s)
                | Complete c \<Rightarrow>
                  (let (rc, s) = set_display_mode k 0x13 s in
                   if rc < 0 then Some (ModeFailed, s)
                   else
                     let (rc, s) = canvas_blit (c_open k ''display'') (c_write k) (c_close k) c s in
                     if rc < 0 then Some (BlitFailed, snd (set_display_mode k 3 s))
                     else
                       let (rc, s) = wait_for_keypress k s in
                       if rc < 0 then Some (KeyFailed, snd (set_display_mode k 3 s))
                       else
                         let (rc, s) = set_display_mode k 3 s in
                         if rc < 0 then Some (RestoreFailed, s) else Some (Shown c, s)))))))"

section \<open>No response can write outside the canvas\<close>

definition line_ok :: "line_result \<Rightarrow> bool" where
  "line_ok r \<longleftrightarrow> (\<exists>rc e c. r = Some (rc, e, c) \<and> canvas_ok c)"

lemma line_ok_simps [simp]: "line_ok (Some (rc, e, c)) \<longleftrightarrow> canvas_ok c" "line_ok (bad_line c) \<longleftrightarrow> canvas_ok c"
  by (auto simp: line_ok_def bad_line_def)

lemma line_ok_drawn: "safe f \<Longrightarrow> canvas_ok c \<Longrightarrow> line_ok (drawn (f c))"
  by (fastforce simp: safe_def drawn_def line_ok_def)

lemma commands_safe: "list_all (\<lambda>(name, n, draw). \<forall>v. safe (draw v)) commands"
  by (simp add: commands_def safe_shapes)

lemma run_command_ok:
  "list_all (\<lambda>(name, n, draw). \<forall>v. safe (draw v)) cmds \<Longrightarrow> canvas_ok c \<Longrightarrow> run_command cmds cursor c = Some r \<Longrightarrow> line_ok r"
  by (induction cmds) (auto simp: line_ok_drawn split: option.splits)

lemma parse_polygon_ok: "canvas_ok c \<Longrightarrow> line_ok (parse_polygon cursor filled c)"
  by (auto simp: parse_polygon_def line_ok_drawn safe_shapes split: option.split prod.split)

lemma parse_line_ok: "canvas_ok c \<Longrightarrow> line_ok (parse_line line c)"
  using run_command_ok [OF commands_safe]
  by (auto simp: parse_line_def Let_def parse_polygon_ok split: option.split)

lemma draw_lines_ok:
  "canvas_ok c \<Longrightarrow> \<exists>r. draw_lines s c = Some r \<and> (case r of Complete c' \<Rightarrow> canvas_ok c' | _ \<Rightarrow> True)"
proof (induction s c rule: draw_lines.induct)
  case (1 line c)
  obtain rc e c' where p: "parse_line (takeWhile (\<lambda>x. x \<noteq> CHR 0x0A) line) c = Some (rc, e, c')" "canvas_ok c'"
    using parse_line_ok [OF 1(2)] unfolding line_ok_def by blast
  show ?case using 1 p by (subst draw_lines.simps) (auto simp: Let_def split: option.split)
qed



section \<open>Reading back what was written\<close>

text \<open>A command line as the assistant writes it: the name and the numbers, separated by single spaces.\<close>

definition blank_free :: "string \<Rightarrow> bool" where
  "blank_free w \<longleftrightarrow> CHR '' '' \<notin> set w \<and> CHR 0x09 \<notin> set w \<and> CHR 0x0A \<notin> set w \<and> CHR 0x00 \<notin> set w"

definition numbers :: "int list \<Rightarrow> string" where
  "numbers vs = concat (map (\<lambda>v. CHR '' '' # int_str v) vs)"

lemma numbers_simps [simp]: "numbers [] = []" "numbers (v # vs) = CHR '' '' # int_str v @ numbers vs"
  "numbers (vs @ ws) = numbers vs @ numbers ws"
  by (simp_all add: numbers_def)

lemma numbers_head: "numbers vs = [] \<or> (\<exists>t. numbers vs = CHR '' '' # t)"
  by (cases vs) auto

lemma digit_blank: "is_digit c \<Longrightarrow> c \<noteq> CHR '' '' \<and> c \<noteq> CHR 0x09 \<and> c \<noteq> CHR ''-'' \<and> c \<noteq> CHR 0x0A \<and> c \<noteq> CHR 0x00"
  by (auto simp: is_digit_def)

lemma int_loop_digits:
  assumes "list_all is_digit s" "t = [] \<or> (\<exists>c u. t = c # u \<and> \<not> is_digit c)"
  shows "int_loop (wrap32 n) saw (s @ t) = (wrap32 (digits_val n s), saw \<or> s \<noteq> [], t)"
  using assms(1)
proof (induction s arbitrary: n saw)
  case Nil
  then show ?case using assms(2) by auto
qed (simp add: wrap32_add_mult)

lemma parse_int_reads:
  assumes "int32 v" "t = [] \<or> (\<exists>c u. t = c # u \<and> \<not> is_digit c)"
  shows "parse_int (CHR '' '' # int_str v @ t) = Some (v, t)"
proof -
  have l: "int_loop 0 False (nat_str m @ t) = (wrap32 (int m), True, t)" for m
    using int_loop_digits [OF nat_str_ok(2) assms(2), of 0 False m] nat_str_ok(1) [of m]
    by (simp add: int32_def nat_str_ok(3))
  show ?thesis
  proof (cases "v < 0")
    case True
    have "wrap32 (- 1 * wrap32 (- v)) = v"
    proof -
      have "take_bit 32 (- signed_take_bit 31 (- v)) = take_bit 32 v"
        by (metis add.inverse_inverse take_bit_minus take_bit_signed_take_bit [of 32 31 "- v", simplified])
      then have "signed_take_bit 31 (- signed_take_bit 31 (- v)) = signed_take_bit 31 v"
        using signed_take_bit_eq_iff_take_bit_eq [of 31] by fastforce
      then show ?thesis using assms(1) wrap32_id [of v] by (simp add: wrap32_def)
    qed
    then show ?thesis using True l [of "nat (- v)"] by (simp add: parse_int_def int_str_def skip_spaces_def)
  next
    case False
    obtain d u where d: "nat_str (nat v) = d # u" "is_digit d" by (rule nat_str_cons)
    have "skip_spaces (CHR '' '' # nat_str (nat v) @ t) = nat_str (nat v) @ t"
      using digit_blank [OF d(2)] by (simp add: skip_spaces_def d(1))
    then show ?thesis using False l [of "nat v"] digit_blank [OF d(2)] assms(1)
      by (simp add: parse_int_def int_str_def d(1))
  qed
qed

lemma parse_ints_reads:
  assumes "list_all int32 vs" "t = [] \<or> (\<exists>c u. t = c # u \<and> \<not> is_digit c)"
  shows "parse_ints (length vs) (numbers vs @ t) = Some (vs, t)"
  using assms(1)
proof (induction vs)
  case (Cons v vs)
  have "numbers vs @ t = [] \<or> (\<exists>c u. numbers vs @ t = c # u \<and> \<not> is_digit c)"
    using assms(2) by (cases vs) auto
  then have "parse_int (CHR '' '' # int_str v @ numbers vs @ t) = Some (v, numbers vs @ t)"
    using Cons.prems by (intro parse_int_reads) auto
  then show ?case using Cons by simp
qed simp

lemma parse_args_reads: "list_all int32 vs \<Longrightarrow> parse_args (length vs) (numbers vs) = Some vs"
  using parse_ints_reads [of vs "[]"] by (simp add: parse_args_def line_done_def skip_spaces_def)

lemma match_word:
  assumes w: "blank_free w" and n: "blank_free name" and t: "t = [] \<or> (\<exists>u. t = CHR '' '' # u)" "cstring t"
  shows "match_command (w @ t) name = (if w = name then Some t else None)"
proof -
  have c: "cstring (w @ t)" "cstring name" using w n t(2) by (simp_all add: blank_free_def cstring_def)
  have e: "u_strncmp (w @ t) name (length name) = 0 \<longleftrightarrow> take (length name) (w @ t) = name"
    using strncmp_0_iff [OF c] by simp
  show ?thesis
  proof (cases "take (length name) (w @ t) = name")
    case False
    then have "w \<noteq> name" by auto
    then show ?thesis using False e by (simp add: match_command_def)
  next
    case True
    have len: "length name \<le> length w"
    proof (rule ccontr)
      assume l: "\<not> length name \<le> length w"
      then have nm: "name = w @ take (length name - length w) t" using True by simp
      then have "t \<noteq> []" using l by auto
      then have "CHR '' '' \<in> set (take (length name - length w) t)" using t(1) l by (auto simp: take_Cons')
      then have "CHR '' '' \<in> set name" by (subst nm) simp
      then show False using n by (simp add: blank_free_def)
    qed
    then have tk: "take (length name) w = name" using True by simp
    show ?thesis
    proof (cases "drop (length name) w")
      case Nil
      then have "w = name" using tk append_take_drop_id [of "length name" w] by simp
      then show ?thesis using e t by (auto simp: match_command_def)
    next
      case (Cons a u)
      then have "a \<in> set w" using in_set_dropD [of a "length name" w] by simp
      then have "a \<noteq> CHR '' ''" "a \<noteq> CHR 0x09" using w by (auto simp: blank_free_def)
      moreover have "drop (length name) (w @ t) = a # u @ t" using Cons len by simp
      moreover have "w \<noteq> name" using Cons by auto
      ultimately show ?thesis using e True by (simp add: match_command_def)
    qed
  qed
qed

lemma run_command_hit:
  assumes "distinct (map fst cmds)" "list_all (\<lambda>(n, _). blank_free n) cmds" "(name, n, draw) \<in> set cmds"
    and t: "t = [] \<or> (\<exists>u. t = CHR '' '' # u)" "cstring t"
  shows "run_command cmds (name @ t) c = Some (case parse_args n t of None \<Rightarrow> bad_line c | Some v \<Rightarrow> drawn (draw v c))"
  using assms(1-3)
proof (induction cmds)
  case (Cons x cmds)
  obtain nm k d where x: "x = (nm, k, d)" by (cases x) auto
  have "blank_free name" using Cons.prems(2,3) by (auto simp: list_all_iff)
  then have m: "match_command (name @ t) nm = (if name = nm then Some t else None)"
    using Cons.prems(2) t x by (intro match_word) auto
  show ?case
  proof (cases "name = nm")
    case True
    then have "(name, n, draw) \<notin> set cmds" using Cons.prems(1) x by force
    then have "x = (name, n, draw)" using Cons.prems(3) by simp
    then show ?thesis using m x by simp
  next
    case False
    then show ?thesis using Cons m x by simp
  qed
qed simp

lemma run_command_miss:
  assumes "list_all (\<lambda>(n, _). blank_free n \<and> n \<noteq> w) cmds" "blank_free w" "t = [] \<or> (\<exists>u. t = CHR '' '' # u)" "cstring t"
  shows "run_command cmds (w @ t) c = None"
  using assms(1) by (induction cmds) (auto simp: match_word assms(2-4))

lemma commands_names:
  "distinct (map fst commands)" "list_all (\<lambda>(n, _). blank_free n) commands"
  "list_all (\<lambda>(n, _). n \<noteq> ''END'' \<and> n \<noteq> ''POLYGON'' \<and> n \<noteq> ''FILLPOLYGON'' \<and> n \<noteq> []) commands"
  by (simp_all add: commands_def blank_free_def)

lemma int_str_plain: "c \<in> set (int_str v) \<Longrightarrow> is_digit c \<or> c = CHR ''-''"
  using nat_str_ok(2) by (auto simp: int_str_def list_all_iff split: if_splits)

lemma numbers_plain: "c \<in> set (numbers vs) \<Longrightarrow> is_digit c \<or> c = CHR ''-'' \<or> c = CHR '' ''"
  by (induction vs) (auto dest: int_str_plain)

lemma cstring_numbers [simp]: "cstring (numbers vs)"
  using numbers_plain [of "CHR 0x00" vs] by (auto simp: cstring_def is_digit_def)

lemma skip_spaces_word: "blank_free w \<Longrightarrow> w \<noteq> [] \<Longrightarrow> skip_spaces (w @ t) = w @ t"
  by (cases w) (auto simp: skip_spaces_def blank_free_def)

lemma parse_line_command:
  assumes "(name, n, draw) \<in> set commands" "length vs = n" "list_all int32 vs"
  shows "parse_line (name @ numbers vs) c = drawn (draw vs c)"
proof -
  have nm: "blank_free name" "name \<noteq> ''END''" "name \<noteq> []" using assms(1) commands_names(2,3) by (auto simp: list_all_iff)
  have "run_command commands (name @ numbers vs) c = Some (drawn (draw vs c))"
    using run_command_hit [OF commands_names(1,2) assms(1) numbers_head cstring_numbers, of vs c] parse_args_reads [OF assms(3)] assms(2) by simp
  moreover have "match_command (name @ numbers vs) ''END'' = None"
    using match_word [OF nm(1) _ numbers_head cstring_numbers, of "''END''" vs] nm(2) by (simp add: blank_free_def)
  ultimately show ?thesis using nm by (simp add: parse_line_def skip_spaces_word Let_def)
qed

lemma parse_line_end: "parse_line ''END'' c = Some (0, True, c)"
  by (simp add: parse_line_def skip_spaces_def match_command_def line_done_def Let_def)

definition polygon_args :: "nat \<Rightarrow> int list \<Rightarrow> int \<Rightarrow> int list" where
  "polygon_args cnt vs col = int cnt # vs @ [col]"

lemma parse_polygon_reads:
  assumes "3 \<le> cnt" "int cnt \<le> POLYGON_MAX_POINTS" "length vs = 2 * cnt" "list_all int32 vs" "int32 col"
  shows "parse_polygon (numbers (polygon_args cnt vs col)) filled c =
    drawn ((if filled then canvas_fillpolygon else canvas_polygon) (fst (pairs vs)) (snd (pairs vs)) cnt (color col) c)"
proof -
  have i: "int32 (int cnt)" using assms(2) by (simp add: int32_def POLYGON_MAX_POINTS_def)
  have nd: "numbers vs @ numbers [col] = [] \<or> (\<exists>c u. numbers vs @ numbers [col] = c # u \<and> \<not> is_digit c)"
    by (cases vs) auto
  have 1: "parse_int (numbers (polygon_args cnt vs col)) = Some (int cnt, numbers vs @ numbers [col])"
    using parse_int_reads [OF i nd] by (simp add: polygon_args_def)
  have 2: "parse_ints (2 * cnt) (numbers vs @ numbers [col]) = Some (vs, numbers [col])"
    using parse_ints_reads [OF assms(4), of "numbers [col]"] assms(3) by simp
  have 3: "parse_int (numbers [col]) = Some (col, [])" using parse_int_reads [OF assms(5), of "[]"] by simp
  show ?thesis using assms(1,2)
    by (simp add: parse_polygon_def 1 2 3 line_done_def skip_spaces_def case_prod_unfold Let_def del: numbers_simps)
qed

lemma parse_line_polygon:
  assumes "name \<in> {''POLYGON'', ''FILLPOLYGON''}" "3 \<le> cnt" "int cnt \<le> POLYGON_MAX_POINTS" "length vs = 2 * cnt" "list_all int32 vs" "int32 col"
  shows "\<exists>f. safe f \<and> (\<forall>c. parse_line (name @ numbers (polygon_args cnt vs col)) c = drawn (f c))"
proof -
  let ?t = "numbers (polygon_args cnt vs col)"
  have nm: "blank_free name" "name \<noteq> ''END''" "name \<noteq> []" "list_all (\<lambda>(n, _). blank_free n \<and> n \<noteq> name) commands"
    using assms(1) commands_names by (auto simp: list_all_iff blank_free_def)
  note m = match_word [OF nm(1) _ numbers_head cstring_numbers, of _ "polygon_args cnt vs col"]
  have b: "blank_free ''END''" "blank_free ''POLYGON''" "blank_free ''FILLPOLYGON''" by (simp_all add: blank_free_def)
  note r = run_command_miss [OF nm(4,1) numbers_head cstring_numbers]
  have n: "name \<noteq> ''POLYGON'' \<longleftrightarrow> name = ''FILLPOLYGON''" using assms(1) by auto
  have "parse_line (name @ ?t) c =
      drawn ((if name = ''FILLPOLYGON'' then canvas_fillpolygon else canvas_polygon) (fst (pairs vs)) (snd (pairs vs)) cnt (color col) c)" for c
  proof (cases "name = ''FILLPOLYGON''")
    case True
    show ?thesis unfolding parse_line_def Let_def skip_spaces_word [OF nm(1,3)] m [OF b(1)] m [OF b(2)] m [OF b(3)] r
      by (simp add: True parse_polygon_reads [OF assms(2-6)])
  next
    case False
    then have p: "name = ''POLYGON''" using n by blast
    show ?thesis unfolding parse_line_def Let_def skip_spaces_word [OF nm(1,3)] m [OF b(1)] m [OF b(2)] m [OF b(3)] r
      by (simp add: p parse_polygon_reads [OF assms(2-6)])
  qed
  moreover have "safe ((if name = ''FILLPOLYGON'' then canvas_fillpolygon else canvas_polygon) (fst (pairs vs)) (snd (pairs vs)) cnt (color col))"
    by (simp add: safe_shapes)
  ultimately show ?thesis by blast
qed

text \<open>A line the program accepts on every canvas.\<close>

definition draw_line :: "string \<Rightarrow> bool" where
  "draw_line l \<longleftrightarrow> CHR 0x0A \<notin> set l \<and> l \<noteq> [] \<and> (\<exists>f. safe f \<and> (\<forall>c. parse_line l c = drawn (f c)))"

lemma draw_lines_accepts:
  assumes "list_all draw_line ls" "canvas_ok c" "t = [] \<or> (\<exists>u. t = CHR 0x0A # u)"
  shows "\<exists>c'. draw_lines (concat (map (\<lambda>l. l @ [CHR 0x0A]) ls) @ ''END'' @ t) c = Some (Complete c') \<and> canvas_ok c'"
  using assms(1,2)
proof (induction ls arbitrary: c)
  case Nil
  have "takeWhile (\<lambda>x. x \<noteq> CHR 0x0A) (''END'' @ t) = ''END''" using assms(3) by auto
  then show ?case using Nil by (subst draw_lines.simps) (simp add: parse_line_end)
next
  case (Cons l ls)
  obtain f where l: "CHR 0x0A \<notin> set l" "l \<noteq> []" "safe f" "\<And>c. parse_line l c = drawn (f c)"
    using Cons.prems(1) by (auto simp: draw_line_def)
  obtain c1 where c1: "f c = Some c1" "canvas_ok c1" using l(3) Cons.prems(2) by (auto simp: safe_def)
  have "draw_lines (l @ CHR 0x0A # r) c = draw_lines r c1" for r
  proof -
    have tw: "takeWhile (\<lambda>x. x \<noteq> CHR 0x0A) (l @ CHR 0x0A # r) = l" using l(1) by (subst takeWhile_append2) auto
    show ?thesis using l(2) by (subst draw_lines.simps) (simp add: tw l(4) c1(1) drawn_def strchr_append [OF l(1)])
  qed
  then show ?case using Cons.IH [OF _ c1(2)] Cons.prems(1) by simp
qed

text \<open>C31: A command written as its name and decimal numbers, each after one space, is read back as that
  command with those numbers, for every command with a fixed number of arguments and all 32-bit numbers.\<close>

theorem command_roundtrip:
  assumes "(name, n, draw) \<in> set commands" "length vs = n" "list_all int32 vs"
  shows "parse_line (name @ numbers vs) c = drawn (draw vs c)"
  by (rule parse_line_command [OF assms])

theorem command_roundtrip_witness:
  "parse_line (''PIXEL'' @ numbers [-3, 2147483647, 9]) [1, 2, 3] = drawn (canvas_pixel (-3) 2147483647 9 [1, 2, 3])"
  using command_roundtrip [of "''PIXEL''" 3 "\<lambda>v. canvas_pixel (v ! 0) (v ! 1) (color (v ! 2))" "[-3, 2147483647, 9]" "[1, 2, 3]"]
  by (simp add: commands_def int32_def color_def del: numbers_simps)

end
