(* ===== verification/Agent.thy ===== *)
theory Agent
  imports Aidraw
begin

text \<open>
  src/agent.py, the host program that answers the drawing requests: what it accepts
  from a language model, how it repairs or replaces it, and what it sends.  Texts are
  ASCII strings.  The requests to the model services and json.loads are parameters;
  an exception is a value, since which of them are caught matters.
\<close>

section \<open>Python's text operations\<close>

definition py_space :: "char \<Rightarrow> bool" where
  "py_space c \<longleftrightarrow> (of_char c :: nat) \<in> {9, 10, 11, 12, 13, 28, 29, 30, 31, 32}"

definition py_newline :: "char \<Rightarrow> bool" where
  "py_newline c \<longleftrightarrow> (of_char c :: nat) \<in> {10, 11, 12, 13, 28, 29, 30}"

definition py_strip :: "string \<Rightarrow> string" where
  "py_strip s = rev (dropWhile py_space (rev (dropWhile py_space s)))"

definition py_rstrip :: "string \<Rightarrow> string" where
  "py_rstrip s = rev (dropWhile py_space (rev s))"

fun split_loop :: "string \<Rightarrow> string \<Rightarrow> string list" where
  "split_loop w [] = (if w = [] then [] else [w])"
| "split_loop w (c # s) =
     (if py_space c then (if w = [] then split_loop [] s else w # split_loop [] s) else split_loop (w @ [c]) s)"

definition py_split :: "string \<Rightarrow> string list" where
  "py_split s = split_loop [] s"

fun lines_loop :: "string \<Rightarrow> string \<Rightarrow> string list" where
  "lines_loop cur [] = (if cur = [] then [] else [cur])"
| "lines_loop cur (c # s) =
     (if c = CHR 0x0D \<and> s \<noteq> [] \<and> hd s = CHR 0x0A then cur # lines_loop [] (tl s)
      else if py_newline c then cur # lines_loop [] s
      else lines_loop (cur @ [c]) s)"

definition py_splitlines :: "string \<Rightarrow> string list" where
  "py_splitlines s = lines_loop [] s"

fun py_join :: "string \<Rightarrow> string list \<Rightarrow> string" where
  "py_join sep [] = []"
| "py_join sep [s] = s"
| "py_join sep (s # t # ss) = s @ sep @ py_join sep (t # ss)"

definition py_replace :: "char \<Rightarrow> char \<Rightarrow> string \<Rightarrow> string" where
  "py_replace a b s = map (\<lambda>c. if c = a then b else c) s"

definition upper_char :: "char \<Rightarrow> char" where
  "upper_char c = (let n = of_char c :: nat in if 97 \<le> n \<and> n \<le> 122 then char_of (n - 32) else c)"

definition lower_char :: "char \<Rightarrow> char" where
  "lower_char c = (let n = of_char c :: nat in if 65 \<le> n \<and> n \<le> 90 then char_of (n + 32) else c)"

definition py_upper :: "string \<Rightarrow> string" where "py_upper s = map upper_char s"
definition py_lower :: "string \<Rightarrow> string" where "py_lower s = map lower_char s"

fun contains :: "string \<Rightarrow> string \<Rightarrow> bool" where
  "contains w [] \<longleftrightarrow> w = []"
| "contains w (c # s) \<longleftrightarrow> take (length w) (c # s) = w \<or> contains w s"

text \<open>int() of a word: an optional sign, then digits with single underscores between them, at most 4300 digits.\<close>

fun py_digits :: "int \<Rightarrow> bool \<Rightarrow> string \<Rightarrow> int option" where
  "py_digits acc after_digit [] = (if after_digit then Some acc else None)"
| "py_digits acc after_digit (c # s) =
     (if is_digit c then py_digits (acc * 10 + digit_val c) True s
      else if c = CHR ''_'' \<and> after_digit then py_digits acc False s
      else None)"

definition py_int :: "string \<Rightarrow> int option" where
  "py_int w =
     (if length (filter is_digit w) > 4300 then None
      else case w of
        [] \<Rightarrow> None
      | c # s \<Rightarrow>
          if c = CHR ''-'' then map_option uminus (py_digits 0 False s)
          else if c = CHR ''+'' then py_digits 0 False s
          else py_digits 0 False (c # s))"

section \<open>The drawing language\<close>

definition COMMAND_ARITY :: "(string \<times> nat option) list" where
  "COMMAND_ARITY =
    [(''CLEAR'', Some 1), (''PIXEL'', Some 3), (''LINE'', Some 5), (''RECT'', Some 5), (''FILLRECT'', Some 5),
     (''CIRCLE'', Some 4), (''FILLCIRCLE'', Some 4), (''TRIANGLE'', Some 7), (''FILLTRIANGLE'', Some 7),
     (''ELLIPSE'', Some 5), (''FILLELLIPSE'', Some 5), (''POLYGON'', None), (''FILLPOLYGON'', None), (''END'', Some 0)]"

definition MAX_MODEL_REPAIRS :: nat where "MAX_MODEL_REPAIRS = 2"

definition is_command :: "string \<Rightarrow> bool" where
  "is_command w \<longleftrightarrow> w \<in> fst ` set COMMAND_ARITY"

definition normalize_line :: "string \<Rightarrow> string option" where
  "normalize_line raw =
     (let line = py_strip raw in
      if line = [] \<or> take 3 line = ''```'' then None
      else
        let prefix = takeWhile (\<lambda>c. c \<noteq> CHR '':'') line;
            suffix = tl (dropWhile (\<lambda>c. c \<noteq> CHR '':'') line);
            line = (if CHR '':'' \<in> set line \<and> is_command (py_upper (py_strip prefix))
                    then py_strip prefix @ '' '' @ py_strip suffix else line);
            line = py_replace CHR '','' CHR '' '' line;
            line = py_replace CHR ''('' CHR '' '' line;
            line = py_replace CHR '')'' CHR '' '' line;
            parts = filter (\<lambda>p. p \<noteq> ''-'' \<and> p \<noteq> ''*'') (py_split line)
        in case parts of [] \<Rightarrow> None | p # ps \<Rightarrow> Some (py_join '' '' (py_upper p # ps)))"

definition normalize_candidate_text :: "string \<Rightarrow> string list" where
  "normalize_candidate_text text =
     List.map_filter normalize_line (py_splitlines (py_replace CHR '';'' CHR 0x0A text))"

section \<open>Validation\<close>

datatype exc = Value_Error | Type_Error | Overflow_Error | Attribute_Error

fun ints :: "string list \<Rightarrow> exc + int list" where
  "ints [] = Inr []"
| "ints (w # ws) =
     (case py_int w of None \<Rightarrow> Inl Value_Error
      | Some v \<Rightarrow> (case ints ws of Inl e \<Rightarrow> Inl e | Inr vs \<Rightarrow> Inr (v # vs)))"

definition reasonable :: "int \<Rightarrow> bool" where "reasonable v \<longleftrightarrow> \<not> (v < -4096 \<or> v > 4096)"
definition good_color :: "int \<Rightarrow> bool" where "good_color v \<longleftrightarrow> 0 \<le> v \<and> v \<le> 15"

definition arity_ok :: "string \<Rightarrow> string list \<Rightarrow> bool" where
  "arity_ok command parts =
     (if command = ''POLYGON'' \<or> command = ''FILLPOLYGON'' then
        if length parts < 8 then False
        else (case py_int (parts ! 1) of
          None \<Rightarrow> False
        | Some cnt \<Rightarrow> \<not> (cnt < 3 \<or> cnt > 16 \<or> int (length parts) - 1 \<noteq> 2 + cnt * 2))
      else map_of COMMAND_ARITY command = Some (Some (length parts - 1)))"

definition values_ok :: "string \<Rightarrow> int list \<Rightarrow> bool" where
  "values_ok command vs =
     (if command = ''CLEAR'' then good_color (vs ! 0)
      else if command = ''POLYGON'' \<or> command = ''FILLPOLYGON'' then
        list_all reasonable (butlast (tl vs)) \<and> good_color (last vs)
      else list_all reasonable (butlast vs) \<and> good_color (last vs))"

text \<open>The loop of validate_response(): the cleaned lines, whether a command was seen and whether END was.\<close>

fun validate_loop :: "string list \<Rightarrow> string list \<Rightarrow> bool \<Rightarrow> exc + string list \<times> bool \<times> bool" where
  "validate_loop [] cleaned saw_command = Inr (cleaned, saw_command, False)"
| "validate_loop (line # lines) cleaned saw_command =
     (let parts = py_split line; command = hd parts in
      if \<not> is_command command then validate_loop lines cleaned saw_command
      else if command = ''END'' then Inr (cleaned @ [''END''], True, True)
      else if \<not> arity_ok command parts then Inl Value_Error
      else case ints (tl parts) of
        Inl e \<Rightarrow> Inl e
      | Inr vs \<Rightarrow>
          if \<not> values_ok command vs then Inl Value_Error
          else validate_loop lines (cleaned @ [py_join '' '' (command # map int_str vs)]) True)"

definition validate_response :: "string \<Rightarrow> exc + string" where
  "validate_response text =
     (case validate_loop (normalize_candidate_text text) [] False of
        Inl e \<Rightarrow> Inl e
      | Inr (cleaned, saw_command, saw_end) \<Rightarrow>
          if \<not> saw_command then Inl Value_Error
          else Inr (py_join [CHR 0x0A] (if saw_end then cleaned else cleaned @ [''END''])))"

section \<open>JSON plans\<close>

text \<open>A parsed JSON value; a number with a fraction is its truncation, or one of the special values.\<close>

datatype json = JNull | JBool bool | JInt int | JFloat int | JNaN | JInfinity
  | JStr string | JList "json list" | JObj "(string \<times> json) list"

definition extract_json_object :: "string \<Rightarrow> exc + string" where
  "extract_json_object text =
     (let from_start = dropWhile (\<lambda>c. c \<noteq> CHR 0x7B) text;
          upto_end = rev (dropWhile (\<lambda>c. c \<noteq> CHR 0x7D) (rev from_start)) in
      if upto_end = [] then Inl Value_Error else Inr upto_end)"

fun py_int_of :: "json \<Rightarrow> exc + int" where
  "py_int_of (JInt n) = Inr n"
| "py_int_of (JBool b) = Inr (if b then 1 else 0)"
| "py_int_of (JFloat n) = Inr n"
| "py_int_of JNaN = Inl Value_Error"
| "py_int_of JInfinity = Inl Overflow_Error"
| "py_int_of (JStr s) = (case py_int (py_strip s) of None \<Rightarrow> Inl Value_Error | Some n \<Rightarrow> Inr n)"
| "py_int_of _ = Inl Type_Error"

type_synonym obj = "(string \<times> json) list"

fun require_int :: "string list \<Rightarrow> obj \<Rightarrow> exc + int" where
  "require_int [] command = Inl Value_Error"
| "require_int (name # names) command =
     (case map_of command name of Some v \<Rightarrow> py_int_of v | None \<Rightarrow> require_int names command)"

definition require_circle_radius :: "obj \<Rightarrow> exc + int" where
  "require_circle_radius command =
     (case map_of command ''radius'' of Some v \<Rightarrow> py_int_of v | None \<Rightarrow>
     (case map_of command ''r'' of Some v \<Rightarrow> py_int_of v | None \<Rightarrow>
     (case map_of command ''rx'' of
        Some rx \<Rightarrow>
          (case map_of command ''ry'' of
             None \<Rightarrow> py_int_of rx
           | Some ry \<Rightarrow>
               (case py_int_of rx of Inl e \<Rightarrow> Inl e | Inr a \<Rightarrow>
               (case py_int_of ry of Inl e \<Rightarrow> Inl e | Inr b \<Rightarrow>
                  if a \<noteq> b then Inl Value_Error else Inr a)))
      | None \<Rightarrow> (case map_of command ''ry'' of Some v \<Rightarrow> py_int_of v | None \<Rightarrow> Inl Value_Error))))"

text \<open>Fields in the order the format strings evaluate them; the first exception ends the evaluation.\<close>

fun collect :: "(exc + int) list \<Rightarrow> exc + int list" where
  "collect [] = Inr []"
| "collect (x # xs) =
     (case x of Inl e \<Rightarrow> Inl e | Inr v \<Rightarrow> (case collect xs of Inl e \<Rightarrow> Inl e | Inr vs \<Rightarrow> Inr (v # vs)))"

definition format_command :: "string \<Rightarrow> (exc + int) list \<Rightarrow> exc + string" where
  "format_command name fs =
     (case collect fs of Inl e \<Rightarrow> Inl e | Inr vs \<Rightarrow> Inr (py_join '' '' (name # map int_str vs)))"

fun point_ints :: "json \<Rightarrow> (exc + int) list" where
  "point_ints (JList [x, y]) = [py_int_of x, py_int_of y]"
| "point_ints _ = [Inl Value_Error]"

definition polygon_to_dsl :: "string \<Rightarrow> obj \<Rightarrow> exc + string" where
  "polygon_to_dsl cmd command =
     (case map_of command ''points'' of
        Some (JList points) \<Rightarrow>
          if length points < 3 \<or> length points > 16 then Inl Value_Error
          else format_command cmd
            (Inr (int (length points)) # concat (map point_ints points) @ [require_int [''color''] command])
      | _ \<Rightarrow> Inl Value_Error)"

definition command_to_dsl :: "obj \<Rightarrow> exc + string" where
  "command_to_dsl command =
     (let cmd = (case map_of command ''cmd'' of Some (JStr s) \<Rightarrow> py_upper s | _ \<Rightarrow> []);
          get = (\<lambda>names. require_int names command);
          box = [get [''x''], get [''y''], get [''w'', ''width''], get [''h'', ''height''], get [''color'']];
          circle = [get [''x''], get [''y''], require_circle_radius command, get [''color'']];
          triangle = [get [''x1''], get [''y1''], get [''x2''], get [''y2''], get [''x3''], get [''y3''], get [''color'']];
          ellipse = [get [''x''], get [''y''], get [''rx''], get [''ry''], get [''color'']]
      in
      if cmd = ''CLEAR'' then format_command cmd [get [''color'']]
      else if cmd = ''PIXEL'' then format_command cmd [get [''x''], get [''y''], get [''color'']]
      else if cmd = ''LINE'' then format_command cmd [get [''x1''], get [''y1''], get [''x2''], get [''y2''], get [''color'']]
      else if cmd = ''RECT'' then format_command cmd box
      else if cmd = ''FILLRECT'' then format_command cmd box
      else if cmd = ''CIRCLE'' then format_command cmd circle
      else if cmd = ''FILLCIRCLE'' then format_command cmd circle
      else if cmd = ''TRIANGLE'' then format_command cmd triangle
      else if cmd = ''FILLTRIANGLE'' then format_command cmd triangle
      else if cmd = ''ELLIPSE'' then format_command cmd ellipse
      else if cmd = ''FILLELLIPSE'' then format_command cmd ellipse
      else if cmd = ''POLYGON'' \<or> cmd = ''FILLPOLYGON'' then polygon_to_dsl cmd command
      else if cmd = ''END'' then Inr ''END''
      else Inl Value_Error)"

fun commands_to_dsl :: "json list \<Rightarrow> exc + string list" where
  "commands_to_dsl [] = Inr []"
| "commands_to_dsl (JObj command # rest) =
     (case command_to_dsl command of
        Inl e \<Rightarrow> Inl (if e = Type_Error then Value_Error else e)
      | Inr line \<Rightarrow> (case commands_to_dsl rest of Inl e \<Rightarrow> Inl e | Inr ls \<Rightarrow> Inr (line # ls)))"
| "commands_to_dsl (_ # rest) = Inl Value_Error"

definition validate_json_response :: "(string \<Rightarrow> json option) \<Rightarrow> string \<Rightarrow> exc + string" where
  "validate_json_response loads text =
     (case extract_json_object text of
        Inl e \<Rightarrow> Inl Value_Error
      | Inr t \<Rightarrow>
          (case loads t of
             None \<Rightarrow> Inl Value_Error
           | Some (JObj payload) \<Rightarrow>
               (case map_of payload ''commands'' of
                  Some (JList cmds) \<Rightarrow>
                    if cmds = [] then Inl Value_Error
                    else (case commands_to_dsl cmds of
                      Inl e \<Rightarrow> Inl e
                    | Inr lines \<Rightarrow> validate_response (py_join [CHR 0x0A] lines))
                | _ \<Rightarrow> Inl Value_Error)
           | Some _ \<Rightarrow> Inl Attribute_Error))"

section \<open>What the prompt asks for\<close>

definition semantic_validate_response :: "string \<Rightarrow> string \<Rightarrow> bool" where
  "semantic_validate_response prompt text =
     (let lowered = py_lower prompt;
          lines = filter (\<lambda>l. l \<noteq> [] \<and> l \<noteq> ''END'') (map py_strip (py_splitlines text));
          commands = map (\<lambda>l. hd (py_split l)) lines;
          n = (\<lambda>names. length (filter (\<lambda>c. c \<in> set names) commands));
          circle_count = n [''CIRCLE'', ''FILLCIRCLE''];
          rect_count = n [''RECT'', ''FILLRECT''];
          line_count = n [''LINE'', ''TRIANGLE'', ''FILLTRIANGLE'', ''POLYGON'', ''FILLPOLYGON''];
          triangle_count = n [''TRIANGLE'', ''FILLTRIANGLE''];
          ellipse_count = n [''ELLIPSE'', ''FILLELLIPSE''];
          asks = (\<lambda>ws. list_ex (\<lambda>w. contains w lowered) ws)
      in
      \<not> (asks [''car'', ''bus'', ''truck'', ''vehicle''] \<and> (circle_count + ellipse_count < 2 \<or> rect_count < 1)) \<and>
      \<not> (asks [''house''] \<and> (rect_count < 1 \<or> line_count + triangle_count < 2)) \<and>
      \<not> (asks [''flag''] \<and> rect_count < 2 \<and> triangle_count < 1) \<and>
      \<not> (asks [''smiley'', ''smile'', ''face''] \<and> (circle_count + ellipse_count < 3 \<or> line_count < 1)) \<and>
      \<not> (asks [''mountain'', ''mountains'', ''peak'', ''peaks''] \<and> line_count < 1 \<and> triangle_count < 1) \<and>
      \<not> (asks [''sunset''] \<and> circle_count + ellipse_count < 1))"

section \<open>Fallback drawings\<close>

definition bus_template :: "string list" where
  "bus_template =
      [''CLEAR 9'',
       ''FILLRECT 0 150 320 50 2'',
       ''FILLRECT 40 95 220 55 12'',
       ''RECT 40 95 220 55 15'',
       ''FILLRECT 55 108 30 18 15'',
       ''FILLRECT 92 108 30 18 15'',
       ''FILLRECT 129 108 30 18 15'',
       ''FILLRECT 166 108 30 18 15'',
       ''FILLRECT 203 108 30 18 15'',
       ''FILLCIRCLE 90 155 18 0'',
       ''FILLCIRCLE 210 155 18 0'',
       ''CIRCLE 90 155 18 7'',
       ''CIRCLE 210 155 18 7'',
       ''END'']"

definition vehicle_lines :: "string list" where
  "vehicle_lines =
      [''CLEAR 9'',
       ''FILLRECT 0 150 320 50 2'',
       ''FILLRECT 60 115 150 32 12'',
       ''FILLRECT 95 90 70 30 12'',
       ''RECT 60 115 150 32 15'',
       ''RECT 95 90 70 30 15'',
       ''FILLRECT 105 98 22 14 15'',
       ''FILLRECT 132 98 22 14 15'',
       ''FILLCIRCLE 95 150 16 0'',
       ''FILLCIRCLE 180 150 16 0'',
       ''CIRCLE 95 150 16 7'',
       ''CIRCLE 180 150 16 7'',
       ''END'']"

definition flag_lines :: "string list" where
  "flag_lines =
      [''CLEAR 15'',
       ''FILLRECT 0 0 320 200 15'',
       ''FILLRECT 0 0 128 112 1'',
       ''FILLRECT 0 18 320 18 12'',
       ''FILLRECT 0 54 320 18 12'',
       ''FILLRECT 0 90 320 18 12'',
       ''FILLRECT 0 126 320 18 12'',
       ''FILLRECT 0 162 320 18 12'',
       ''END'']"

definition smiley_lines :: "string list" where
  "smiley_lines =
      [''CLEAR 9'',
       ''FILLCIRCLE 160 100 58 14'',
       ''CIRCLE 160 100 58 15'',
       ''FILLCIRCLE 138 82 7 0'',
       ''FILLCIRCLE 182 82 7 0'',
       ''LINE 130 130 146 144 0'',
       ''LINE 146 144 174 144 0'',
       ''LINE 174 144 190 130 0'',
       ''END'']"

definition house_lines :: "string list" where
  "house_lines =
      [''CLEAR 9'',
       ''FILLRECT 0 145 320 55 2'',
       ''FILLRECT 96 86 112 70 6'',
       ''RECT 96 86 112 70 15'',
       ''FILLRECT 138 118 28 38 4'',
       ''RECT 138 118 28 38 15'',
       ''LINE 96 86 152 48 12'',
       ''LINE 152 48 208 86 12'',
       ''LINE 96 87 152 49 12'',
       ''LINE 152 49 208 87 12'',
       ''END'']"

definition default_lines :: "string list" where
  "default_lines =
      [''CLEAR 9'',
       ''FILLRECT 0 140 320 60 2'',
       ''FILLCIRCLE 250 45 24 14'',
       ''CIRCLE 250 45 24 15'',
       ''FILLRECT 90 85 95 70 6'',
       ''RECT 90 85 95 70 15'',
       ''FILLRECT 123 118 26 37 4'',
       ''RECT 123 118 26 37 15'',
       ''LINE 90 85 138 52 4'',
       ''LINE 138 52 185 85 4'',
       ''END'']"

definition vehicle_template :: "string \<Rightarrow> string" where
  "vehicle_template prompt =
     py_join [CHR 0x0A] (if contains ''bus'' (py_lower prompt) then bus_template else vehicle_lines)"

definition targeted_template :: "string \<Rightarrow> string option" where
  "targeted_template prompt =
     (if list_ex (\<lambda>w. contains w (py_lower prompt)) [''car'', ''bus'', ''truck'', ''vehicle'']
      then Some (vehicle_template prompt) else None)"

definition canned_response :: "string \<Rightarrow> string" where
  "canned_response prompt =
     (let lowered = py_lower (py_strip prompt) in
      py_join [CHR 0x0A]
       (if contains ''flag'' lowered \<and> contains ''us'' lowered then flag_lines
        else if contains ''smiley'' lowered \<or> contains ''face'' lowered then smiley_lines
        else if contains ''house'' lowered then house_lines
        else default_lines))"

section \<open>Generation\<close>

text \<open>
  The model services, on a state of the outside world: a first answer to a prompt, and a
  repair of a rejected answer.
\<close>

record 'w services =
  generate :: "string \<Rightarrow> string \<Rightarrow> 'w \<Rightarrow> string option \<times> 'w"
  repair :: "string \<Rightarrow> string \<Rightarrow> string \<Rightarrow> 'w \<Rightarrow> string option \<times> 'w"
  loads :: "string \<Rightarrow> json option"

definition backend_attempt_order :: "string list" where
  "backend_attempt_order = [''claude'', ''gemini'']"

definition accept_candidate :: "(string \<Rightarrow> json option) \<Rightarrow> string \<Rightarrow> string \<Rightarrow> exc + string" where
  "accept_candidate ld prompt candidate =
     (case (case validate_json_response ld candidate of
              Inl Value_Error \<Rightarrow> validate_response candidate
            | r \<Rightarrow> r) of
        Inl e \<Rightarrow> Inl e
      | Inr validated \<Rightarrow>
          if semantic_validate_response prompt validated then Inr validated else Inl Value_Error)"

text \<open>The attempts with one service: \<open>k\<close> repairs are left.  None means that the next service is tried.\<close>

fun attempts :: "'w services \<Rightarrow> string \<Rightarrow> string \<Rightarrow> nat \<Rightarrow> string \<Rightarrow> 'w \<Rightarrow> (exc + string option) \<times> 'w" where
  "attempts sv backend prompt k candidate w =
     (case accept_candidate (loads sv) prompt candidate of
        Inr validated \<Rightarrow> (Inr (Some validated), w)
      | Inl Value_Error \<Rightarrow>
          (case k of
             0 \<Rightarrow> (Inr None, w)
           | Suc k \<Rightarrow>
               (case repair sv backend prompt candidate w of
                  (None, w) \<Rightarrow> (Inr None, w)
                | (Some repaired, w) \<Rightarrow> attempts sv backend prompt k repaired w))
      | Inl e \<Rightarrow> (Inl e, w))"

declare attempts.simps [simp del]

fun try_backends :: "'w services \<Rightarrow> string \<Rightarrow> string list \<Rightarrow> 'w \<Rightarrow> (exc + string option) \<times> 'w" where
  "try_backends sv prompt [] w = (Inr None, w)"
| "try_backends sv prompt (backend # rest) w =
     (case generate sv backend prompt w of
        (None, w) \<Rightarrow> try_backends sv prompt rest w
      | (Some candidate, w) \<Rightarrow>
          (case attempts sv backend prompt MAX_MODEL_REPAIRS candidate w of
             (Inr None, w) \<Rightarrow> try_backends sv prompt rest w
           | r \<Rightarrow> r))"

definition generate_response :: "'w services \<Rightarrow> string \<Rightarrow> 'w \<Rightarrow> (exc + string) \<times> 'w" where
  "generate_response sv prompt w =
     (case try_backends sv prompt backend_attempt_order w of
        (Inl e, w) \<Rightarrow> (Inl e, w)
      | (Inr (Some validated), w) \<Rightarrow> (Inr validated, w)
      | (Inr None, w) \<Rightarrow>
          (case targeted_template prompt of
             Some t \<Rightarrow> (Inr t, w)
           | None \<Rightarrow> (Inr (canned_response prompt), w)))"

section \<open>The serial line\<close>

text \<open>A line of the stream with its line end removed; the stream is the list of its lines.\<close>

definition recv_line :: "string \<Rightarrow> string" where
  "recv_line raw = rev (dropWhile (\<lambda>c. c = CHR 0x0D \<or> c = CHR 0x0A) (rev raw))"

fun read_body :: "string list \<Rightarrow> (string list \<times> string list) option" where
  "read_body [] = None"
| "read_body (raw # rest) =
     (if recv_line raw = ''END_REQ'' then Some ([], rest)
      else map_option (\<lambda>(ls, rest). (recv_line raw # ls, rest)) (read_body rest))"

fun read_request :: "string list \<Rightarrow> (string \<times> string list) option" where
  "read_request [] = None"
| "read_request (raw # rest) =
     (if recv_line raw \<noteq> ''BEGIN_REQ'' then read_request rest
      else case rest of
        [] \<Rightarrow> None
      | mode # rest \<Rightarrow>
          (case read_body rest of
             None \<Rightarrow> None
           | Some (prompt_lines, rest) \<Rightarrow>
               Some (if recv_line mode \<noteq> ''DRAW'' then []
                     else py_strip (py_join '' '' (filter (\<lambda>l. l \<noteq> []) prompt_lines)), rest)))"

definition send_response :: "string \<Rightarrow> string" where
  "send_response body =
     ''BEGIN_RESP'' @ [CHR 0x0A] @ py_rstrip body @ [CHR 0x0A] @ ''END_RESP'' @ [CHR 0x0A]"

section \<open>What the agent sends is what aidraw reads\<close>

text \<open>A line of a response: a command with numbers in the range the agent allows.\<close>

definition line_args :: "string \<times> int list \<Rightarrow> bool" where
  "line_args = (\<lambda>(name, vs). list_all (\<lambda>v. \<bar>v\<bar> \<le> 4096) vs \<and> name \<noteq> ''END'' \<and>
     (map_of COMMAND_ARITY name = Some (Some (length vs)) \<or>
      name \<in> {''POLYGON'', ''FILLPOLYGON''} \<and> 3 \<le> vs ! 0 \<and> vs ! 0 \<le> 16 \<and> int (length vs) = 2 + 2 * vs ! 0))"

definition line_text :: "string \<times> int list \<Rightarrow> string" where
  "line_text = (\<lambda>(name, vs). name @ numbers vs)"

lemma join_numbers: "py_join '' '' (w # map int_str vs) = w @ numbers vs"
  by (induction vs arbitrary: w) (auto simp: numbers_def)

lemma join_lines: "py_join [CHR 0x0A] (ls @ [l]) = concat (map (\<lambda>l. l @ [CHR 0x0A]) ls) @ l"
proof (induction ls)
  case (Cons a ls)
  then show ?case by (cases ls) simp_all
qed simp

lemma arity_commands:
  assumes "map_of COMMAND_ARITY name = Some (Some n)" "name \<noteq> ''END''"
  shows "\<exists>draw. (name, n, draw) \<in> set commands"
  using assms by (auto simp: COMMAND_ARITY_def commands_def split: if_splits)

lemma polygon_args_split:
  assumes "3 \<le> vs ! 0" "int (length vs) = 2 + 2 * vs ! 0"
  shows "\<exists>cnt ws col. vs = polygon_args cnt ws col \<and> int cnt = vs ! 0 \<and> length ws = 2 * cnt"
proof -
  obtain c rest where vs: "vs = c # rest" using assms by (cases vs) auto
  have "rest \<noteq> []" using assms by (auto simp: vs)
  then have "vs = polygon_args (nat c) (butlast rest) (last rest)" using assms by (simp add: vs polygon_args_def)
  moreover have "length (butlast rest) = 2 * nat c" using assms by (simp add: vs)
  moreover have "int (nat c) = vs ! 0" using assms by (simp add: vs)
  ultimately show ?thesis by blast
qed

lemma int32_small: "\<bar>v\<bar> \<le> 4096 \<Longrightarrow> int32 v"
  unfolding int32_def by auto

lemma line_args_name: "line_args (name, vs) \<Longrightarrow> blank_free name \<and> name \<noteq> [] \<and> length name \<le> 12"
  by (auto simp: line_args_def COMMAND_ARITY_def blank_free_def split: if_splits)

lemma line_args_drawn:
  assumes "line_args (name, vs)"
  shows "\<exists>f. safe f \<and> (\<forall>c. parse_line (name @ numbers vs) c = drawn (f c))"
proof (cases "name \<in> {''POLYGON'', ''FILLPOLYGON''}")
  case True
  then have m: "map_of COMMAND_ARITY name = Some None" by (auto simp: COMMAND_ARITY_def)
  have v: "3 \<le> vs ! 0" "vs ! 0 \<le> 16" "int (length vs) = 2 + 2 * vs ! 0" "list_all (\<lambda>v. \<bar>v\<bar> \<le> 4096) vs"
    using assms by (simp_all add: line_args_def m)
  obtain cnt ws col where a: "vs = polygon_args cnt ws col" "int cnt = vs ! 0" "length ws = 2 * cnt"
    using polygon_args_split [OF v(1,3)] by blast
  have i: "list_all (\<lambda>v. \<bar>v\<bar> \<le> 4096) ws" "\<bar>col\<bar> \<le> 4096" using v(4) unfolding a(1) polygon_args_def by simp_all
  then have "list_all int32 ws" "int32 col" by (auto simp: list_all_iff int32_small)
  moreover have "3 \<le> cnt" "int cnt \<le> POLYGON_MAX_POINTS" using v(1,2) a(2) unfolding POLYGON_MAX_POINTS_def by linarith+
  ultimately have "list_all int32 ws" "int32 col" "3 \<le> cnt" "int cnt \<le> POLYGON_MAX_POINTS" by blast+
  then show ?thesis unfolding a(1) using parse_line_polygon True a(3) by blast
next
  case False
  then have v: "map_of COMMAND_ARITY name = Some (Some (length vs))" "name \<noteq> ''END''" "list_all int32 vs"
    using assms False unfolding line_args_def list_all_iff prod.case by (blast, blast, blast intro: int32_small)
  obtain draw where d: "(name, length vs, draw) \<in> set commands" using arity_commands [OF v(1,2)] by blast
  then have "safe (draw vs)" using commands_safe by (auto simp: list_all_iff)
  then show ?thesis using parse_line_command [OF d refl v(3)] by blast
qed

lemma line_text_plain:
  assumes "line_args (name, vs)" "c \<in> set (line_text (name, vs))"
  shows "c \<noteq> CHR 0x0A \<and> c \<noteq> CHR 0x0D \<and> c \<noteq> CHR 0x00"
proof -
  have "c \<in> set name \<Longrightarrow> c \<noteq> CHR 0x0A \<and> c \<noteq> CHR 0x0D \<and> c \<noteq> CHR 0x00"
    using assms(1) by (auto simp: line_args_def COMMAND_ARITY_def split: if_splits)
  moreover have "c \<in> set (numbers vs) \<Longrightarrow> c \<noteq> CHR 0x0A \<and> c \<noteq> CHR 0x0D \<and> c \<noteq> CHR 0x00"
    using numbers_plain [of c vs] by (auto simp: is_digit_def)
  ultimately show ?thesis using assms(2) by (auto simp: line_text_def)
qed

lemma line_args_draw_line: "line_args a \<Longrightarrow> draw_line (line_text a)"
proof (cases a)
  case (Pair name vs)
  assume "line_args a"
  then show ?thesis using line_args_drawn [of name vs] line_args_name [of name vs] line_text_plain [of name vs "CHR 0x0A"]
    unfolding Pair draw_line_def by (auto simp: line_text_def)
qed

text \<open>A response is a list of such lines and END.\<close>

definition response_text :: "(string \<times> int list) list \<Rightarrow> string" where
  "response_text as = py_join [CHR 0x0A] (map line_text as @ [''END''])"

lemma ints_length: "ints ws = Inr vs \<Longrightarrow> length vs = length ws"
  by (induction ws arbitrary: vs) (auto split: option.splits sum.splits)

lemma ints_first: "ints (w # ws) = Inr vs \<Longrightarrow> py_int w = Some (vs ! 0)"
  by (auto split: option.splits sum.splits)

lemma validated_line_args:
  assumes "is_command command" "command \<noteq> ''END''" "arity_ok command (command # ws)" "ints ws = Inr vs" "values_ok command vs"
  shows "line_args (command, vs)"
proof -
  note len = ints_length [OF assms(4)]
  have c: "\<bar>v\<bar> \<le> 4096" if "good_color v \<or> reasonable v" for v using that by (auto simp: good_color_def reasonable_def)
  have bl: "list_all (\<lambda>v. \<bar>v\<bar> \<le> 4096) us" if "us \<noteq> [] \<Longrightarrow> list_all reasonable (butlast us) \<and> good_color (last us)" for us
    using that c by (cases us rule: rev_cases) (auto simp: list_all_iff)
  show ?thesis
  proof (cases "command = ''POLYGON'' \<or> command = ''FILLPOLYGON''")
    case True
    then have nc: "command \<noteq> ''CLEAR''" by auto
    obtain w ws' where ws: "ws = w # ws'" using assms(3) True by (cases ws) (auto simp: arity_ok_def)
    have p: "py_int w = Some (vs ! 0)" using assms(4) unfolding ws by (rule ints_first)
    have v: "3 \<le> vs ! 0" "vs ! 0 \<le> 16" "int (length vs) = 2 + 2 * vs ! 0"
      using assms(3) True len p unfolding arity_ok_def ws by (auto split: if_splits)
    obtain u us where vs: "vs = u # us" using len ws by (cases vs) auto
    have "us \<noteq> []" using v by (auto simp: vs)
    then have "list_all (\<lambda>v. \<bar>v\<bar> \<le> 4096) us" using assms(5) True nc by (intro bl) (simp add: values_ok_def vs)
    then show ?thesis using v True assms(2) unfolding line_args_def by (simp add: vs)
  next
    case False
    then have m: "map_of COMMAND_ARITY command = Some (Some (length vs))" using assms(3) len by (simp add: arity_ok_def)
    have "list_all (\<lambda>v. \<bar>v\<bar> \<le> 4096) vs"
    proof (cases "command = ''CLEAR''")
      case True
      then obtain v where "vs = [v]" using m by (cases vs) (auto simp: COMMAND_ARITY_def)
      then show ?thesis using assms(5) True c by (simp add: values_ok_def)
    qed (use assms(5) False bl [of vs] in \<open>simp add: values_ok_def\<close>)
    then show ?thesis using m assms(2) by (simp add: line_args_def)
  qed
qed

lemma validate_loop_lines:
  "validate_loop lines cleaned saw = Inr (cl, sc, se) \<Longrightarrow> \<exists>as. list_all line_args as \<and> cleaned = map line_text as \<Longrightarrow>
     \<exists>as. list_all line_args as \<and> cl = (if se then map line_text as @ [''END''] else map line_text as)"
proof (induction lines cleaned saw rule: validate_loop.induct)
  case (1 cleaned saw)
  then show ?case by auto
next
  case (2 line lines cleaned saw)
  define parts where "parts = py_split line"
  note step = 2(3) [unfolded validate_loop.simps Let_def, folded parts_def]
  consider "\<not> is_command (hd parts)" | "is_command (hd parts)" "hd parts = ''END''"
    | "is_command (hd parts)" "hd parts \<noteq> ''END''" by blast
  then show ?case
  proof cases
    case 1
    then show ?thesis using 2(1) [OF parts_def refl] step 2(4) by simp
  next
    case 2
    then have "Inr (cleaned @ [''END''], True, True) = Inr (cl, sc, se)" using step by simp
    then show ?thesis using \<open>\<exists>as. list_all line_args as \<and> cleaned = map line_text as\<close> by auto
  next
    case 3
    then obtain vs where vs: "arity_ok (hd parts) parts" "ints (tl parts) = Inr vs" "values_ok (hd parts) vs"
      "validate_loop lines (cleaned @ [py_join '' '' (hd parts # map int_str vs)]) True = Inr (cl, sc, se)"
      using step by (auto split: if_splits sum.splits)
    have ne: "parts \<noteq> []" using vs(1) 3 by (auto simp: arity_ok_def COMMAND_ARITY_def split: if_splits)
    have "line_args (hd parts, vs)" using validated_line_args [OF 3, of "tl parts" vs] vs(1-3) ne by simp
    moreover have "py_join '' '' (hd parts # map int_str vs) = line_text (hd parts, vs)" by (simp add: join_numbers line_text_def)
    moreover obtain as where "list_all line_args as" "cleaned = map line_text as" using 2(4) by blast
    ultimately have "\<exists>as. list_all line_args as \<and> cleaned @ [py_join '' '' (hd parts # map int_str vs)] = map line_text as"
      by (intro exI [of _ "as @ [(hd parts, vs)]"]) simp
    then show ?thesis using 2(2) [OF parts_def refl] 3 vs by simp
  qed
qed

lemma validate_response_text: "validate_response text = Inr r \<Longrightarrow> \<exists>as. list_all line_args as \<and> r = response_text as"
proof -
  assume v: "validate_response text = Inr r"
  obtain cl sc se where l: "validate_loop (normalize_candidate_text text) [] False = Inr (cl, sc, se)"
    "r = py_join [CHR 0x0A] (if se then cl else cl @ [''END''])"
    using v by (auto simp: validate_response_def split: sum.splits if_splits)
  show ?thesis using validate_loop_lines [OF l(1)] l(2) by (fastforce simp: response_text_def split: if_splits)
qed

text \<open>The fallback drawings are such responses too.\<close>

definition response_lines :: "string list \<Rightarrow> bool" where
  "response_lines ls \<longleftrightarrow> (\<exists>as. list_all line_args as \<and> ls = map line_text as @ [''END''])"

lemma bus_template_ok: "response_lines bus_template"
  unfolding response_lines_def
  by (rule exI [of _ "[(''CLEAR'', [9]), (''FILLRECT'', [0, 150, 320, 50, 2]), (''FILLRECT'', [40, 95, 220, 55, 12]),
      (''RECT'', [40, 95, 220, 55, 15]), (''FILLRECT'', [55, 108, 30, 18, 15]), (''FILLRECT'', [92, 108, 30, 18, 15]),
      (''FILLRECT'', [129, 108, 30, 18, 15]), (''FILLRECT'', [166, 108, 30, 18, 15]), (''FILLRECT'', [203, 108, 30, 18, 15]),
      (''FILLCIRCLE'', [90, 155, 18, 0]), (''FILLCIRCLE'', [210, 155, 18, 0]), (''CIRCLE'', [90, 155, 18, 7]),
      (''CIRCLE'', [210, 155, 18, 7])]"], intro conjI; code_simp)

lemma vehicle_lines_ok: "response_lines vehicle_lines"
  unfolding response_lines_def
  by (rule exI [of _ "[(''CLEAR'', [9]), (''FILLRECT'', [0, 150, 320, 50, 2]), (''FILLRECT'', [60, 115, 150, 32, 12]),
      (''FILLRECT'', [95, 90, 70, 30, 12]), (''RECT'', [60, 115, 150, 32, 15]), (''RECT'', [95, 90, 70, 30, 15]),
      (''FILLRECT'', [105, 98, 22, 14, 15]), (''FILLRECT'', [132, 98, 22, 14, 15]), (''FILLCIRCLE'', [95, 150, 16, 0]),
      (''FILLCIRCLE'', [180, 150, 16, 0]), (''CIRCLE'', [95, 150, 16, 7]), (''CIRCLE'', [180, 150, 16, 7])]"], intro conjI; code_simp)

lemma flag_lines_ok: "response_lines flag_lines"
  unfolding response_lines_def
  by (rule exI [of _ "[(''CLEAR'', [15]), (''FILLRECT'', [0, 0, 320, 200, 15]), (''FILLRECT'', [0, 0, 128, 112, 1]),
      (''FILLRECT'', [0, 18, 320, 18, 12]), (''FILLRECT'', [0, 54, 320, 18, 12]), (''FILLRECT'', [0, 90, 320, 18, 12]),
      (''FILLRECT'', [0, 126, 320, 18, 12]), (''FILLRECT'', [0, 162, 320, 18, 12])]"], intro conjI; code_simp)

lemma smiley_lines_ok: "response_lines smiley_lines"
  unfolding response_lines_def
  by (rule exI [of _ "[(''CLEAR'', [9]), (''FILLCIRCLE'', [160, 100, 58, 14]), (''CIRCLE'', [160, 100, 58, 15]),
      (''FILLCIRCLE'', [138, 82, 7, 0]), (''FILLCIRCLE'', [182, 82, 7, 0]), (''LINE'', [130, 130, 146, 144, 0]),
      (''LINE'', [146, 144, 174, 144, 0]), (''LINE'', [174, 144, 190, 130, 0])]"], intro conjI; code_simp)

lemma house_lines_ok: "response_lines house_lines"
  unfolding response_lines_def
  by (rule exI [of _ "[(''CLEAR'', [9]), (''FILLRECT'', [0, 145, 320, 55, 2]), (''FILLRECT'', [96, 86, 112, 70, 6]),
      (''RECT'', [96, 86, 112, 70, 15]), (''FILLRECT'', [138, 118, 28, 38, 4]), (''RECT'', [138, 118, 28, 38, 15]),
      (''LINE'', [96, 86, 152, 48, 12]), (''LINE'', [152, 48, 208, 86, 12]), (''LINE'', [96, 87, 152, 49, 12]),
      (''LINE'', [152, 49, 208, 87, 12])]"], intro conjI; code_simp)

lemma default_lines_ok: "response_lines default_lines"
  unfolding response_lines_def
  by (rule exI [of _ "[(''CLEAR'', [9]), (''FILLRECT'', [0, 140, 320, 60, 2]), (''FILLCIRCLE'', [250, 45, 24, 14]),
      (''CIRCLE'', [250, 45, 24, 15]), (''FILLRECT'', [90, 85, 95, 70, 6]), (''RECT'', [90, 85, 95, 70, 15]),
      (''FILLRECT'', [123, 118, 26, 37, 4]), (''RECT'', [123, 118, 26, 37, 15]), (''LINE'', [90, 85, 138, 52, 4]),
      (''LINE'', [138, 52, 185, 85, 4])]"], intro conjI; code_simp)

lemmas templates_ok = bus_template_ok vehicle_lines_ok flag_lines_ok smiley_lines_ok house_lines_ok default_lines_ok

lemma response_lines_join: "response_lines ls \<Longrightarrow> \<exists>as. list_all line_args as \<and> py_join [CHR 0x0A] ls = response_text as"
  by (auto simp: response_lines_def response_text_def)

lemma fallback_response:
  "targeted_template prompt = Some t \<Longrightarrow> \<exists>as. list_all line_args as \<and> t = response_text as"
  "\<exists>as. list_all line_args as \<and> canned_response prompt = response_text as"
  unfolding targeted_template_def vehicle_template_def canned_response_def Let_def
  by (auto intro!: response_lines_join templates_ok split: if_splits)

lemma accept_candidate_text: "accept_candidate ld prompt cand = Inr r \<Longrightarrow> \<exists>as. list_all line_args as \<and> r = response_text as"
  by (auto simp: accept_candidate_def validate_json_response_def dest: validate_response_text
      split: sum.splits exc.splits if_splits option.splits json.splits)

lemma attempts_text:
  "attempts sv backend prompt k cand w = (Inr (Some r), w') \<Longrightarrow> \<exists>as. list_all line_args as \<and> r = response_text as"
proof (induction k arbitrary: cand w)
  case 0
  then show ?case by (subst (asm) attempts.simps) (auto dest: accept_candidate_text split: sum.splits exc.splits)
next
  case (Suc k)
  then show ?case
    by (subst (asm) attempts.simps) (auto dest: accept_candidate_text split: sum.splits exc.splits prod.splits option.splits)
qed

lemma try_backends_text:
  "try_backends sv prompt bs w = (Inr (Some r), w') \<Longrightarrow> \<exists>as. list_all line_args as \<and> r = response_text as"
  by (induction bs arbitrary: w) (auto dest: attempts_text split: prod.splits option.splits sum.splits)

lemma generate_response_text:
  "generate_response sv prompt w = (Inr r, w') \<Longrightarrow> \<exists>as. list_all line_args as \<and> r = response_text as"
  using fallback_response try_backends_text [of sv prompt backend_attempt_order w]
  by (auto simp: generate_response_def split: prod.splits sum.splits option.splits)

lemma response_text_accepted:
  assumes "list_all line_args as" "canvas_ok c" "t = [] \<or> (\<exists>u. t = CHR 0x0A # u)"
  shows "\<exists>c'. draw_lines (response_text as @ t) c = Some (Complete c') \<and> canvas_ok c'"
proof -
  have "list_all draw_line (map line_text as)" using assms(1) line_args_draw_line by (simp add: list_all_iff)
  from draw_lines_accepts [OF this assms(2,3)] show ?thesis by (simp add: response_text_def join_lines)
qed

text \<open>C27: Whatever the model services answer, if the agent produces a response then aidraw accepts it: every line is a
  drawing command aidraw can read, END is there, and the drawing is completed on the canvas.\<close>

theorem agent_response_accepted:
  assumes "generate_response sv prompt w = (Inr r, w')" "canvas_ok c"
  shows "\<exists>c'. draw_lines r c = Some (Complete c') \<and> canvas_ok c'"
proof -
  obtain as where "list_all line_args as" "r = response_text as" using generate_response_text [OF assms(1)] by blast
  then show ?thesis using response_text_accepted [of as c "[]"] assms(2) by simp
qed

text \<open>Services that are never available, and a JSON parser that rejects everything.\<close>

definition no_services :: "unit services" where
  "no_services = \<lparr>generate = \<lambda>b p w. (None, w), repair = \<lambda>b p c w. (None, w), loads = \<lambda>t. None\<rparr>"

theorem agent_response_accepted_witness:
  "\<exists>r c'. fst (generate_response no_services ''a bus'' ()) = Inr r \<and> draw_lines r (replicate 64000 0) = Some (Complete c') \<and> canvas_ok c'"
proof -
  obtain r where "generate_response no_services ''a bus'' () = (Inr r, ())"
    by (cases "targeted_template ''a bus''") (auto simp: generate_response_def backend_attempt_order_def no_services_def)
  moreover have "canvas_ok (replicate 64000 0)" by (simp add: canvas_ok_def canvas_consts)
  ultimately show ?thesis using agent_response_accepted by fastforce
qed

text \<open>C34: An infinite number in a JSON plan ends the agent: int() raises OverflowError, which neither
  validate_json_response() nor generate_response() catches.\<close>

theorem infinite_number_escapes:
  assumes "generate sv ''claude'' prompt w = (Some text, w')"
    and "extract_json_object text = Inr t"
    and "loads sv t = Some (JObj [(''commands'', JList [JObj [(''cmd'', JStr ''CLEAR''), (''color'', JInfinity)]])])"
  shows "generate_response sv prompt w = (Inl Overflow_Error, w')"
proof -
  have "py_upper ''CLEAR'' = ''CLEAR''" by code_simp
  then have "validate_json_response (loads sv) text = Inl Overflow_Error"
    by (simp add: validate_json_response_def assms(2,3) command_to_dsl_def format_command_def)
  then show ?thesis
    by (simp add: generate_response_def backend_attempt_order_def assms(1) MAX_MODEL_REPAIRS_def attempts.simps accept_candidate_def)
qed

definition infinite_services :: "unit services" where
  "infinite_services = \<lparr>generate = \<lambda>b p w. (Some [CHR 0x7B, CHR 0x7D], w), repair = \<lambda>b p c w. (None, w),
     loads = \<lambda>t. Some (JObj [(''commands'', JList [JObj [(''cmd'', JStr ''CLEAR''), (''color'', JInfinity)]])])\<rparr>"

theorem infinite_number_escapes_witness:
  "generate_response infinite_services ''house'' () = (Inl Overflow_Error, ())"
  by (rule infinite_number_escapes [of _ _ _ "[CHR 0x7B, CHR 0x7D]" _ "[CHR 0x7B, CHR 0x7D]"])
    (simp_all add: infinite_services_def extract_json_object_def)

end
