(* ===== verification/Ai.thy ===== *)
theory Ai
  imports Prelude
begin

text \<open>
  src/ai.c: the kernel's end of the conversation with the drawing assistant over
  the serial line.  \<open>a_line\<close> and \<open>a_response\<close> hold the bytes of \<open>ai.line\<close> and \<open>ai.response\<close>
  below line_len and response_len; the terminating zero byte is not part of them.
  aiquery() waits for the interrupt handler, so it is split into what it does before it
  waits (\<open>aiquery_start\<close>) and one round of its loop (\<open>aiquery_poll\<close>).
\<close>

section \<open>Model\<close>

definition AI_PROMPT_LIMIT :: int where "AI_PROMPT_LIMIT = 512"
definition AI_RESPONSE_LIMIT :: nat where "AI_RESPONSE_LIMIT = 32768"
definition AI_LINE_MAX :: nat where "AI_LINE_MAX = 1024"
definition AI_TIMEOUT_TICKS :: u32 where "AI_TIMEOUT_TICKS = 500000"

record ai =
  a_active :: bool
  a_draining :: bool
  a_suppress :: bool
  a_in_response :: bool
  a_complete :: bool
  a_failed :: bool
  a_response :: string
  a_line :: string

text \<open>A buffer read as a C string ends at its first zero byte.\<close>

definition upto_nul :: "string \<Rightarrow> string" where
  "upto_nul s = takeWhile (\<lambda>c. c \<noteq> CHR 0x00) s"

definition streq :: "string \<Rightarrow> string \<Rightarrow> bool" where
  "streq lhs rhs =
     (let lhs = upto_nul lhs; rhs = upto_nul rhs in
      if length lhs \<noteq> length rhs then False else take (length lhs) lhs = take (length lhs) rhs)"

definition ai_finish_locked :: "bool \<Rightarrow> ai \<Rightarrow> ai" where
  "ai_finish_locked f s =
     s\<lparr>a_failed := f, a_complete := True, a_active := False, a_draining := False, a_suppress := False\<rparr>"

definition ai_append_line_locked :: "ai \<Rightarrow> ai" where
  "ai_append_line_locked s =
     (if length (a_response s) + length (a_line s) + 1 \<ge> AI_RESPONSE_LIMIT then ai_finish_locked True s
      else s\<lparr>a_response := a_response s @ a_line s @ [CHR 0x0A]\<rparr>)"

definition ai_send_prompt :: "string \<Rightarrow> string" where
  "ai_send_prompt prompt = map (\<lambda>c. if c = CHR 0x0A \<or> c = CHR 0x0D then CHR '' '' else c) prompt"

definition aiinit :: ai where
  "aiinit = \<lparr>a_active = False, a_draining = False, a_suppress = False, a_in_response = False,
     a_complete = False, a_failed = False, a_response = [], a_line = []\<rparr>"

definition ai_should_suppress_console :: "ai \<Rightarrow> bool" where
  "ai_should_suppress_console s = a_suppress s"

definition ai_is_active :: "ai \<Rightarrow> bool" where
  "ai_is_active s \<longleftrightarrow> a_active s \<or> a_draining s"

definition ai_uart_rx :: "char \<Rightarrow> ai \<Rightarrow> ai" where
  "ai_uart_rx c s =
     (if \<not> a_active s \<and> \<not> a_draining s then s
      else if c = CHR 0x0D then s
      else if c \<noteq> CHR 0x0A then
        if length (a_line s) \<ge> AI_LINE_MAX - 1 then ai_finish_locked True s
        else s\<lparr>a_line := a_line s @ [c]\<rparr>
      else
        let s = (if \<not> a_in_response s then
                   if streq (a_line s) ''BEGIN_RESP'' then s\<lparr>a_in_response := True, a_response := []\<rparr> else s
                 else if streq (a_line s) ''END_RESP'' then ai_finish_locked False s
                 else ai_append_line_locked s)
        in s\<lparr>a_line := []\<rparr>)"

text \<open>aiquery() up to its wait: the new state and the bytes sent, or None for the return of -1.\<close>

definition aiquery_start :: "string \<Rightarrow> int \<Rightarrow> ai \<Rightarrow> (ai \<times> string) option" where
  "aiquery_start prompt maxlen s =
     (if int (length prompt) > AI_PROMPT_LIMIT \<or> maxlen \<le> 0 then None
      else if a_active s \<or> a_draining s then None
      else Some
        (\<lparr>a_active = True, a_draining = False, a_suppress = True, a_in_response = False,
          a_complete = False, a_failed = False, a_response = [], a_line = []\<rparr>,
         ''BEGIN_REQ'' @ [CHR 0x0A] @ ''DRAW'' @ [CHR 0x0A] @ ai_send_prompt prompt @
         [CHR 0x0A] @ ''END_REQ'' @ [CHR 0x0A]))"

datatype answer = Wait | Fails | Answer string

definition aiquery_poll :: "bool \<Rightarrow> u32 \<Rightarrow> u32 \<Rightarrow> int \<Rightarrow> ai \<Rightarrow> answer \<times> ai" where
  "aiquery_poll killed started now maxlen s =
     (if \<not> a_complete s then
        if killed then (Fails, s\<lparr>a_active := False, a_draining := True, a_suppress := False\<rparr>)
        else if now - started \<ge> AI_TIMEOUT_TICKS then
          (Fails, s\<lparr>a_active := False, a_draining := True, a_suppress := False\<rparr>)
        else (Wait, s)
      else if a_failed s \<or> int (length (a_response s)) + 1 > maxlen then (Fails, s)
      else (Answer (a_response s), s))"

section \<open>The buffers never overflow\<close>

definition ai_ok :: "ai \<Rightarrow> bool" where
  "ai_ok s \<longleftrightarrow> length (a_line s) < AI_LINE_MAX \<and> length (a_response s) < AI_RESPONSE_LIMIT \<and>
     (a_suppress s \<longrightarrow> a_active s) \<and> \<not> (a_active s \<and> a_draining s) \<and> (a_active s \<longrightarrow> \<not> a_complete s)"

text \<open>The events of the driver: a byte arrives, a process asks, a waiting process looks again.\<close>

inductive ai_step :: "ai \<Rightarrow> ai \<Rightarrow> bool" where
  rx: "ai_step s (ai_uart_rx c s)"
| ask: "aiquery_start prompt maxlen s = Some (s', out) \<Longrightarrow> ai_step s s'"
| look: "aiquery_poll killed started now maxlen s = (r, s') \<Longrightarrow> a_active s \<or> a_complete s \<Longrightarrow> ai_step s s'"

inductive ai_reach :: "ai \<Rightarrow> bool" where
  init: "ai_reach aiinit"
| step: "ai_reach s \<Longrightarrow> ai_step s s' \<Longrightarrow> ai_reach s'"

lemma ai_ok_uart_rx: "ai_ok s \<Longrightarrow> ai_ok (ai_uart_rx c s)"
  by (auto simp: ai_ok_def ai_uart_rx_def ai_append_line_locked_def ai_finish_locked_def Let_def AI_LINE_MAX_def)

lemma ai_ok_step: "ai_step s s' \<Longrightarrow> ai_ok s \<Longrightarrow> ai_ok s'"
proof (induction rule: ai_step.induct)
  case (rx s c)
  then show ?case by (rule ai_ok_uart_rx)
next
  case (ask prompt maxlen s s' out)
  then show ?case by (auto simp: aiquery_start_def ai_ok_def AI_LINE_MAX_def AI_RESPONSE_LIMIT_def split: if_splits)
next
  case (look killed started now maxlen s r s')
  then show ?case by (auto simp: aiquery_poll_def ai_ok_def split: if_splits)
qed

lemma ai_reach_ok: "ai_reach s \<Longrightarrow> ai_ok s"
proof (induction rule: ai_reach.induct)
  case init
  show ?case by (simp add: ai_ok_def aiinit_def AI_LINE_MAX_def AI_RESPONSE_LIMIT_def)
qed (rule ai_ok_step)

section \<open>A framed response\<close>

definition ai_feed :: "string \<Rightarrow> ai \<Rightarrow> ai" where
  "ai_feed cs s = fold ai_uart_rx cs s"

lemma ai_feed_simps [simp]:
  "ai_feed [] s = s" "ai_feed (c # cs) s = ai_feed cs (ai_uart_rx c s)" "ai_feed (cs @ ds) s = ai_feed ds (ai_feed cs s)"
  by (simp_all add: ai_feed_def)

text \<open>A line of text that fits the line buffer.\<close>

definition text_line :: "string \<Rightarrow> bool" where
  "text_line l \<longleftrightarrow> CHR 0x0A \<notin> set l \<and> CHR 0x0D \<notin> set l \<and> CHR 0x00 \<notin> set l \<and> length l < AI_LINE_MAX"

definition unlines :: "string list \<Rightarrow> string" where
  "unlines ls = concat (map (\<lambda>l. l @ [CHR 0x0A]) ls)"

lemma unlines_simps [simp]: "unlines [] = []" "unlines (l # ls) = l @ CHR 0x0A # unlines ls"
  by (simp_all add: unlines_def)

lemma ai_feed_chars:
  "a_active s \<Longrightarrow> CHR 0x0A \<notin> set l \<Longrightarrow> CHR 0x0D \<notin> set l \<Longrightarrow> length (a_line s) + length l < AI_LINE_MAX \<Longrightarrow>
     ai_feed l s = s\<lparr>a_line := a_line s @ l\<rparr>"
  by (induction l arbitrary: s) (auto simp: ai_uart_rx_def)

lemma upto_nul_id: "CHR 0x00 \<notin> set l \<Longrightarrow> upto_nul l = l"
  unfolding upto_nul_def takeWhile_eq_all_conv by blast

lemma streq_eq: "CHR 0x00 \<notin> set l \<Longrightarrow> CHR 0x00 \<notin> set r \<Longrightarrow> streq l r \<longleftrightarrow> l = r"
  by (auto simp: streq_def upto_nul_id)

text \<open>A whole line arrives while a query is waiting.\<close>

lemma ai_feed_line:
  assumes "a_active s" "a_line s = []" "text_line l"
  shows "ai_feed (l @ [CHR 0x0A]) s =
    (if \<not> a_in_response s then if l = ''BEGIN_RESP'' then s\<lparr>a_in_response := True, a_response := []\<rparr> else s
     else if l = ''END_RESP'' then ai_finish_locked False s
     else if length (a_response s) + length l + 1 \<ge> AI_RESPONSE_LIMIT then ai_finish_locked True s
     else s\<lparr>a_response := a_response s @ l @ [CHR 0x0A]\<rparr>)"
proof -
  have f: "ai_feed l s = s\<lparr>a_line := l\<rparr>" using ai_feed_chars [of s l] assms by (simp add: text_line_def)
  have e: "streq l ''BEGIN_RESP'' \<longleftrightarrow> l = ''BEGIN_RESP''" "streq l ''END_RESP'' \<longleftrightarrow> l = ''END_RESP''"
    using assms(3) by (simp_all add: streq_eq text_line_def)
  have l: "s\<lparr>a_line := []\<rparr> = s" using assms(2) by simp
  show ?thesis using assms(1,2) l
    by (auto simp: f e ai_uart_rx_def ai_append_line_locked_def ai_finish_locked_def Let_def)
qed

lemma ai_feed_noise:
  assumes "a_active s" "a_line s = []" "\<not> a_in_response s" "list_all (\<lambda>l. text_line l \<and> l \<noteq> ''BEGIN_RESP'') ls"
  shows "ai_feed (unlines ls) s = s"
  using assms(4)
proof (induction ls)
  case (Cons l ls)
  then have "ai_feed (l @ [CHR 0x0A]) s = s" using ai_feed_line [OF assms(1,2), of l] assms(3) by simp
  then show ?case using Cons by simp
qed simp

lemma ai_feed_body:
  assumes "a_active s" "a_line s = []" "a_in_response s" "list_all (\<lambda>l. text_line l \<and> l \<noteq> ''END_RESP'') ls"
    "length (a_response s) + length (unlines ls) < AI_RESPONSE_LIMIT"
  shows "ai_feed (unlines ls) s = s\<lparr>a_response := a_response s @ unlines ls\<rparr>"
  using assms
proof (induction ls arbitrary: s)
  case (Cons l ls)
  then have "ai_feed (l @ [CHR 0x0A]) s = s\<lparr>a_response := a_response s @ l @ [CHR 0x0A]\<rparr>"
    using ai_feed_line [of s l] by simp
  moreover have "ai_feed (unlines ls) (s\<lparr>a_response := a_response s @ l @ [CHR 0x0A]\<rparr>) =
      s\<lparr>a_response := a_response s @ l @ [CHR 0x0A] @ unlines ls\<rparr>"
    using Cons by simp
  ultimately show ?case by simp
qed simp

text \<open>Too long a response fails the query, and what follows of it is ignored.\<close>

lemma ai_feed_idle: "\<not> a_active s \<Longrightarrow> \<not> a_draining s \<Longrightarrow> ai_feed cs s = s"
  by (induction cs) (auto simp: ai_uart_rx_def)

lemma ai_feed_overflow:
  assumes "a_active s" "a_line s = []" "a_in_response s" "list_all (\<lambda>l. text_line l \<and> l \<noteq> ''END_RESP'') ls"
    "length (a_response s) < AI_RESPONSE_LIMIT" "length (a_response s) + length (unlines ls) \<ge> AI_RESPONSE_LIMIT"
  shows "\<exists>s'. ai_feed (unlines ls) s = ai_finish_locked True s'"
  using assms
proof (induction ls arbitrary: s)
  case (Cons l ls)
  note line = ai_feed_line [OF Cons.prems(1,2), of l]
  show ?case
  proof (cases "length (a_response s) + length l + 1 \<ge> AI_RESPONSE_LIMIT")
    case True
    then have e: "ai_feed (l @ [CHR 0x0A]) s = ai_finish_locked True s" using line Cons.prems(3,4) by simp
    have "ai_feed (unlines ls) (ai_finish_locked True s) = ai_finish_locked True s"
      by (rule ai_feed_idle) (simp_all add: ai_finish_locked_def)
    then show ?thesis using e by simp blast
  next
    case False
    let ?s = "s\<lparr>a_response := a_response s @ l @ [CHR 0x0A]\<rparr>"
    have e: "ai_feed (l @ [CHR 0x0A]) s = ?s" using line Cons.prems(3,4) False by simp
    have "\<exists>s'. ai_feed (unlines ls) ?s = ai_finish_locked True s'" using Cons.prems False by (intro Cons.IH) simp_all
    then show ?thesis using e by simp
  qed
qed simp

definition framed :: "string list \<Rightarrow> string" where
  "framed ls = unlines ([''BEGIN_RESP''] @ ls @ [''END_RESP''])"

lemma ai_feed_framed:
  assumes s: "a_active s" "a_line s = []" "\<not> a_in_response s"
    and "list_all (\<lambda>l. text_line l \<and> l \<noteq> ''END_RESP'') ls" "length (unlines ls) < AI_RESPONSE_LIMIT"
  shows "ai_feed (framed ls) s = ai_finish_locked False (s\<lparr>a_in_response := True, a_response := unlines ls\<rparr>)"
proof -
  let ?b = "s\<lparr>a_in_response := True, a_response := []\<rparr>"
  have t: "text_line ''BEGIN_RESP''" "text_line ''END_RESP''" by (simp_all add: text_line_def AI_LINE_MAX_def)
  have u: "framed ls = (''BEGIN_RESP'' @ [CHR 0x0A]) @ unlines ls @ (''END_RESP'' @ [CHR 0x0A])"
    by (simp add: unlines_def framed_def)
  have b: "ai_feed (''BEGIN_RESP'' @ [CHR 0x0A]) s = ?b" using ai_feed_line [OF s(1,2) t(1)] s(3) by (simp del: ai_feed_simps)
  have l: "ai_feed (unlines ls) ?b = ?b\<lparr>a_response := unlines ls\<rparr>"
    using ai_feed_body [of ?b ls] assms by simp
  have e: "ai_feed (''END_RESP'' @ [CHR 0x0A]) (?b\<lparr>a_response := unlines ls\<rparr>) = ai_finish_locked False (?b\<lparr>a_response := unlines ls\<rparr>)"
    using ai_feed_line [of "?b\<lparr>a_response := unlines ls\<rparr>" "''END_RESP''"] s t(2) by (simp del: ai_feed_simps)
  show ?thesis
    unfolding u ai_feed_simps(3) [of "''BEGIN_RESP'' @ _"] ai_feed_simps(3) [of "unlines ls"] b l e by simp
qed

lemma ai_feed_framed_overflow:
  assumes s: "a_active s" "a_line s = []" "\<not> a_in_response s"
    and "list_all (\<lambda>l. text_line l \<and> l \<noteq> ''END_RESP'') ls" "length (unlines ls) \<ge> AI_RESPONSE_LIMIT"
  shows "\<exists>s'. ai_feed (framed ls) s = ai_finish_locked True s'"
proof -
  let ?b = "s\<lparr>a_in_response := True, a_response := []\<rparr>"
  have t: "text_line ''BEGIN_RESP''" by (simp add: text_line_def AI_LINE_MAX_def)
  have u: "framed ls = (''BEGIN_RESP'' @ [CHR 0x0A]) @ unlines ls @ (''END_RESP'' @ [CHR 0x0A])"
    by (simp add: unlines_def framed_def)
  have b: "ai_feed (''BEGIN_RESP'' @ [CHR 0x0A]) s = ?b" using ai_feed_line [OF s(1,2) t] s(3) by (simp del: ai_feed_simps)
  obtain s' where s': "ai_feed (unlines ls) ?b = ai_finish_locked True s'"
    using ai_feed_overflow [of ?b ls] assms by (auto simp: AI_RESPONSE_LIMIT_def)
  have "ai_feed (''END_RESP'' @ [CHR 0x0A]) (ai_finish_locked True s') = ai_finish_locked True s'"
    by (rule ai_feed_idle) (simp_all add: ai_finish_locked_def)
  then show ?thesis
    unfolding u ai_feed_simps(3) [of "''BEGIN_RESP'' @ _"] ai_feed_simps(3) [of "unlines ls"] b s' by blast
qed

lemma aiquery_start_fresh:
  "aiquery_start prompt maxlen s0 = Some (s, out) \<Longrightarrow> a_active s \<and> a_line s = [] \<and> \<not> a_in_response s"
  by (auto simp: aiquery_start_def split: if_splits)

text \<open>C29: A query receives exactly the response that was framed for it: lines before BEGIN_RESP are ignored,
  the lines up to END_RESP become the answer, and the system call returns it if the caller's buffer is
  large enough.\<close>

theorem framed_response:
  assumes "aiquery_start prompt maxlen s0 = Some (s, out)"
    and "list_all (\<lambda>l. text_line l \<and> l \<noteq> ''BEGIN_RESP'') noise"
    and "list_all (\<lambda>l. text_line l \<and> l \<noteq> ''END_RESP'') ls"
    and "length (unlines ls) < AI_RESPONSE_LIMIT" "int (length (unlines ls)) < maxlen"
  shows "fst (aiquery_poll killed started now maxlen (ai_feed (unlines noise @ framed ls) s)) = Answer (unlines ls)"
proof -
  have s: "a_active s" "a_line s = []" "\<not> a_in_response s" using aiquery_start_fresh [OF assms(1)] by blast+
  show ?thesis using assms(5)
    by (simp add: ai_feed_noise [OF s assms(2)] ai_feed_framed [OF s assms(3,4)] aiquery_poll_def ai_finish_locked_def)
qed

theorem framed_response_witness:
  "fst (aiquery_poll False 0 9 32768 (ai_feed (unlines [''login:''] @ framed [''CLEAR 9'', ''END''])
     (fst (the (aiquery_start ''house'' 32768 aiinit))))) = Answer (unlines [''CLEAR 9'', ''END''])"
proof -
  obtain s out where s: "aiquery_start ''house'' 32768 aiinit = Some (s, out)"
    by (simp add: aiquery_start_def AI_PROMPT_LIMIT_def aiinit_def)
  have "fst (aiquery_poll False 0 9 32768 (ai_feed (unlines [''login:''] @ framed [''CLEAR 9'', ''END'']) s))
      = Answer (unlines [''CLEAR 9'', ''END''])"
    by (rule framed_response [OF s]) (simp_all add: text_line_def AI_LINE_MAX_def AI_RESPONSE_LIMIT_def)
  then show ?thesis by (simp add: s)
qed



text \<open>C33: A finished query does not reserve its answer: a second process that asks before the first has
  looked makes the first one return the second one's answer.\<close>

theorem answers_can_cross:
  "\<exists>s1 s2 s3 s4 out1 out2. aiquery_start ''cat'' 100 aiinit = Some (s1, out1) \<and>
     s2 = ai_feed (framed [''CLEAR 1'']) s1 \<and> aiquery_start ''dog'' 100 s2 = Some (s3, out2) \<and>
     s4 = ai_feed (framed [''CLEAR 2'']) s3 \<and>
     fst (aiquery_poll False 0 1 100 s2) = Answer (unlines [''CLEAR 1'']) \<and>
     fst (aiquery_poll False 0 2 100 s3) = Wait \<and>
     fst (aiquery_poll False 0 3 100 s4) = Answer (unlines [''CLEAR 2''])"
proof -
  have f: "list_all (\<lambda>l. text_line l \<and> l \<noteq> ''END_RESP'') [l]" "length (unlines [l]) < AI_RESPONSE_LIMIT" "length (unlines [l]) < 99"
    if "l \<in> {''CLEAR 1'', ''CLEAR 2''}" for l
    using that by (auto simp: text_line_def AI_LINE_MAX_def AI_RESPONSE_LIMIT_def)
  have start: "\<exists>s' out. aiquery_start prompt 100 s = Some (s', out) \<and> a_active s' \<and> a_line s' = [] \<and> \<not> a_in_response s' \<and> \<not> a_complete s'"
    if "\<not> a_active s" "\<not> a_draining s" "length prompt = 3" for s prompt
    using that by (simp add: aiquery_start_def AI_PROMPT_LIMIT_def)
  obtain s1 out1 where 1: "aiquery_start ''cat'' 100 aiinit = Some (s1, out1)" "a_active s1" "a_line s1 = []" "\<not> a_in_response s1"
    using start [of aiinit "''cat''"] by (auto simp: aiinit_def)
  note 2 = ai_feed_framed [OF 1(2-4) f(1,2), of "''CLEAR 1''", simplified]
  obtain s3 out2 where 3: "aiquery_start ''dog'' 100 (ai_feed (framed [''CLEAR 1'']) s1) = Some (s3, out2)" "a_active s3" "a_line s3 = []"
    "\<not> a_in_response s3" "\<not> a_complete s3"
    using start [of "ai_feed (framed [''CLEAR 1'']) s1" "''dog''"] 2 by (auto simp: ai_finish_locked_def)
  note 4 = ai_feed_framed [OF 3(2-4) f(1,2), of "''CLEAR 2''", simplified]
  show ?thesis using 1(1) 2 3(1,5) 4
    by (intro exI conjI) (auto simp: aiquery_poll_def ai_finish_locked_def AI_TIMEOUT_TICKS_def)
qed

end
