(* ===== verification/Assistant.thy ===== *)
theory Assistant
  imports Agent Ai
begin

text \<open>
  The whole conversation: the system call of theory \<open>Ai\<close> sends a prompt over the serial
  line, the agent of theory \<open>Agent\<close> answers, the interrupt handler collects the answer
  and the program of theory \<open>Aidraw\<close> draws it.
\<close>

section \<open>The composed query\<close>

text \<open>The lines of a byte stream, each with its line end, as readline() returns them.\<close>

fun raw_lines :: "string \<Rightarrow> string \<Rightarrow> string list" where
  "raw_lines cur [] = (if cur = [] then [] else [cur])"
| "raw_lines cur (c # s) = (if c = CHR 0x0A then (cur @ [c]) # raw_lines [] s else raw_lines (cur @ [c]) s)"

text \<open>
  One call of ai_query() with the agent at the other end.  When the agent has stopped, nothing
  arrives and the call runs into its timeout.
\<close>

definition assistant_query :: "'w services \<Rightarrow> string \<Rightarrow> nat \<Rightarrow> ai \<times> 'w \<Rightarrow> (int \<times> string) \<times> (ai \<times> 'w)" where
  "assistant_query sv prompt maxlen = (\<lambda>(a, w).
     case aiquery_start prompt (int maxlen) a of
       None \<Rightarrow> ((-1, []), (a, w))
     | Some (a, sent) \<Rightarrow>
         (case read_request (raw_lines [] sent) of
            None \<Rightarrow> ((-1, []), (snd (aiquery_poll False 0 AI_TIMEOUT_TICKS (int maxlen) a), w))
          | Some (request, _) \<Rightarrow>
              (case generate_response sv request w of
                 (Inl e, w) \<Rightarrow> ((-1, []), (snd (aiquery_poll False 0 AI_TIMEOUT_TICKS (int maxlen) a), w))
               | (Inr body, w) \<Rightarrow>
                   (case aiquery_poll False 0 0 (int maxlen) (ai_feed (send_response body) a) of
                      (Answer t, a) \<Rightarrow> ((int (length t), upto_nul t), (a, w))
                    | (r, a) \<Rightarrow> ((-1, []), (a, w))))))"

section \<open>The request\<close>

lemma raw_lines_line: "CHR 0x0A \<notin> set l \<Longrightarrow> raw_lines cur (l @ CHR 0x0A # s) = (cur @ l @ [CHR 0x0A]) # raw_lines [] s"
  by (induction l arbitrary: cur) auto

lemma recv_line_id: "CHR 0x0A \<notin> set l \<Longrightarrow> CHR 0x0D \<notin> set l \<Longrightarrow> recv_line (l @ [CHR 0x0A]) = l"
  by (cases l rule: rev_cases) (auto simp: recv_line_def)

lemma ai_send_prompt_plain: "CHR 0x0A \<notin> set (ai_send_prompt p)" "CHR 0x0D \<notin> set (ai_send_prompt p)"
  by (auto simp: ai_send_prompt_def)

lemma request_lines:
  assumes "aiquery_start prompt maxlen a = Some (a', sent)"
  shows "raw_lines [] sent = map (\<lambda>l. l @ [CHR 0x0A]) [''BEGIN_REQ'', ''DRAW'', ai_send_prompt prompt, ''END_REQ'']"
proof -
  have s: "sent = ''BEGIN_REQ'' @ CHR 0x0A # (''DRAW'' @ CHR 0x0A # (ai_send_prompt prompt @ CHR 0x0A # (''END_REQ'' @ CHR 0x0A # [])))"
    using assms by (auto simp: aiquery_start_def split: if_splits)
  show ?thesis unfolding s
    by (subst raw_lines_line, simp, subst raw_lines_line, simp, subst raw_lines_line, rule ai_send_prompt_plain, subst raw_lines_line) simp_all
qed

lemma read_request_reads:
  assumes "aiquery_start prompt maxlen a = Some (a', sent)" "ai_send_prompt prompt \<noteq> ''END_REQ''"
  shows "read_request (raw_lines [] sent) = Some (py_strip (ai_send_prompt prompt), [])"
proof -
  have r: "recv_line (''BEGIN_REQ'' @ [CHR 0x0A]) = ''BEGIN_REQ''" "recv_line (''DRAW'' @ [CHR 0x0A]) = ''DRAW''"
    "recv_line (''END_REQ'' @ [CHR 0x0A]) = ''END_REQ''" by (rule recv_line_id; simp)+
  have p: "recv_line (ai_send_prompt prompt @ [CHR 0x0A]) = ai_send_prompt prompt" by (rule recv_line_id) (rule ai_send_prompt_plain)+
  have b: "read_body [ai_send_prompt prompt @ [CHR 0x0A], ''END_REQ'' @ [CHR 0x0A]] = Some ([ai_send_prompt prompt], [])"
    unfolding read_body.simps p r using assms(2) by simp
  show ?thesis unfolding request_lines [OF assms(1)] list.map read_request.simps r list.case b option.case prod.case
    by simp
qed



section \<open>The answer\<close>

lemma nat_str_length: "n < 10 ^ Suc k \<Longrightarrow> length (nat_str n) \<le> Suc k"
proof (induction k arbitrary: n)
  case (Suc k)
  show ?case
  proof (cases "n < 10")
    case False
    have "n div 10 < 10 ^ Suc k" using Suc.prems by (simp add: less_mult_imp_div_less)
    then show ?thesis using Suc.IH [of "n div 10"] False by (subst nat_str.simps) simp
  qed (subst nat_str.simps, simp)
qed (subst nat_str.simps, simp)

lemma int_str_length:
  assumes "\<bar>v\<bar> \<le> 4096"
  shows "length (int_str v) \<le> 5"
proof -
  have "nat (- v) < 10 ^ Suc 3" "nat v < 10 ^ Suc 3" using assms by auto
  then show ?thesis using nat_str_length [of "nat (- v)" 3] nat_str_length [of "nat v" 3] by (auto simp: int_str_def)
qed

lemma numbers_length: "list_all (\<lambda>v. \<bar>v\<bar> \<le> 4096) vs \<Longrightarrow> length (numbers vs) \<le> 6 * length vs"
proof (induction vs)
  case (Cons v vs)
  then show ?case using int_str_length [of v] by simp
qed simp

lemma line_args_length: "line_args (name, vs) \<Longrightarrow> length vs \<le> 34"
  by (auto simp: line_args_def COMMAND_ARITY_def split: if_splits)

lemma text_line_args: "line_args a \<Longrightarrow> text_line (line_text a)"
proof (cases a)
  case (Pair name vs)
  assume a: "line_args a"
  then have l: "length name \<le> 12" "length vs \<le> 34" "length (numbers vs) \<le> 6 * length vs"
    using line_args_name line_args_length numbers_length unfolding Pair by (blast, blast, simp add: line_args_def)
  then have "length (line_text (name, vs)) < AI_LINE_MAX" by (simp add: line_text_def AI_LINE_MAX_def)
  then show ?thesis using line_text_plain [of name vs] a unfolding Pair text_line_def by blast
qed

lemma line_text_not_end: "line_args a \<Longrightarrow> line_text a \<noteq> ''END_RESP''"
proof (cases a)
  case (Pair name vs)
  assume "line_args a"
  then have "name \<in> fst ` set COMMAND_ARITY - {''END''}" unfolding Pair
    by (auto simp: line_args_def COMMAND_ARITY_def split: if_splits)
  then show ?thesis by (auto simp: Pair line_text_def COMMAND_ARITY_def)
qed

lemma send_response_framed:
  "send_response (response_text as) = framed (map line_text as @ [''END''])"
proof -
  have "py_rstrip (u @ ''END'') = u @ ''END''" for u by (simp add: py_rstrip_def py_space_def)
  then have "py_rstrip (response_text as) = response_text as" by (simp add: response_text_def join_lines)
  then show ?thesis by (simp add: send_response_def framed_def response_text_def join_lines unlines_def)
qed

lemma response_unlines: "unlines (map line_text as @ [''END'']) = response_text as @ [CHR 0x0A]"
  by (simp add: unlines_def response_text_def join_lines)

lemma response_nul_free: "list_all line_args as \<Longrightarrow> upto_nul (response_text as @ [CHR 0x0A]) = response_text as @ [CHR 0x0A]"
proof (rule upto_nul_id)
  assume a: "list_all line_args as"
  have "CHR 0x00 \<notin> set (line_text x)" if "x \<in> set as" for x
    using that a line_text_plain [of "fst x" "snd x" "CHR 0x00"] by (auto simp: list_all_iff)
  then show "CHR 0x00 \<notin> set (response_text as @ [CHR 0x0A])" by (auto simp: response_text_def join_lines)
qed

lemma query_answer:
  assumes "aiquery_start prompt maxlen a0 = Some (a, sent)" "list_all line_args as"
    "aiquery_poll killed started now maxlen (ai_feed (send_response (response_text as)) a) = (Answer t, a')"
  shows "t = response_text as @ [CHR 0x0A]"
proof -
  note f = aiquery_start_fresh [OF assms(1)]
  let ?ls = "map line_text as @ [''END'']"
  have ls: "list_all (\<lambda>l. text_line l \<and> l \<noteq> ''END_RESP'') ?ls"
    using assms(2) text_line_args line_text_not_end by (auto simp: list_all_iff text_line_def AI_LINE_MAX_def)
  show ?thesis
  proof (cases "length (unlines ?ls) < AI_RESPONSE_LIMIT")
    case True
    then have "ai_feed (framed ?ls) a = ai_finish_locked False (a\<lparr>a_in_response := True, a_response := unlines ?ls\<rparr>)"
      using ai_feed_framed [OF _ _ _ ls] f by blast
    then show ?thesis using assms(3) unfolding send_response_framed response_unlines
      by (auto simp: aiquery_poll_def ai_finish_locked_def split: if_splits)
  next
    case False
    then obtain s' where "ai_feed (framed ?ls) a = ai_finish_locked True s'"
      using ai_feed_framed_overflow [OF _ _ _ ls] f by (meson not_less)
    then show ?thesis using assms(3) unfolding send_response_framed
      by (auto simp: aiquery_poll_def ai_finish_locked_def split: if_splits)
  qed
qed

lemma assistant_query_drawable:
  assumes "assistant_query sv prompt maxlen (a, w) = ((n, t), s')" "0 \<le> n" "canvas_ok c"
  shows "\<exists>c'. draw_lines t c = Some (Complete c') \<and> canvas_ok c'"
proof -
  obtain a1 sent where st: "aiquery_start prompt (int maxlen) a = Some (a1, sent)"
    using assms(1,2) by (auto simp: assistant_query_def split: option.splits)
  obtain req rest where rq: "read_request (raw_lines [] sent) = Some (req, rest)"
    using assms(1,2) st by (auto simp: assistant_query_def split: option.splits)
  obtain body w1 where g: "generate_response sv req w = (Inr body, w1)"
    using assms(1,2) st rq by (auto simp: assistant_query_def split: prod.splits sum.splits)
  obtain u a2 where p: "aiquery_poll False 0 0 (int maxlen) (ai_feed (send_response body) a1) = (Answer u, a2)" "t = upto_nul u"
    using assms(1,2) st rq g by (auto simp: assistant_query_def split: prod.splits answer.splits)
  obtain as where as: "list_all line_args as" "body = response_text as" using generate_response_text [OF g] by blast
  have "u = response_text as @ [CHR 0x0A]" using query_answer [OF st as(1)] p(1) as(2) by blast
  then have "t = response_text as @ [CHR 0x0A]" using p(2) response_nul_free [OF as(1)] by simp
  then show ?thesis using response_text_accepted [OF as(1) assms(3)] by blast
qed

text \<open>C26: With the agent at the other end of the serial line, aidraw never rejects what it gets: whatever the arguments,
  the model services and the state of the driver, the program ends, and not with an invalid command or a
  missing END.\<close>

theorem conversation_accepted:
  assumes "c_ai_query k = assistant_query sv"
    and "\<And>n s m s'. c_malloc k n s = (Some m, s') \<Longrightarrow> length m = n"
  shows "\<exists>e s'. main k argv s = Some (e, s') \<and> e \<noteq> NoEnd \<and> (\<forall>l. e \<noteq> InvalidCommand l)"
proof -
  have cl: "\<exists>c'. canvas_clear 0 m = Some c' \<and> canvas_ok c'" if "c_malloc k (nat CANVAS_SIZE) s = (Some m, s')" for m s s'
    using draws_clear [of 0] assms(2) [OF that] by (auto simp: draws_def paints_def canvas_ok_def canvas_consts)
  have "\<exists>c'. draw_lines t c = Some (Complete c')"
    if "assistant_query sv prompt AI_RESPONSE_MAX s = ((n, t), s')" "\<not> n < 0" "canvas_ok c" for prompt s n t s' c
    using assistant_query_drawable [of sv prompt AI_RESPONSE_MAX "fst s" "snd s"] that by fastforce
  note dl = this
  consider "length argv < 2" | "\<not> length argv < 2" "join_prompt (tl argv) = None"
    | prompt where "\<not> length argv < 2" "join_prompt (tl argv) = Some prompt" by blast
  then show ?thesis
  proof cases
    case (3 prompt)
    obtain cv s1 where m1: "c_malloc k (nat CANVAS_SIZE) s = (cv, s1)" by (cases "c_malloc k (nat CANVAS_SIZE) s")
    obtain buf s2 where m2: "c_malloc k AI_RESPONSE_MAX s1 = (buf, s2)" by (cases "c_malloc k AI_RESPONSE_MAX s1")
    obtain n t s3 where q: "assistant_query sv prompt AI_RESPONSE_MAX s2 = ((n, t), s3)"
      by (metis surj_pair)
    note unf = main_def if_not_P [OF 3(1)] 3(2) option.case m1 m2 prod.case assms(1) q Let_def
    show ?thesis
    proof (cases "cv = None \<or> buf = None \<or> n < 0")
      case True
      then show ?thesis by (cases cv) (auto simp: unf)
    next
      case False
      then obtain m where m: "cv = Some m" by auto
      obtain c where c: "canvas_clear 0 m = Some c" "canvas_ok c" using cl m1 m by blast
      obtain c' where "draw_lines t c = Some (Complete c')" using dl [OF q] False c(2) by blast
      then show ?thesis using False m c(1) by (auto simp: unf split: prod.split)
    qed
  qed (simp_all add: main_def)
qed

definition demo_calls :: "(ai \<times> unit) calls" where
  "demo_calls = \<lparr>c_malloc = \<lambda>n s. (Some (replicate n 0), s), c_ai_query = assistant_query no_services,
     c_open = \<lambda>path s. (3, s), c_ioctl = \<lambda>fd req arg s. (0, s), c_read = \<lambda>fd n s. ((1, [10]), s),
     c_write = \<lambda>fd bs s. (int (length bs), s), c_close = \<lambda>fd s. s\<rparr>"

theorem conversation_accepted_witness:
  "\<exists>e s'. main demo_calls [''aidraw'', ''house''] (aiinit, ()) = Some (e, s') \<and> e \<noteq> NoEnd \<and> (\<forall>l. e \<noteq> InvalidCommand l)"
  by (rule conversation_accepted [of demo_calls no_services]) (simp_all add: demo_calls_def)

end
