(* ===== verification/Grep.thy ===== *)
theory Grep
  imports Ulib
begin

text \<open>
  src/grep.c: the pattern matcher on the characters of C strings, and the loop that cuts
  the input into lines.  The matcher is compared with the language of its pattern.
\<close>

section \<open>Model\<close>

function matchhere :: "string \<Rightarrow> string \<Rightarrow> bool" and matchstar :: "char \<Rightarrow> string \<Rightarrow> string \<Rightarrow> bool" where
  "matchhere re text =
     (case re of
        [] \<Rightarrow> True
      | c # rest \<Rightarrow>
          (case rest of
             d # re2 \<Rightarrow>
               if d = CHR ''*'' then matchstar c re2 text
               else (case text of t # text' \<Rightarrow> (c = CHR ''.'' \<or> c = t) \<and> matchhere rest text' | [] \<Rightarrow> False)
           | [] \<Rightarrow>
               if c = CHR ''$'' then text = []
               else (case text of t # text' \<Rightarrow> (c = CHR ''.'' \<or> c = t) \<and> matchhere rest text' | [] \<Rightarrow> False)))"
| "matchstar c re text =
     (matchhere re text \<or>
      (case text of [] \<Rightarrow> False | t # text' \<Rightarrow> (t = c \<or> c = CHR ''.'') \<and> matchstar c re text'))"
  by pat_completeness auto
termination
  by (relation "measures [case_sum (\<lambda>(re, t). length re + length t) (\<lambda>(c, re, t). length re + length t + 1)]") auto

declare matchhere.simps [simp del] matchstar.simps [simp del]

fun match_from :: "string \<Rightarrow> string \<Rightarrow> bool" where
  "match_from re text = (matchhere re text \<or> (case text of [] \<Rightarrow> False | t # text' \<Rightarrow> match_from re text'))"

declare match_from.simps [simp del]

definition match :: "string \<Rightarrow> string \<Rightarrow> bool" where
  "match re text =
     (case re of
        c # re' \<Rightarrow> if c = CHR ''^'' then matchhere re' text else match_from re text
      | [] \<Rightarrow> match_from re text)"

text \<open>The lines of the buffer that match are written with their line end; the rest is what follows the last one.\<close>

function grep_scan :: "string \<Rightarrow> string \<Rightarrow> string \<times> string" where
  "grep_scan pattern p =
     (case strchr p (CHR 0x0A) of
        None \<Rightarrow> ([], p)
      | Some q \<Rightarrow>
          let line = takeWhile (\<lambda>c. c \<noteq> CHR 0x0A) p;
              (out, rest) = grep_scan pattern (tl q)
          in ((if match pattern line then line @ [CHR 0x0A] else []) @ out, rest))"
  by pat_completeness auto
termination by (relation "measure (\<lambda>(pattern, p). length p)") (auto dest: strchr_tl [OF sym])

declare grep_scan.simps [simp del]

definition BUFSIZE :: nat where "BUFSIZE = 1024"

text \<open>
  The input as the pieces successive reads find; a read takes at most what the buffer has
  room for and leaves the rest of its piece.
\<close>

function grep :: "string \<Rightarrow> string \<Rightarrow> string list \<Rightarrow> string" where
  "grep pattern buf [] = []"
| "grep pattern buf (piece # pieces) =
     (let room = BUFSIZE - length buf - 1; got = take room piece; left = drop room piece in
      if got = [] then []
      else
        let buf = buf @ got; (out, rest) = grep_scan pattern buf;
            buf = (if rest = buf then [] else rest)
        in out @ grep pattern buf (if left = [] then pieces else left # pieces))"
  by pat_completeness auto
termination
  by (relation "measures [\<lambda>(pattern, buf, ps). length (concat ps), \<lambda>(pattern, buf, ps). length ps]") auto

declare grep.simps(2) [simp del]

section \<open>The language of a pattern\<close>

datatype item = One char | Many char

definition allows :: "char \<Rightarrow> char \<Rightarrow> bool" where
  "allows c t \<longleftrightarrow> c = CHR ''.'' \<or> c = t"

text \<open>The items of a pattern, and whether it ends in the anchor.\<close>

fun items :: "string \<Rightarrow> item list \<times> bool" where
  "items [] = ([], False)"
| "items [c] = (if c = CHR ''$'' then ([], True) else ([One c], False))"
| "items (c # d # re) =
     (if d = CHR ''*'' then let (ks, e) = items re in (Many c # ks, e)
      else let (ks, e) = items (d # re) in (One c # ks, e))"

fun lang :: "item list \<Rightarrow> string set" where
  "lang [] = {[]}"
| "lang (One c # ks) = {t # u | t u. allows c t \<and> u \<in> lang ks}"
| "lang (Many c # ks) = {s @ u | s u. list_all (allows c) s \<and> u \<in> lang ks}"

text \<open>A prefix of the text is in the language, and it is the whole text if the pattern is anchored at its end.\<close>

definition prefix_in :: "string \<Rightarrow> string \<Rightarrow> bool" where
  "prefix_in re tx \<longleftrightarrow> (\<exists>u v. tx = u @ v \<and> u \<in> lang (fst (items re)) \<and> (snd (items re) \<longrightarrow> v = []))"

lemma prefix_in_one:
  assumes "items re = (One c # ks, e)" "items re' = (ks, e)"
  shows "prefix_in re tx \<longleftrightarrow> (\<exists>t tx'. tx = t # tx' \<and> allows c t \<and> prefix_in re' tx')"
proof
  assume "prefix_in re tx"
  then obtain w v where "tx = w @ v" "w \<in> lang (One c # ks)" "e \<longrightarrow> v = []" by (auto simp: prefix_in_def assms)
  then obtain t u where "tx = t # (u @ v)" "allows c t" "u \<in> lang ks" "e \<longrightarrow> v = []" by auto
  then show "\<exists>t tx'. tx = t # tx' \<and> allows c t \<and> prefix_in re' tx'"
    unfolding prefix_in_def assms by (intro exI conjI) simp_all
next
  assume "\<exists>t tx'. tx = t # tx' \<and> allows c t \<and> prefix_in re' tx'"
  then obtain t u v where "tx = (t # u) @ v" "allows c t" "u \<in> lang ks" "e \<longrightarrow> v = []"
    by (auto simp: prefix_in_def assms)
  then show "prefix_in re tx" unfolding prefix_in_def assms by (intro exI conjI) auto
qed

lemma prefix_in_many:
  assumes "items re = (Many c # ks, e)" "items re' = (ks, e)"
  shows "prefix_in re tx \<longleftrightarrow> (\<exists>s t. tx = s @ t \<and> list_all (allows c) s \<and> prefix_in re' t)"
proof
  assume "prefix_in re tx"
  then obtain w v where "tx = w @ v" "w \<in> lang (Many c # ks)" "e \<longrightarrow> v = []" by (auto simp: prefix_in_def assms)
  then obtain s u where "tx = s @ (u @ v)" "list_all (allows c) s" "u \<in> lang ks" "e \<longrightarrow> v = []" by auto
  then show "\<exists>s t. tx = s @ t \<and> list_all (allows c) s \<and> prefix_in re' t"
    unfolding prefix_in_def assms by (intro exI conjI) simp_all
next
  assume "\<exists>s t. tx = s @ t \<and> list_all (allows c) s \<and> prefix_in re' t"
  then obtain s u v where "tx = (s @ u) @ v" "list_all (allows c) s" "u \<in> lang ks" "e \<longrightarrow> v = []"
    by (auto simp: prefix_in_def assms)
  then show "prefix_in re tx" unfolding prefix_in_def assms by (intro exI conjI) auto
qed

lemma many_step:
  "(\<exists>s t. tx = s @ t \<and> list_all p s \<and> P t) \<longleftrightarrow>
     P tx \<or> (case tx of [] \<Rightarrow> False | a # tx' \<Rightarrow> p a \<and> (\<exists>s t. tx' = s @ t \<and> list_all p s \<and> P t))"
  (is "?l \<longleftrightarrow> ?r")
proof
  assume ?l
  then obtain s t where "tx = s @ t" "list_all p s" "P t" by blast
  then show ?r by (cases s) auto
next
  assume ?r
  then show ?l
  proof
    assume "P tx"
    then show ?l by (intro exI [of _ "[]"] exI [of _ "tx"]) simp
  next
    assume "case tx of [] \<Rightarrow> False | a # tx' \<Rightarrow> p a \<and> (\<exists>s t. tx' = s @ t \<and> list_all p s \<and> P t)"
    then obtain a s t where "tx = (a # s) @ t" "list_all p (a # s)" "P t" by (auto split: list.splits)
    then show ?l by blast
  qed
qed

lemma match_lang:
  "matchhere re tx \<longleftrightarrow> prefix_in re tx"
  "matchstar c re tx \<longleftrightarrow> (\<exists>s t. tx = s @ t \<and> list_all (allows c) s \<and> prefix_in re t)"
proof (induction re tx and c re tx rule: matchhere_matchstar.induct)
  case (1 re tx)
  show ?case
  proof (cases re)
    case Nil
    then show ?thesis by (subst matchhere.simps) (auto simp: prefix_in_def)
  next
    case (Cons c rest)
    show ?thesis
    proof (cases rest)
      case Nil
      have e: "prefix_in [] t" for t by (simp add: prefix_in_def)
      show ?thesis
      proof (cases "c = CHR ''$''")
        case True
        then show ?thesis using Cons Nil by (subst matchhere.simps) (auto simp: prefix_in_def)
      next
        case False
        have "items re = (One c # [], False)" "items [] = ([], False)" using Cons Nil False by simp_all
        from prefix_in_one [OF this, of "tx"] show ?thesis using Cons Nil False
          by (subst matchhere.simps) (auto simp: allows_def e matchhere.simps [of "[]"] split: list.split)
      qed
    next
      case (Cons d re2)
      note re = \<open>re = c # rest\<close> Cons
      obtain ks e where i: "items re2 = (ks, e)" by (cases "items re2")
      obtain ks' e' where i': "items rest = (ks', e')" by (cases "items rest")
      show ?thesis
      proof (cases "d = CHR ''*''")
        case True
        have "items re = (Many c # ks, e)" using re i True by simp
        from prefix_in_many [OF this i, of "tx"] show ?thesis using 1(2) [OF re True] re True by (subst matchhere.simps) simp
      next
        case False
        have "items re = (One c # ks', e')" using re i' False by simp
        from prefix_in_one [OF this i', of "tx"] show ?thesis using 1(3) [OF re False] re False
          by (subst matchhere.simps) (auto simp: allows_def split: list.split)
      qed
    qed
  qed
next
  case (2 c re tx)
  have a: "(t = c \<or> c = CHR ''.'') \<longleftrightarrow> allows c t" for t by (auto simp: allows_def)
  show ?case using 2 by (subst matchstar.simps, subst many_step, unfold a) (auto split: list.split)
qed

lemma match_from_suffix: "match_from re tx \<longleftrightarrow> (\<exists>a t. tx = a @ t \<and> matchhere re t)"
proof (induction tx)
  case Nil
  then show ?case by (subst match_from.simps) simp
next
  case (Cons c tx)
  have "(\<exists>a t. c # tx = a @ t \<and> matchhere re t) \<longleftrightarrow> matchhere re (c # tx) \<or> (\<exists>a t. tx = a @ t \<and> matchhere re t)"
    by (auto simp: Cons_eq_append_conv)
  then show ?case using Cons by (subst match_from.simps) simp
qed

text \<open>C35: grep's matcher decides the language of its pattern: a text matches exactly when some part of it is in the
  language, at the start if the pattern begins with a caret and at the end if it ends with a dollar.\<close>

theorem match_decides_pattern:
  "match re tx \<longleftrightarrow>
     (case re of
        c # re' \<Rightarrow> if c = CHR ''^'' then prefix_in re' tx else (\<exists>a t. tx = a @ t \<and> prefix_in re t)
      | [] \<Rightarrow> True)"
proof (cases re)
  case Nil
  have "\<exists>a t. tx = a @ t \<and> prefix_in re t" by (intro exI [of _ "[]"] exI [of _ tx]) (simp add: Nil prefix_in_def)
  then show ?thesis by (simp add: Nil match_def match_from_suffix match_lang)
qed (simp add: match_def match_from_suffix match_lang)

section \<open>The lines\<close>

definition keep :: "string \<Rightarrow> string list \<Rightarrow> string" where
  "keep pattern ls = concat (map (\<lambda>l. if match pattern l then l @ [CHR 0x0A] else []) ls)"

lemma grep_scan_lines:
  "list_all (\<lambda>l. CHR 0x0A \<notin> set l) ls \<Longrightarrow>
     grep_scan pattern (concat (map (\<lambda>l. l @ [CHR 0x0A]) ls)) = (keep pattern ls, [])"
proof (induction ls)
  case Nil
  then show ?case by (subst grep_scan.simps) (simp add: keep_def)
next
  case (Cons l ls)
  let ?r = "concat (map (\<lambda>l. l @ [CHR 0x0A]) ls)"
  have l: "CHR 0x0A \<notin> set l" using Cons.prems by simp
  have "takeWhile (\<lambda>c. c \<noteq> CHR 0x0A) (l @ CHR 0x0A # ?r) = l" using l by (subst takeWhile_append2) auto
  then show ?case using Cons strchr_append [OF l, of ?r] by (subst grep_scan.simps) (simp add: keep_def)
qed



end
