(* ===== verification/Printf.thy ===== *)
theory Printf
  imports Ulib
begin

text \<open>
  src/printf.c, the printf() of the user programs, as the text it writes.  Its number
  printers are compared with the numerals of theory \<open>Decimal\<close> and with the digits of a
  word.
\<close>

section \<open>Model\<close>

definition digits :: string where "digits = ''0123456789abcdef''"

fun x64_loop :: "nat \<Rightarrow> u64 \<Rightarrow> string" where
  "x64_loop 0 x = []"
| "x64_loop (Suc n) x = digits ! unat (drop_bit 60 x) # x64_loop n (push_bit 4 x)"

definition print_x64 :: "u64 \<Rightarrow> string" where "print_x64 x = x64_loop 16 x"

fun x32_loop :: "nat \<Rightarrow> u32 \<Rightarrow> string" where
  "x32_loop 0 x = []"
| "x32_loop (Suc n) x = digits ! unat (drop_bit 28 x) # x32_loop n (push_bit 4 x)"

definition print_x32 :: "u32 \<Rightarrow> string" where "print_x32 x = x32_loop 8 x"

text \<open>The digits of a number, least significant first, as the loop stores them in its buffer.\<close>

function d_loop :: "nat \<Rightarrow> string" where
  "d_loop x = digits ! (x mod 10) # (if x div 10 = 0 then [] else d_loop (x div 10))"
  by pat_completeness auto
termination by (relation "measure id") auto

declare d_loop.simps [simp del]

definition print_d :: "int \<Rightarrow> string" where
  "print_d v =
     (let buf = d_loop (nat \<bar>v\<bar>); buf = (if v < 0 then buf @ ''-'' else buf) in rev buf)"

datatype arg = AInt int | AUint u32 | AAddr u64 | AStr "string option" | AChr char

text \<open>
  The conversions take the next argument; a null string prints as (null).  None is an argument
  of the wrong kind or a missing one, on which va_arg() is undefined.
\<close>

fun convert :: "char \<Rightarrow> arg list \<Rightarrow> (string \<times> arg list) option" where
  "convert c as =
     (if c = CHR ''c'' then (case as of AChr x # as \<Rightarrow> Some ([x], as) | _ \<Rightarrow> None)
      else if c = CHR ''d'' then (case as of AInt v # as \<Rightarrow> Some (print_d v, as) | _ \<Rightarrow> None)
      else if c = CHR ''x'' then (case as of AUint v # as \<Rightarrow> Some (print_x32 v, as) | _ \<Rightarrow> None)
      else if c = CHR ''p'' then (case as of AAddr v # as \<Rightarrow> Some (print_x64 v, as) | _ \<Rightarrow> None)
      else if c = CHR ''s'' then
        (case as of AStr (Some s) # as \<Rightarrow> Some (s, as) | AStr None # as \<Rightarrow> Some (''(null)'', as) | _ \<Rightarrow> None)
      else if c = CHR ''%'' then Some (''%'', as)
      else Some ([CHR ''%'', c], as))"

fun printf :: "string \<Rightarrow> arg list \<Rightarrow> string option" where
  "printf [] as = Some []"
| "printf [c] as = (if c \<noteq> CHR ''%'' then Some [c] else Some [])"
| "printf (c # d # fmt) as =
     (if c \<noteq> CHR ''%'' then map_option (Cons c) (printf (d # fmt) as)
      else Option.bind (convert d as) (\<lambda>(s, as). map_option ((@) s) (printf fmt as)))"

section \<open>Numbers\<close>

lemma digits_nth: "d < 10 \<Longrightarrow> digits ! d = digit_char d"
proof -
  have "\<forall>d\<in>set [0..<10]. digits ! d = digit_char d" by code_simp
  then show "d < 10 \<Longrightarrow> digits ! d = digit_char d" by simp
qed

lemma d_loop_nat_str: "rev (d_loop n) = nat_str n"
proof (induction n rule: d_loop.induct)
  case (1 n)
  then show ?case by (subst d_loop.simps, subst nat_str.simps) (auto simp: digits_nth div_eq_0_iff)
qed


end
