(* ===== verification/Spec2Isabelle.thy ===== *)
theory Spec2Isabelle
  imports FsInode ProcInv VmSpace Assistant Grep Printf
begin

text \<open>
  A verification library for xv6draw: a 64-bit xv6 kernel (C, under src/), a program that
  draws what a user asks for (src/aidraw.c), a driver that carries the request over the
  serial line (src/ai.c), and the host program at the other end that asks a language model
  (src/agent.py).

  \<^bold>\<open>How the parts fit together.\<close>
  The disk (memide.c) is reached through the buffer cache (bio.c).  The log (log.c) groups
  the writes of a system call and makes them survive a crash.  On top of it the file system
  (fs.c) has blocks, inodes, directories and paths; the open files (file.c) are inodes or
  pipes (pipe.c).  The page allocator (kalloc.c) hands out pages to pipes, kernel stacks and
  page tables (vm.c).  Processes (proc.c) hold open files, a directory and an address space,
  and sleep and wake up under the locks of spinlock.c.  aidraw calls ai_query(), the driver
  frames the prompt, the agent answers with drawing commands, and aidraw parses them and
  draws with drawlib.c on a canvas.

  \<^bold>\<open>Vocabulary.\<close>
  Theory Prelude: machine integers are words of their width; a kernel routine returns
  \<open>Ok v\<close>, \<open>Panic msg\<close> where the code panics, or \<open>Blocks chan\<close> where it sleeps and nothing in
  the run wakes it.  The locale \<open>fixed_codec\<close> is the contract of a byte encoding.  Theory
  Queues has the locale \<open>fifo\<close> of bounded queues, theory Decimal the numerals that both ends
  of the conversation use.

  \<^bold>\<open>Storage.\<close>
  \<^item> Layout (fs.h, param.h): the on-disk records and their byte images, each an
    interpretation of \<open>fixed_codec\<close>.
  \<^item> Kstring (string.c): the byte and string routines on a memory of 64-bit addresses;
    \<open>memmove\<close> copies overlapping ranges, \<open>strlen\<close> ends at the first zero byte.
  \<^item> Bio (bio.c, memide.c): the cache with its list at pointer level.  A written block is on
    the disk and in the cache, and the list refines a most-recently-used-first sequence.
  \<^item> Log (log.c): the disk writes of a commit and of a recovery are a trace.  Cut anywhere,
    a later recovery gives all of the transaction or nothing.  The admission test of
    begin_op() lets in more blocks than log_write() accepts.
  \<^item> Txn: the abstract store with transactions that the file system is written against, and
    the refinement of it by cache and log.
  \<^item> Fs, FsBlocks, FsInode (fs.c): every routine of fs.c over that store; the block bitmap,
    the inode cache and the inode blocks satisfy their contracts.

  \<^bold>\<open>Memory.\<close>
  \<^item> Kalloc (kalloc.c): the free list threaded through the pages; locale \<open>page_allocator\<close>
    with its interpretation on \<open>kalloc\<close> and \<open>kfree\<close>.
  \<^item> Vm, VmMap, VmSpace (vm.c): four-level page tables in the bytes of the pages.  An address
    space is a map from page addresses to contents; allocuvm() adds zeroed pages and
    copyuvm() copies every byte.

  \<^bold>\<open>Concurrency and processes.\<close>
  \<^item> Locks (spinlock.c, sleeplock.c): CPUs that interleave the atomic steps of acquire() and
    release(); at most one is inside.
  \<^item> Pipe (pipe.c): the ring as an interpretation of \<open>fifo\<close>; reader and writer interleave,
    no byte is lost or reordered and no wakeup is missed.
  \<^item> File (file.c, pipealloc): the table of open files with the device switch as parameter.
  \<^item> Proc, ProcInv (proc.c): the process table as a state machine of critical sections.  Its
    invariant gives every zombie a live parent that is not asleep in wait().

  \<^bold>\<open>Drawing assistant.\<close>
  \<^item> Drawlib, DrawSpec, DrawShapes (drawlib.c): each routine is a partial function on
    canvases, None standing for a write outside.  All end, stay inside and paint their point
    set; \<open>draws f S color\<close> is the common form of these facts.
  \<^item> Ulib, Aidraw (ulib.c, aidraw.c): parsing of the commands.  Any text is drawn safely, and
    a command written as text is read back as itself.
  \<^item> Ai (ai.c): the driver, fed one byte at a time; buffers stay in bounds and a framed
    response is delivered.  A second query can take the answer of the first.
  \<^item> Agent (agent.py): validation, repair and fallback.  What it sends is accepted by aidraw.
  \<^item> Assistant: the three composed over the serial line.

  \<^bold>\<open>User programs.\<close>
  \<^item> Grep (grep.c): the matcher decides the language of its pattern.
  \<^item> Printf (printf.c): the printed numerals.

  \<^bold>\<open>Loops and bounds.\<close>
  No definition uses fuel.  Loops are structural or have a termination proof; the loops that
  C leaves open (strlen, strcpy, the line and ellipse loops) are partial functions whose
  result None is not returning, and the theorems about them prove that they return.  Array
  sizes are the constants of param.h.  C's signed overflow in drawlib.c is undefined, so the
  drawing arithmetic is that of the integers.

  \<^bold>\<open>Not modelled.\<close>
  Assembly, the boot sequence, interrupt controllers, timers, the VGA and keyboard registers
  and the IDE driver, whose behaviour is that of hardware.  The console.  System call
  dispatch and argument decoding (syscall.c, sysfile.c, sysproc.c), exec.c, the shell, the
  user allocator, mkfs and the small user programs, which compose the routines above.
  Network requests and json.loads of the agent are parameters.
\<close>

end
